(* ===== verification/Prelude.thy ===== *)
theory Prelude
  imports Main "HOL-Library.Word" "HOL-Library.Multiset"
begin

section \<open>Shared types, results and library lemmas\<close>

text \<open>
  What every component of the model of coro++ uses: the types that stand for C++ pointers and
  values, the exceptions the sources throw, the outcome of an operation
  that may throw or wait, and generic facts on outcomes and lists.

  A C++ exception is an outcome \<open>Raise e\<close>.  Behaviour the C++ standard leaves undefined and that the
  sources can reach (a write past an array, the increment of an erased iterator, a call through a
  pointer of the wrong type) is the exception value \<open>Undef u\<close>, so that it is a visible branch of the
  model and never silently defined.
\<close>

subsection \<open>Types\<close>

text \<open>
  \<open>cid\<close> is a pointer to a \<open>coro\<close> object: the index of the object in allocation order.
  \<open>pval\<close> is a \<open>void *\<close>.
\<close>

type_synonym cid = nat
type_synonym pval = "64 word"
type_synonym byte = "8 word"

datatype ub = Out_Of_Bounds | Erased_Iterator | Bad_Cast | Wild_Pointer | Stale_Stack | Use_After_Free

text \<open>
  The exceptions of the sources: the classes derived from \<open>Coro_Error\<close> (\<open>coro++.h\<close>, \<open>coro_openssl.h\<close>,
  \<open>coro_s2n.h\<close>) and the string literals that are thrown directly.
\<close>

datatype exn =
    Dead_Coro cid
  | Yield_From_Main
  | OS_Error string int
  | SSL_Error string
  | S2N_Error string
  | Thrown string
  | Undef ub

subsection \<open>Operations\<close>

text \<open>
  An operation on a state \<open>'w\<close> ends with a value, with an exception, or is \<open>Stuck\<close>: it has not come
  back (its coroutine is still suspended because the kernel has given no further answer, or the fuel
  of the model is used up).  The state reached is always part of the result, as the sources keep what
  they changed before an exception.
\<close>

datatype 'a outcome = Val 'a | Raise exn | Stuck

type_synonym ('w, 'a) op = "'w \<Rightarrow> 'a outcome \<times> 'w"

definition ret :: "'a \<Rightarrow> ('w, 'a) op" where
  "ret a w = (Val a, w)"

definition raise :: "exn \<Rightarrow> ('w, 'a) op" where
  "raise e w = (Raise e, w)"

definition bindS :: "('w, 'a) op \<Rightarrow> ('a \<Rightarrow> ('w, 'b) op) \<Rightarrow> ('w, 'b) op" where
  "bindS m f w =
     (case m w of (Val a, w') \<Rightarrow> f a w' | (Raise e, w') \<Rightarrow> (Raise e, w') | (Stuck, w') \<Rightarrow> (Stuck, w'))"

lemma ret_app [simp]: "ret a w = (Val a, w)"
  by (simp add: ret_def)

lemma raise_app [simp]: "raise e w = (Raise e, w)"
  by (simp add: raise_def)

lemma bindS_Val: "m w = (Val a, w') \<Longrightarrow> bindS m f w = f a w'"
  by (simp add: bindS_def)

lemma bindS_Raise: "m w = (Raise e, w') \<Longrightarrow> bindS m f w = (Raise e, w')"
  by (simp add: bindS_def)

lemma bindS_Stuck: "m w = (Stuck, w') \<Longrightarrow> bindS m f w = (Stuck, w')"
  by (simp add: bindS_def)

lemma bindS_ret [simp]: "bindS (ret a) f = f a"
  by (rule ext) (simp add: bindS_def)

lemma bindS_raise [simp]: "bindS (raise e) f = raise e"
  by (rule ext) (simp add: bindS_def)

lemma bindS_Val_iff: "bindS m f w = (Val b, w') \<longleftrightarrow> (\<exists>a w1. m w = (Val a, w1) \<and> f a w1 = (Val b, w'))"
  by (auto simp: bindS_def split: prod.splits outcome.splits)

lemma bindS_Raise_iff:
  "bindS m f w = (Raise e, w') \<longleftrightarrow>
     m w = (Raise e, w') \<or> (\<exists>a w1. m w = (Val a, w1) \<and> f a w1 = (Raise e, w'))"
  by (auto simp: bindS_def split: prod.splits outcome.splits)

lemma bindS_Stuck_iff:
  "bindS m f w = (Stuck, w') \<longleftrightarrow>
     m w = (Stuck, w') \<or> (\<exists>a w1. m w = (Val a, w1) \<and> f a w1 = (Stuck, w'))"
  by (auto simp: bindS_def split: prod.splits outcome.splits)

lemmas bindS_iffs = bindS_Val_iff bindS_Raise_iff bindS_Stuck_iff

lemma bindS_cong [fundef_cong]:
  assumes "m = m'" and "w = v" and "\<And>a w1. m' v = (Val a, w1) \<Longrightarrow> f a w1 = f' a w1"
  shows "bindS m f w = bindS m' f' v"
  using assms by (auto simp: bindS_def split: prod.splits outcome.splits)

text \<open>Unwinding: when \<open>m\<close> throws, the destructors \<open>d\<close> run before the exception goes on.\<close>

definition on_throw :: "('w, 'a) op \<Rightarrow> ('w, 'b) op \<Rightarrow> ('w, 'a) op" where
  "on_throw m d w = (case m w of (Raise ex, w') \<Rightarrow> bindS d (\<lambda>_. raise ex) w' | x \<Rightarrow> x)"

lemma on_throw_Val_iff [simp]: "on_throw m d w = (Val a, w') \<longleftrightarrow> m w = (Val a, w')"
  by (auto simp: on_throw_def bindS_def split: prod.splits outcome.splits)

subsection \<open>Collections of hints\<close>

named_theorems frame_simps \<open>what an operation leaves unchanged\<close>
named_theorems step_defs \<open>definitions of the single steps of a component\<close>

subsection \<open>Lists\<close>

lemma sorted_wrt_append_last:
  "sorted_wrt P (xs @ [x]) \<longleftrightarrow> sorted_wrt P xs \<and> (\<forall>y \<in> set xs. P y x)"
  by (auto simp: sorted_wrt_append)

lemma take_min_length [simp]: "take (min n (length xs)) xs = take n xs"
  by (cases "n \<le> length xs") (simp_all add: min_def)

lemma length_filter_list_update:
  assumes "i < length xs"
  shows "length (filter P (xs[i := x])) + (if P (xs ! i) then 1 else 0)
       = length (filter P xs) + (if P x then 1 else 0)"
  using assms
proof (induction xs arbitrary: i)
  case Nil
  then show ?case by simp
next
  case (Cons y ys)
  then show ?case by (cases i) (auto split: if_splits)
qed

end
