(* ===== verification/Timeval.thy ===== *)
theory Timeval
  imports Prelude
begin

section \<open>struct timeval and the macros on it\<close>

text \<open>
  \<open>coro++.h\<close> and \<open>coro_bench.h\<close> keep points in time as a \<open>struct timeval\<close> and compute with the macros
  \<open>timercmp\<close>, \<open>timersub\<close> and \<open>timeradd\<close> of \<open>sys/time.h\<close>.  They are written out here as the macros
  expand.  \<open>timercmp (a, b, <)\<close> is the lexicographic order on seconds and microseconds, so \<open>timeval\<close> is
  an instance of \<open>linorder\<close> and the comparison of the event queue is the order of the type.
\<close>

datatype timeval = Timeval (tv_sec: int) (tv_usec: int)

definition timercmp_less :: "timeval \<Rightarrow> timeval \<Rightarrow> bool" where
  "timercmp_less a b =
     (if tv_sec a = tv_sec b then tv_usec a < tv_usec b else tv_sec a < tv_sec b)"

definition timercmp_greater :: "timeval \<Rightarrow> timeval \<Rightarrow> bool" where
  "timercmp_greater a b =
     (if tv_sec a = tv_sec b then tv_usec a > tv_usec b else tv_sec a > tv_sec b)"

definition timersub :: "timeval \<Rightarrow> timeval \<Rightarrow> timeval" where
  "timersub a b =
     (let s = tv_sec a - tv_sec b; u = tv_usec a - tv_usec b
      in if u < 0 then Timeval (s - 1) (u + 1000000) else Timeval s u)"

definition timeradd :: "timeval \<Rightarrow> timeval \<Rightarrow> timeval" where
  "timeradd a b =
     (let s = tv_sec a + tv_sec b; u = tv_usec a + tv_usec b
      in if u \<ge> 1000000 then Timeval (s + 1) (u - 1000000) else Timeval s u)"

text \<open>What the kernel hands out is normalised; \<open>usecs\<close> reads a value as microseconds.\<close>

definition tv_norm :: "timeval \<Rightarrow> bool" where
  "tv_norm t \<longleftrightarrow> 0 \<le> tv_usec t \<and> tv_usec t < 1000000"

definition usecs :: "timeval \<Rightarrow> int" where
  "usecs t = tv_sec t * 1000000 + tv_usec t"

instantiation timeval :: linorder
begin

definition less_timeval :: "timeval \<Rightarrow> timeval \<Rightarrow> bool" where
  "less_timeval a b = timercmp_less a b"

definition less_eq_timeval :: "timeval \<Rightarrow> timeval \<Rightarrow> bool" where
  "less_eq_timeval a b \<longleftrightarrow> timercmp_less a b \<or> a = b"

instance
  by standard
    (auto simp: less_timeval_def less_eq_timeval_def timercmp_less_def
      intro: timeval.expand split: if_splits)

end

lemma timercmp_order:
  "timercmp_less a b \<longleftrightarrow> a < b"
  "timercmp_greater a b \<longleftrightarrow> b < a"
  by (auto simp: less_timeval_def timercmp_less_def timercmp_greater_def)

lemma usecs_timersub [simp]: "usecs (timersub a b) = usecs a - usecs b"
  by (auto simp: usecs_def timersub_def Let_def algebra_simps)

lemma usecs_timeradd [simp]: "usecs (timeradd a b) = usecs a + usecs b"
  by (auto simp: usecs_def timeradd_def Let_def algebra_simps)

lemma tv_norm_timersub: "tv_norm a \<Longrightarrow> tv_norm b \<Longrightarrow> tv_norm (timersub a b)"
  by (auto simp: tv_norm_def timersub_def Let_def)

lemma tv_norm_timeradd: "tv_norm a \<Longrightarrow> tv_norm b \<Longrightarrow> tv_norm (timeradd a b)"
  by (auto simp: tv_norm_def timeradd_def Let_def)

lemma usecs_less_iff:
  assumes "tv_norm a" "tv_norm b"
  shows "a < b \<longleftrightarrow> usecs a < usecs b"
  using assms
  by (auto simp: less_timeval_def timercmp_less_def usecs_def tv_norm_def)

lemma usecs_inj: "tv_norm a \<Longrightarrow> tv_norm b \<Longrightarrow> usecs a = usecs b \<Longrightarrow> a = b"
  by (metis usecs_less_iff less_irrefl linorder_neq_iff)

end
