(* ===== verification/Event_Queue.thy ===== *)
theory Event_Queue
  imports Timeval
begin

section \<open>The timed events and their priority queue\<close>

text \<open>
  \<open>class event\<close>, \<open>compare_events\<close> and \<open>event_list\<close> of \<open>coro++.h\<close>.  The queue is a
  \<open>std::priority_queue <event *, std::deque <event *>, compare_events>\<close>, that is a container kept as a
  binary heap by \<open>std::push_heap\<close> and \<open>std::pop_heap\<close>: \<open>push\<close> appends and sifts up, \<open>pop\<close> exchanges the
  first with the last element, drops the last and sifts the first down, \<open>top\<close> is the first element.
  The order of events with equal times is not fixed by the C++ standard, so everything the scheduler
  uses is stated in the locale \<open>prio_queue\<close>, whose laws are what the standard promises, and the heap is
  an interpretation of it.
\<close>

record event =
  ev_t :: timeval
  ev_args :: pval
  ev_coro :: cid

type_synonym event_list = "event list"

definition compare_events :: "event \<Rightarrow> event \<Rightarrow> bool" where
  "compare_events a b = timercmp_greater (ev_t a) (ev_t b)"

lemma compare_events_iff: "compare_events a b \<longleftrightarrow> ev_t b < ev_t a"
  by (simp add: compare_events_def timercmp_order)

subsection \<open>The heap operations\<close>

definition swap_at :: "'a list \<Rightarrow> nat \<Rightarrow> nat \<Rightarrow> 'a list" where
  "swap_at xs i j = xs[j := xs ! i, i := xs ! j]"

function sift_up :: "event_list \<Rightarrow> nat \<Rightarrow> event_list" where
  "sift_up xs i =
     (if i = 0 then xs
      else let p = (i - 1) div 2
           in if compare_events (xs ! p) (xs ! i) then sift_up (swap_at xs i p) p else xs)"
  by pat_completeness auto
termination
  by (relation "measure snd") auto

definition min_child :: "event_list \<Rightarrow> nat \<Rightarrow> nat" where
  "min_child xs i =
     (if 2 * i + 2 < length xs \<and> compare_events (xs ! (2 * i + 1)) (xs ! (2 * i + 2))
      then 2 * i + 2 else 2 * i + 1)"

lemma min_child_bounds:
  "i < min_child xs i"
  "2 * i + 1 < length xs \<Longrightarrow> min_child xs i < length xs"
  by (auto simp: min_child_def)

lemma length_swap_at [simp]: "length (swap_at xs i j) = length xs"
  by (simp add: swap_at_def)

function sift_down :: "event_list \<Rightarrow> nat \<Rightarrow> event_list" where
  "sift_down xs i =
     (if 2 * i + 1 < length xs \<and> compare_events (xs ! i) (xs ! min_child xs i)
      then sift_down (swap_at xs i (min_child xs i)) (min_child xs i) else xs)"
  by pat_completeness auto
termination
  using min_child_bounds by (relation "measure (\<lambda>(xs, i). length xs - i)") (auto simp: diff_less_mono2)

declare sift_up.simps [simp del] sift_down.simps [simp del]

definition ev_push :: "event \<Rightarrow> event_list \<Rightarrow> event_list" where
  "ev_push e q = sift_up (q @ [e]) (length q)"

definition ev_top :: "event_list \<Rightarrow> event" where
  "ev_top q = q ! 0"

definition ev_pop :: "event_list \<Rightarrow> event_list" where
  "ev_pop q = sift_down (butlast (swap_at q 0 (length q - 1))) 0"

subsection \<open>Contents\<close>

lemma mset_swap_at: "i < length xs \<Longrightarrow> j < length xs \<Longrightarrow> mset (swap_at xs i j) = mset xs"
  by (simp add: swap_at_def mset_swap)

lemma mset_sift_up: "i < length xs \<Longrightarrow> mset (sift_up xs i) = mset xs"
proof (induction xs i rule: sift_up.induct)
  case (1 xs i)
  then show ?case
    by (subst sift_up.simps) (auto simp: Let_def mset_swap_at)
qed

lemma mset_sift_down: "mset (sift_down xs i) = mset xs"
proof (induction xs i rule: sift_down.induct)
  case (1 xs i)
  then show ?case
    using min_child_bounds [where i = i and xs = xs]
    by (subst sift_down.simps) (auto simp: mset_swap_at)
qed

lemma length_sift_down [simp]: "length (sift_down xs i) = length xs"
  by (metis mset_sift_down size_mset)

lemma length_ev_pop [simp]: "length (ev_pop q) = length q - 1"
  by (simp add: ev_pop_def)

lemma mset_ev_push: "mset (ev_push e q) = mset q + {#e#}"
  by (simp add: ev_push_def mset_sift_up)

lemma mset_butlast_swap:
  assumes "q \<noteq> []"
  shows "mset (butlast (swap_at q 0 (length q - 1))) = mset q - {#q ! 0#}"
proof -
  let ?s = "swap_at q 0 (length q - 1)"
  have ne: "?s \<noteq> []" using assms by (metis length_swap_at length_0_conv)
  have "last ?s = q ! 0"
    using assms ne by (auto simp: last_conv_nth swap_at_def nth_list_update)
  then have "mset ?s = mset (butlast ?s) + {#q ! 0#}"
    using ne by (metis append_butlast_last_id mset_append mset.simps(2) mset.simps(1) add_mset_add_single)
  moreover have "mset ?s = mset q" using assms by (simp add: mset_swap_at)
  ultimately show ?thesis by (metis add_mset_add_single add_mset_remove_trivial)
qed

lemma mset_ev_pop: "q \<noteq> [] \<Longrightarrow> mset (ev_pop q) = mset q - {#ev_top q#}"
  using mset_butlast_swap [of q] by (simp add: ev_pop_def ev_top_def mset_sift_down)

subsection \<open>The heap order\<close>

definition heap_edge :: "event_list \<Rightarrow> nat \<Rightarrow> bool" where
  "heap_edge xs k \<longleftrightarrow> ev_t (xs ! ((k - 1) div 2)) \<le> ev_t (xs ! k)"

definition is_heap :: "event_list \<Rightarrow> bool" where
  "is_heap xs \<longleftrightarrow> (\<forall>k < length xs. 0 < k \<longrightarrow> heap_edge xs k)"

text \<open>While sifting, the order may fail at one place: above \<open>i\<close>, or below \<open>i\<close>.\<close>

definition heap_but_up :: "event_list \<Rightarrow> nat \<Rightarrow> bool" where
  "heap_but_up xs i \<longleftrightarrow>
     (\<forall>k < length xs. 0 < k \<longrightarrow> k \<noteq> i \<longrightarrow> heap_edge xs k) \<and>
     (\<forall>k < length xs. 0 < k \<longrightarrow> (k - 1) div 2 = i \<longrightarrow> 0 < i \<longrightarrow> ev_t (xs ! ((i - 1) div 2)) \<le> ev_t (xs ! k))"

definition heap_but_down :: "event_list \<Rightarrow> nat \<Rightarrow> bool" where
  "heap_but_down xs i \<longleftrightarrow>
     (\<forall>k < length xs. 0 < k \<longrightarrow> (k - 1) div 2 \<noteq> i \<longrightarrow> heap_edge xs k) \<and>
     (\<forall>k < length xs. 0 < k \<longrightarrow> (k - 1) div 2 = i \<longrightarrow> 0 < i \<longrightarrow> ev_t (xs ! ((i - 1) div 2)) \<le> ev_t (xs ! k))"

lemma nth_swap_at:
  "i < length xs \<Longrightarrow> j < length xs \<Longrightarrow> k < length xs \<Longrightarrow>
   swap_at xs i j ! k = (if k = i then xs ! j else if k = j then xs ! i else xs ! k)"
  by (auto simp: swap_at_def nth_list_update)

lemma sift_up_heap: "i < length xs \<Longrightarrow> heap_but_up xs i \<Longrightarrow> is_heap (sift_up xs i)"
proof (induction xs i rule: sift_up.induct)
  case (1 xs i)
  define p where "p = (i - 1) div 2"
  show ?case
  proof (cases "i = 0 \<or> \<not> compare_events (xs ! p) (xs ! i)")
    case True
    then have "is_heap xs"
      using "1.prems" by (auto simp: heap_but_up_def is_heap_def heap_edge_def compare_events_iff p_def not_less)
    then show ?thesis using True by (subst sift_up.simps) (auto simp: p_def Let_def)
  next
    case False
    then have i: "0 < i" "p < i" and lt: "ev_t (xs ! i) < ev_t (xs ! p)"
      by (auto simp: compare_events_iff p_def)
    let ?ys = "swap_at xs i p"
    have len: "i < length xs" "p < length xs" using "1.prems"(1) i by auto
    have "heap_but_up ?ys p"
      unfolding heap_but_up_def
    proof (intro conjI allI impI)
      fix k assume k: "k < length ?ys" "0 < k" "k \<noteq> p"
      show "heap_edge ?ys k"
      proof (cases "k = i")
        case True
        then show ?thesis using len lt i(2) by (simp add: heap_edge_def nth_swap_at p_def [unfolded One_nat_def, symmetric])
      next
        case ki: False
        have pk: "(k - 1) div 2 < length xs" using k by simp
        have e: "ev_t (xs ! ((k - 1) div 2)) \<le> ev_t (xs ! k)"
          using "1.prems"(2) k ki by (auto simp: heap_but_up_def heap_edge_def)
        have "(k - 1) div 2 = i \<Longrightarrow> ev_t (xs ! p) \<le> ev_t (xs ! k)"
          using "1.prems"(2) k i by (auto simp: heap_but_up_def p_def)
        then show ?thesis using e lt len pk k ki by (auto simp: heap_edge_def nth_swap_at)
      qed
    next
      fix k assume k: "k < length ?ys" "0 < k" "(k - 1) div 2 = p" "0 < p"
      have pp: "ev_t (xs ! ((p - 1) div 2)) \<le> ev_t (xs ! p)"
        using "1.prems"(2) k(4) i len by (auto simp: heap_but_up_def heap_edge_def)
      have "k \<noteq> i \<Longrightarrow> ev_t (xs ! p) \<le> ev_t (xs ! k)"
        using "1.prems"(2) k by (auto simp: heap_but_up_def heap_edge_def)
      then have "ev_t (xs ! ((p - 1) div 2)) \<le> ev_t (?ys ! k)"
        using pp k len by (auto simp: nth_swap_at)
      moreover have "(p - 1) div 2 < p" using k(4) by simp
      ultimately show "ev_t (?ys ! ((p - 1) div 2)) \<le> ev_t (?ys ! k)"
        using len i k(1) by (auto simp: nth_swap_at)
    qed
    then have "is_heap (sift_up ?ys p)"
      using "1.IH" [OF _ p_def] False len by (auto simp: p_def)
    then show ?thesis using False by (subst sift_up.simps) (auto simp: p_def Let_def)
  qed
qed

lemma min_child_le:
  assumes "k < length xs" "0 < k" "(k - 1) div 2 = i"
  shows "ev_t (xs ! min_child xs i) \<le> ev_t (xs ! k)" "(min_child xs i - 1) div 2 = i"
    "2 * i + 1 < length xs"
proof -
  have "k = 2 * i + 1 \<or> k = 2 * i + 2" using assms by linarith
  then show "ev_t (xs ! min_child xs i) \<le> ev_t (xs ! k)" "(min_child xs i - 1) div 2 = i"
    "2 * i + 1 < length xs"
    using assms(1) by (auto simp: min_child_def compare_events_iff)
qed

lemma sift_down_heap: "heap_but_down xs i \<Longrightarrow> is_heap (sift_down xs i)"
proof (induction xs i rule: sift_down.induct)
  case (1 xs i)
  define c where "c = min_child xs i"
  show ?case
  proof (cases "2 * i + 1 < length xs \<and> compare_events (xs ! i) (xs ! c)")
    case False
    have "is_heap xs"
      unfolding is_heap_def
    proof (intro allI impI)
      fix k assume k: "k < length xs" "0 < k"
      show "heap_edge xs k"
      proof (cases "(k - 1) div 2 = i")
        case True
        then show ?thesis
          using False min_child_le [OF k True] by (auto simp: heap_edge_def compare_events_iff c_def)
      next
        case False
        then show ?thesis using "1.prems" k by (auto simp: heap_but_down_def)
      qed
    qed
    then show ?thesis using False by (subst sift_down.simps) (auto simp: c_def)
  next
    case True
    then have lt: "ev_t (xs ! c) < ev_t (xs ! i)" by (simp add: compare_events_iff)
    have len: "i < c" "c < length xs" "i < length xs"
      using True min_child_bounds [where i = i and xs = xs] by (auto simp: c_def)
    have pc: "(c - 1) div 2 = i" by (auto simp: c_def min_child_def)
    let ?ys = "swap_at xs i c"
    have "heap_but_down ?ys c"
      unfolding heap_but_down_def
    proof (intro conjI allI impI)
      fix k assume k: "k < length ?ys" "0 < k" "(k - 1) div 2 \<noteq> c"
      have pk: "(k - 1) div 2 < length xs" using k by simp
      show "heap_edge ?ys k"
      proof (cases "(k - 1) div 2 = i")
        case True
        have "ev_t (xs ! c) \<le> ev_t (xs ! k)" using min_child_le [OF _ k(2) True] k(1) by (simp add: c_def)
        then show ?thesis using True len lt k by (auto simp: heap_edge_def nth_swap_at)
      next
        case False
        have e: "ev_t (xs ! ((k - 1) div 2)) \<le> ev_t (xs ! k)"
          using "1.prems" k False by (auto simp: heap_but_down_def heap_edge_def)
        have "k = i \<Longrightarrow> ev_t (xs ! ((i - 1) div 2)) \<le> ev_t (xs ! c)"
          using "1.prems" k len pc by (auto simp: heap_but_down_def)
        then show ?thesis using e False k len pk pc by (auto simp: heap_edge_def nth_swap_at)
      qed
    next
      fix k assume k: "k < length ?ys" "0 < k" "(k - 1) div 2 = c"
      have "(k - 1) div 2 \<noteq> i" "k \<noteq> c" "k \<noteq> i" using k len by auto
      then have "ev_t (xs ! c) \<le> ev_t (xs ! k)"
        using "1.prems" k by (auto simp: heap_but_down_def heap_edge_def)
      then show "ev_t (?ys ! ((c - 1) div 2)) \<le> ev_t (?ys ! k)"
        using len k pc \<open>k \<noteq> c\<close> \<open>k \<noteq> i\<close> by (auto simp: nth_swap_at)
    qed
    then have "is_heap (sift_down ?ys c)" using "1.IH" True by (simp add: c_def)
    then show ?thesis using True by (subst sift_down.simps) (auto simp: c_def)
  qed
qed

lemma is_heap_Nil [simp]: "is_heap []"
  by (simp add: is_heap_def)

lemma is_heap_ev_push: "is_heap q \<Longrightarrow> is_heap (ev_push e q)"
  unfolding ev_push_def
  by (rule sift_up_heap)
    (auto simp: heap_but_up_def is_heap_def heap_edge_def nth_append)

lemma is_heap_ev_pop:
  assumes "is_heap q" "q \<noteq> []"
  shows "is_heap (ev_pop q)"
  unfolding ev_pop_def
proof (rule sift_down_heap)
  have "swap_at q 0 (length q - 1) ! k = q ! k" if "0 < k" "k < length q - 1" for k
    using that by (subst nth_swap_at) auto
  then show "heap_but_down (butlast (swap_at q 0 (length q - 1))) 0"
    using assms by (auto simp: heap_but_down_def is_heap_def heap_edge_def nth_butlast)
qed

lemma is_heap_top:
  assumes "is_heap q" "k < length q"
  shows "ev_t (ev_top q) \<le> ev_t (q ! k)"
  using assms(2)
proof (induction k rule: less_induct)
  case (less k)
  show ?case
  proof (cases "k = 0")
    case True
    then show ?thesis by (simp add: ev_top_def)
  next
    case False
    then have "ev_t (ev_top q) \<le> ev_t (q ! ((k - 1) div 2))" using less by auto
    moreover have "heap_edge q k" using assms(1) less.prems False by (auto simp: is_heap_def)
    ultimately show ?thesis by (auto simp: heap_edge_def)
  qed
qed

subsection \<open>What the standard promises of a priority queue\<close>

text \<open>
  \<open>pop_while\<close> takes elements off the top as long as they satisfy \<open>P\<close>: the loop shape in which the
  scheduler uses its queue (\<open>schedule_events\<close>).  The fuel is the number of elements, which the
  locale proves to be enough.
\<close>

fun pop_while :: "('q \<Rightarrow> 'e) \<Rightarrow> ('q \<Rightarrow> 'q) \<Rightarrow> ('e \<Rightarrow> bool) \<Rightarrow> nat \<Rightarrow> 'q \<Rightarrow> 'e list \<times> 'q" where
  "pop_while qtop qpop P 0 q = ([], q)"
| "pop_while qtop qpop P (Suc n) q =
     (if P (qtop q) then (let (es, q') = pop_while qtop qpop P n (qpop q) in (qtop q # es, q'))
      else ([], q))"

locale prio_queue =
  fixes qpush :: "'e \<Rightarrow> 'q \<Rightarrow> 'q"
    and qtop :: "'q \<Rightarrow> 'e"
    and qpop :: "'q \<Rightarrow> 'q"
    and elems :: "'q \<Rightarrow> 'e multiset"
    and inv :: "'q \<Rightarrow> bool"
    and key :: "'e \<Rightarrow> 'k::linorder"
  assumes elems_push: "elems (qpush e q) = elems q + {#e#}"
    and inv_push: "inv q \<Longrightarrow> inv (qpush e q)"
    and top_in: "elems q \<noteq> {#} \<Longrightarrow> qtop q \<in># elems q"
    and top_least: "inv q \<Longrightarrow> e \<in># elems q \<Longrightarrow> key (qtop q) \<le> key e"
    and elems_pop: "elems q \<noteq> {#} \<Longrightarrow> elems (qpop q) = elems q - {#qtop q#}"
    and inv_pop: "inv q \<Longrightarrow> elems q \<noteq> {#} \<Longrightarrow> inv (qpop q)"
begin

lemma pop_while_due:
  assumes "inv q" "size (elems q) = n"
    and "pop_while qtop qpop (\<lambda>e. key e < t) n q = (es, q')"
  shows "inv q' \<and> mset es = filter_mset (\<lambda>e. key e < t) (elems q)
       \<and> elems q' = filter_mset (\<lambda>e. \<not> key e < t) (elems q) \<and> sorted (map key es)"
  using assms
proof (induction n arbitrary: q es)
  case 0
  then show ?case by auto
next
  case (Suc n)
  have ne: "elems q \<noteq> {#}" using Suc.prems(2) by auto
  note tp = top_in [OF ne] and least = top_least [OF Suc.prems(1)]
  show ?case
  proof (cases "key (qtop q) < t")
    case True
    then obtain es1 where r: "pop_while qtop qpop (\<lambda>e. key e < t) n (qpop q) = (es1, q')" "es = qtop q # es1"
      using Suc.prems(3) by (auto split: prod.splits)
    have sz: "size (elems (qpop q)) = n" using Suc.prems(2) elems_pop [OF ne] tp by (simp add: size_Diff_singleton)
    have q: "elems q = add_mset (qtop q) (elems (qpop q))" using elems_pop [OF ne] tp by simp
    note IH = Suc.IH [OF inv_pop [OF Suc.prems(1) ne] sz r(1)]
    have "\<forall>e \<in> set es1. key (qtop q) \<le> key e"
    proof
      fix e assume "e \<in> set es1"
      then have "e \<in># elems (qpop q)" using IH by (metis filter_mset_eq_conv in_multiset_in_set mset_subset_eqD multiset_filter_subset)
      then show "key (qtop q) \<le> key e" using q least by auto
    qed
    then show ?thesis using IH True r(2) q by auto
  next
    case False
    then have "\<not> key e < t" if "e \<in># elems q" for e using least [OF that] by auto
    then have "filter_mset (\<lambda>e. \<not> key e < t) (elems q) = elems q"
      "filter_mset (\<lambda>e. key e < t) (elems q) = {#}"
      by (auto simp: filter_mset_eq_conv filter_mset_eq_mempty_iff)
    then show ?thesis using Suc.prems False by simp
  qed
qed

end

interpretation evq: prio_queue ev_push ev_top ev_pop mset is_heap ev_t
proof unfold_locales
  fix e and q :: event_list
  show "mset (ev_push e q) = mset q + {#e#}" by (rule mset_ev_push)
  show "is_heap q \<Longrightarrow> is_heap (ev_push e q)" by (rule is_heap_ev_push)
  show "mset q \<noteq> {#} \<Longrightarrow> ev_top q \<in># mset q" by (auto simp: ev_top_def)
  show "is_heap q \<Longrightarrow> e \<in># mset q \<Longrightarrow> ev_t (ev_top q) \<le> ev_t e"
    by (auto simp: in_set_conv_nth intro: is_heap_top)
  show "mset q \<noteq> {#} \<Longrightarrow> mset (ev_pop q) = mset q - {#ev_top q#}" by (auto simp: mset_ev_pop)
  show "is_heap q \<Longrightarrow> mset q \<noteq> {#} \<Longrightarrow> is_heap (ev_pop q)" by (auto simp: is_heap_ev_pop)
qed

end
