(* ===== verification/Coro.thy ===== *)
theory Coro
  imports Event_Queue "HOL-Library.Signed_Division"
begin

section \<open>Coroutines and their scheduler\<close>

text \<open>
  \<open>class coro\<close> of \<open>coro++.h\<close>: the coroutine objects, the static state of the scheduler and every
  operation on them, from \<open>schedule\<close> to \<open>event_loop\<close>.

  All coroutines run on one stack.  \<open>w_stack\<close> is what lies on it, and \<open>co_copy\<close> is the heap block
  \<open>_stack_copy\<close> that \<open>preserve\<close> fills and \<open>restore\<close> puts back.  What lies on the stack of a suspended
  coroutine is a computation that waits for the value \<open>yield\<close> returns, so its type is
  \<open>'s frames = pval \<Rightarrow> 's\<close>, where \<open>'s\<close> is a point in the code of the thread.  The code itself is the
  user's: a parameter \<open>code :: 's \<Rightarrow> 's action\<close> says what the thread does next, and an action is a call
  into the library, an end of the thread function, or an exception that leaves it.

  \<open>gettimeofday\<close>, \<open>malloc\<close> and the poller are parameters too: the clock gives the time of the
  \<open>n\<close>-th call, \<open>w_malloc\<close> says whether the \<open>n\<close>-th allocation succeeds, and the virtual functions of the
  poller are a \<open>vtable\<close>.
\<close>

subsection \<open>State\<close>

type_synonym 's frames = "pval \<Rightarrow> 's"

record 's coro =
  co_id :: int
  co_value :: pval
  co_start :: 's
  co_copy :: "'s frames option"
  co_started :: bool
  co_dead :: bool

type_synonym pending_entry = "cid \<times> pval"

record ('s, 'p) world =
  w_coros :: "'s coro list"
  w_pending :: "pending_entry list"
  w_staging :: "pending_entry list"
  w_current :: "cid option"
  w_exit :: bool
  w_events :: event_list
  w_id_counter :: int
  w_stack :: "'s frames option"
  w_main_value :: pval
  w_clock :: "nat \<Rightarrow> timeval"
  w_ticks :: nat
  w_malloc :: "nat \<Rightarrow> bool"
  w_allocs :: nat
  w_poller :: 'p

text \<open>
  The virtual functions of \<open>class poller\<close>.  \<open>vt_resumed\<close> is what an override of \<open>wait_for_read\<close> or
  \<open>wait_for_write\<close> does with the value its \<open>yield\<close> returns: the base class ignores it.
\<close>

record ('s, 'p) vtable =
  vt_set_read :: "int \<Rightarrow> cid \<Rightarrow> ('p, unit) op"
  vt_set_write :: "int \<Rightarrow> cid \<Rightarrow> ('p, unit) op"
  vt_resumed :: "string \<Rightarrow> pval \<Rightarrow> exn option"
  vt_poll :: "int \<Rightarrow> (('s, 'p) world, unit) op"

datatype 's action =
    Finish
  | Uncaught
  | Yield pval "'s frames"
  | Schedule cid pval 's "exn \<Rightarrow> 's"
  | Spawn 's "cid \<Rightarrow> 's"
  | Insert_Event timeval cid pval 's
  | Sleep int "'s frames"
  | Exit 's
  | Gettime "timeval \<Rightarrow> 's"
  | Current "cid option \<Rightarrow> 's"
  | Wait_Read int 's "exn \<Rightarrow> 's"
  | Wait_Write int 's "exn \<Rightarrow> 's"

text \<open>The static objects before \<open>main\<close> runs: \<open>_main_coroutine\<close> has taken the id 0.\<close>

definition init_world :: "(nat \<Rightarrow> timeval) \<Rightarrow> (nat \<Rightarrow> bool) \<Rightarrow> 'p \<Rightarrow> ('s, 'p) world" where
  "init_world clock malloc p =
     \<lparr>w_coros = [], w_pending = [], w_staging = [], w_current = None, w_exit = False,
      w_events = [], w_id_counter = 1, w_stack = None, w_main_value = 0,
      w_clock = clock, w_ticks = 0, w_malloc = malloc, w_allocs = 0, w_poller = p\<rparr>"

definition upd_coro :: "cid \<Rightarrow> ('s coro \<Rightarrow> 's coro) \<Rightarrow> ('s, 'p) world \<Rightarrow> ('s, 'p) world" where
  "upd_coro c f w = w\<lparr>w_coros := (w_coros w)[c := f (w_coros w ! c)]\<rparr>"

definition valid_cid :: "('s, 'p) world \<Rightarrow> cid \<Rightarrow> bool" where
  "valid_cid w c \<longleftrightarrow> c < length (w_coros w)"

definition is_dead :: "('s, 'p) world \<Rightarrow> cid \<Rightarrow> bool" where
  "is_dead w c \<longleftrightarrow> co_dead (w_coros w ! c)"

subsection \<open>Operations that do not switch\<close>

definition new_coro :: "'s \<Rightarrow> (('s, 'p) world, cid) op" where
  "new_coro start w =
     (Val (length (w_coros w)),
      w\<lparr>w_coros := w_coros w @
          [\<lparr>co_id = w_id_counter w, co_value = 0, co_start = start, co_copy = None,
            co_started = False, co_dead = False\<rparr>],
        w_id_counter := w_id_counter w + 1\<rparr>)"

definition schedule :: "cid \<Rightarrow> pval \<Rightarrow> (('s, 'p) world, unit) op" where
  "schedule c arg w =
     (if valid_cid w c then
        if \<not> is_dead w c then (Val (), w\<lparr>w_pending := w_pending w @ [(c, arg)]\<rparr>)
        else (Raise (Dead_Coro c), w)
      else (Raise (Undef Wild_Pointer), w))"

definition gettimeofday :: "(('s, 'p) world, timeval) op" where
  "gettimeofday w = (Val (w_clock w (w_ticks w)), w\<lparr>w_ticks := Suc (w_ticks w)\<rparr>)"

definition insert_event :: "timeval \<Rightarrow> cid \<Rightarrow> pval \<Rightarrow> ('s, 'p) world \<Rightarrow> ('s, 'p) world" where
  "insert_event t c args w =
     w\<lparr>w_events := ev_push \<lparr>ev_t = t, ev_args = args, ev_coro = c\<rparr> (w_events w)\<rparr>"

lemma schedule_w_events: "schedule c a w = (r, w') \<Longrightarrow> w_events w' = w_events w"
  by (auto simp: schedule_def split: if_splits)

text \<open>The loop of \<open>schedule_events\<close>, with the time read before it.\<close>

function schedule_due :: "timeval \<Rightarrow> (('s, 'p) world, unit) op" where
  "schedule_due tv w =
     (if w_events w \<noteq> [] then
        let e = ev_top (w_events w) in
        if timercmp_less (ev_t e) tv
        then bindS (schedule (ev_coro e) (ev_args e)) (\<lambda>_. schedule_due tv)
               (w\<lparr>w_events := ev_pop (w_events w)\<rparr>)
        else (Val (), w)
      else (Val (), w))"
  by pat_completeness auto
termination
  by (relation "measure (\<lambda>(tv, w). length (w_events w))") (auto dest: schedule_w_events)

declare schedule_due.simps [simp del]

definition schedule_events :: "(('s, 'p) world, unit) op" where
  "schedule_events = bindS gettimeofday schedule_due"

definition time_to_next_event :: "(('s, 'p) world, int) op" where
  "time_to_next_event w =
     (if w_events w \<noteq> [] then
        bindS gettimeofday (\<lambda>t0.
          let t1 = timersub (ev_t (ev_top (w_events w))) t0
          in if tv_sec t1 \<ge> 0 \<and> tv_usec t1 > 0
             then ret (tv_sec t1 * 1000000 + tv_usec t1) else ret 0) w
      else (Val 30000000, w))"

definition exit_loop :: "('s, 'p) world \<Rightarrow> ('s, 'p) world" where
  "exit_loop w = w\<lparr>w_exit := True\<rparr>"

subsection \<open>The stack\<close>

definition create :: "cid \<Rightarrow> ('s, 'p) world \<Rightarrow> ('s, 'p) world" where
  "create c w =
     (upd_coro c (\<lambda>co. co\<lparr>co_started := True\<rparr>) w)
       \<lparr>w_stack := Some (\<lambda>_. co_start (w_coros w ! c))\<rparr>"

definition preserve :: "cid \<Rightarrow> (('s, 'p) world, unit) op" where
  "preserve c w =
     (if w_malloc w (w_allocs w) then
        (Val (), (upd_coro c (\<lambda>co. co\<lparr>co_copy := w_stack w\<rparr>) w)\<lparr>w_allocs := Suc (w_allocs w)\<rparr>)
      else
        (Raise (Thrown ''unable to malloc stack copy''),
         (upd_coro c (\<lambda>co. co\<lparr>co_copy := None\<rparr>) w)\<lparr>w_allocs := Suc (w_allocs w)\<rparr>))"

definition restore :: "cid \<Rightarrow> ('s, 'p) world \<Rightarrow> ('s, 'p) world" where
  "restore c w =
     (upd_coro c (\<lambda>co. co\<lparr>co_copy := None\<rparr>) w)\<lparr>w_stack := co_copy (w_coros w ! c)\<rparr>"

definition set_value :: "cid \<Rightarrow> pval \<Rightarrow> ('s, 'p) world \<Rightarrow> ('s, 'p) world" where
  "set_value c v = upd_coro c (\<lambda>co. co\<lparr>co_value := v\<rparr>)"

subsection \<open>What a running thread does\<close>

text \<open>
  \<open>run_seg\<close> runs a thread from a point of its code to its next switch back to the scheduler.  It ends
  \<open>Suspended k\<close> when the thread calls \<open>yield\<close> (directly, in \<open>sleep\<close> or in a wait of the poller), where
  \<open>k\<close> is then on the stack, and \<open>Finished\<close> when the thread function has returned or thrown.
\<close>

datatype 's ending = Suspended "'s frames" | Finished

definition me :: "(('s, 'p) world, cid) op" where
  "me w = (case w_current w of Some c \<Rightarrow> (Val c, w) | None \<Rightarrow> (Raise (Undef Wild_Pointer), w))"

definition yield :: "pval \<Rightarrow> 's frames \<Rightarrow> (('s, 'p) world, 's ending) op" where
  "yield arg k = bindS me (\<lambda>c w. (Val (Suspended k), set_value c arg w))"

definition sleep :: "int \<Rightarrow> 's frames \<Rightarrow> (('s, 'p) world, 's ending) op" where
  "sleep msec k =
     bindS me (\<lambda>c. bindS gettimeofday (\<lambda>tv0 w.
       let tv1 = timeradd tv0 (Timeval (msec sdiv 1000) ((msec smod 1000) * 1000))
       in yield 0 k (insert_event tv1 c 0 w)))"

definition set_wait ::
    "(int \<Rightarrow> cid \<Rightarrow> ('p, unit) op) \<Rightarrow> int \<Rightarrow> cid \<Rightarrow> (('s, 'p) world, unit) op" where
  "set_wait reg fd c w = (case reg fd c (w_poller w) of (r, p) \<Rightarrow> (r, w\<lparr>w_poller := p\<rparr>))"

text \<open>
  \<open>coro_file::wait_for_read\<close> and \<open>wait_for_write\<close> reach the poller through \<open>coro::current ()\<close>, and the
  poller's \<open>wait_for_\<close> functions register the coroutine, yield and look at the value they get back.
\<close>

definition wait_for ::
    "(int \<Rightarrow> cid \<Rightarrow> ('p, unit) op) \<Rightarrow> (pval \<Rightarrow> exn option) \<Rightarrow> int \<Rightarrow> 's \<Rightarrow> (exn \<Rightarrow> 's)
      \<Rightarrow> (('s, 'p) world, 's ending) op" where
  "wait_for reg chk fd k h =
     bindS me (\<lambda>c. bindS (set_wait reg fd c) (\<lambda>_.
       yield 0 (\<lambda>v. case chk v of None \<Rightarrow> k | Some e \<Rightarrow> h e)))"

fun run_seg :: "nat \<Rightarrow> ('s, 'p) vtable \<Rightarrow> ('s \<Rightarrow> 's action) \<Rightarrow> 's \<Rightarrow> (('s, 'p) world, 's ending) op" where
  "run_seg 0 vt code s w = (Stuck, w)"
| "run_seg (Suc n) vt code s w =
     (case code s of
        Finish \<Rightarrow> (Val Finished, w)
      | Uncaught \<Rightarrow> (Val Finished, w)
      | Yield v k \<Rightarrow> yield v k w
      | Schedule c v k h \<Rightarrow>
          (case schedule c v w of
             (Val _, w') \<Rightarrow> run_seg n vt code k w'
           | (Raise e, w') \<Rightarrow> run_seg n vt code (h e) w'
           | (Stuck, w') \<Rightarrow> (Stuck, w'))
      | Spawn s' k \<Rightarrow> bindS (new_coro s') (\<lambda>c. run_seg n vt code (k c)) w
      | Insert_Event t c v k \<Rightarrow> run_seg n vt code k (insert_event t c v w)
      | Sleep msec k \<Rightarrow> sleep msec k w
      | Exit k \<Rightarrow> run_seg n vt code k (exit_loop w)
      | Gettime k \<Rightarrow> bindS gettimeofday (\<lambda>t. run_seg n vt code (k t)) w
      | Current k \<Rightarrow> run_seg n vt code (k (w_current w)) w
      | Wait_Read fd k h \<Rightarrow>
          (if w_current w = None then run_seg n vt code (h Yield_From_Main) w
           else wait_for (vt_set_read vt) (vt_resumed vt ''wait_for_read'') fd k h w)
      | Wait_Write fd k h \<Rightarrow>
          (if w_current w = None then run_seg n vt code (h Yield_From_Main) w
           else wait_for (vt_set_write vt) (vt_resumed vt ''wait_for_write'') fd k h w))"

subsection \<open>Switching\<close>

text \<open>
  \<open>_wrap0\<close> and \<open>_wrap1\<close>: when the thread function has returned, or an exception has been caught
  at its bottom, the coroutine is marked dead and yields for the last time.
\<close>

definition wrap_end :: "cid \<Rightarrow> ('s, 'p) world \<Rightarrow> ('s, 'p) world" where
  "wrap_end c w = set_value c 0 (upd_coro c (\<lambda>co. co\<lparr>co_dead := True\<rparr>) w)"

text \<open>\<open>__swap\<close> to the coroutine \<open>c\<close>, up to its \<open>__swap\<close> back: what is on the stack runs.\<close>

definition swap_in :: "nat \<Rightarrow> ('s, 'p) vtable \<Rightarrow> ('s \<Rightarrow> 's action) \<Rightarrow> cid \<Rightarrow> (('s, 'p) world, unit) op" where
  "swap_in n vt code c w =
     (case w_stack w of
        None \<Rightarrow> (Raise (Undef Stale_Stack), w)
      | Some k \<Rightarrow>
          bindS (run_seg n vt code (k (co_value (w_coros w ! c)))) (\<lambda>r w'.
            case r of
              Suspended k' \<Rightarrow> (Val (), w'\<lparr>w_stack := Some k'\<rparr>)
            | Finished \<Rightarrow> (Val (), (wrap_end c w')\<lparr>w_stack := None\<rparr>)) w)"

definition resume :: "nat \<Rightarrow> ('s, 'p) vtable \<Rightarrow> ('s \<Rightarrow> 's action) \<Rightarrow> cid \<Rightarrow> pval \<Rightarrow> (('s, 'p) world, pval) op" where
  "resume n vt code c arg w =
     (if \<not> valid_cid w c then (Raise (Undef Wild_Pointer), w)
      else if is_dead w c then (Raise (Dead_Coro c), w)
      else
        let w1 = (if co_started (w_coros w ! c) then w else create c w);
            w2 = w1\<lparr>w_current := Some c\<rparr>;
            w3 = (if co_copy (w_coros w2 ! c) \<noteq> None then restore c w2 else w2);
            w4 = set_value c arg w3
        in bindS (swap_in n vt code c) (\<lambda>_ w'. (Val (w_main_value w'), w')) w4)"

subsection \<open>The scheduler\<close>

text \<open>The \<open>for\<close> loop of \<open>run_pending\<close> over \<open>_staging\<close>.\<close>

fun resume_all ::
    "nat \<Rightarrow> ('s, 'p) vtable \<Rightarrow> ('s \<Rightarrow> 's action) \<Rightarrow> pending_entry list \<Rightarrow> (('s, 'p) world, unit) op" where
  "resume_all n vt code [] = ret ()"
| "resume_all n vt code ((c, v) # es) =
     bindS (resume n vt code c v) (\<lambda>_.
       bindS (\<lambda>w. if \<not> is_dead w c then preserve c w else (Val (), w)) (\<lambda>_.
         resume_all n vt code es))"

definition swap_lists :: "('s, 'p) world \<Rightarrow> ('s, 'p) world" where
  "swap_lists w = w\<lparr>w_staging := w_pending w, w_pending := w_staging w\<rparr>"

definition clear_staging :: "('s, 'p) world \<Rightarrow> ('s, 'p) world" where
  "clear_staging w = w\<lparr>w_staging := []\<rparr>"

text \<open>The \<open>while\<close> loop of \<open>run_pending\<close>: \<open>r\<close> bounds the rounds, \<open>n\<close> the actions of a segment.\<close>

fun run_rounds ::
    "nat \<Rightarrow> nat \<Rightarrow> ('s, 'p) vtable \<Rightarrow> ('s \<Rightarrow> 's action) \<Rightarrow> (('s, 'p) world, unit) op" where
  "run_rounds 0 n vt code w = (Stuck, w)"
| "run_rounds (Suc r) n vt code w =
     (if w_pending w \<noteq> [] then
        let w1 = swap_lists w
        in bindS (resume_all n vt code (w_staging w1)) (\<lambda>_ w2.
             bindS schedule_events (\<lambda>_. run_rounds r n vt code) (clear_staging w2)) w1
      else (Val (), w))"

definition run_pending ::
    "nat \<Rightarrow> nat \<Rightarrow> ('s, 'p) vtable \<Rightarrow> ('s \<Rightarrow> 's action) \<Rightarrow> (('s, 'p) world, unit) op" where
  "run_pending r n vt code = bindS schedule_events (\<lambda>_. run_rounds r n vt code)"

fun event_loop ::
    "nat \<Rightarrow> nat \<Rightarrow> nat \<Rightarrow> ('s, 'p) vtable \<Rightarrow> ('s \<Rightarrow> 's action) \<Rightarrow> (('s, 'p) world, unit) op" where
  "event_loop 0 r n vt code w = (Stuck, w)"
| "event_loop (Suc l) r n vt code w =
     (if \<not> w_exit w then
        bindS (run_pending r n vt code) (\<lambda>_ w1.
          if \<not> w_exit w1 then
            bindS time_to_next_event (\<lambda>until. bindS (vt_poll vt until) (\<lambda>_.
              event_loop l r n vt code)) w1
          else (Val (), w1)) w
      else (Val (), w))"

end
