(* ===== verification/Coro_Steps.thy ===== *)
theory Coro_Steps
  imports Coro
begin

section \<open>What a running thread can change\<close>

text \<open>
  Between two switches a thread changes the scheduler only through the library.  \<open>lib_step\<close> is one
  such change, as a step relation, and \<open>run_seg_steps\<close> shows that every segment, however it ends, is
  a sequence of them.  What each step keeps (\<open>keeps\<close>) is then proved once per step and lifted to
  segments.
\<close>

lemma length_upd_coro [simp, frame_simps]: "length (w_coros (upd_coro c f w)) = length (w_coros w)"
  by (simp add: upd_coro_def)

lemma upd_coro_sel [simp, frame_simps]:
  "w_pending (upd_coro c f w) = w_pending w"
  "w_staging (upd_coro c f w) = w_staging w"
  "w_current (upd_coro c f w) = w_current w"
  "w_exit (upd_coro c f w) = w_exit w"
  "w_events (upd_coro c f w) = w_events w"
  "w_id_counter (upd_coro c f w) = w_id_counter w"
  "w_stack (upd_coro c f w) = w_stack w"
  "w_main_value (upd_coro c f w) = w_main_value w"
  "w_clock (upd_coro c f w) = w_clock w"
  "w_ticks (upd_coro c f w) = w_ticks w"
  "w_malloc (upd_coro c f w) = w_malloc w"
  "w_allocs (upd_coro c f w) = w_allocs w"
  "w_poller (upd_coro c f w) = w_poller w"
  by (simp_all add: upd_coro_def)

lemma nth_upd_coro:
  "i < length (w_coros w) \<Longrightarrow>
   w_coros (upd_coro c f w) ! i = (if i = c then f (w_coros w ! i) else w_coros w ! i)"
  by (simp add: upd_coro_def nth_list_update)

lemma valid_upd_coro [simp]: "valid_cid (upd_coro c f w) d = valid_cid w d"
  by (simp add: valid_cid_def)

inductive lib_step :: "('s, 'p) world \<Rightarrow> ('s, 'p) world \<Rightarrow> bool" where
  st_schedule: "valid_cid w c \<Longrightarrow> \<not> is_dead w c \<Longrightarrow>
     lib_step w (w\<lparr>w_pending := w_pending w @ [(c, v)]\<rparr>)"
| st_spawn: "lib_step w (snd (new_coro s w))"
| st_event: "lib_step w (insert_event t c v w)"
| st_tick: "lib_step w (w\<lparr>w_ticks := Suc (w_ticks w)\<rparr>)"
| st_exit: "lib_step w (exit_loop w)"
| st_value: "w_current w = Some c \<Longrightarrow> lib_step w (set_value c v w)"
| st_poller: "lib_step w (w\<lparr>w_poller := p\<rparr>)"

abbreviation lib_steps :: "('s, 'p) world \<Rightarrow> ('s, 'p) world \<Rightarrow> bool" where
  "lib_steps \<equiv> lib_step\<^sup>*\<^sup>*"

lemma lib_stepsI: "lib_step w w' \<Longrightarrow> lib_steps w' w'' \<Longrightarrow> lib_steps w w''"
  by (rule converse_rtranclp_into_rtranclp)

lemma schedule_steps: "schedule c v w = (r, w') \<Longrightarrow> lib_steps w w'"
  by (auto simp: schedule_def split: if_splits intro: st_schedule)

lemma yield_steps: "yield v k w = (r, w') \<Longrightarrow> lib_steps w w'"
  by (auto simp: yield_def bindS_def me_def split: option.splits intro: st_value)

lemma gettimeofday_steps: "gettimeofday w = (r, w') \<Longrightarrow> lib_steps w w'"
  by (auto simp: gettimeofday_def intro: st_tick)

lemma yield_current:
  "w_current w = Some c \<Longrightarrow> yield v k w = (Val (Suspended k), set_value c v w)"
  by (simp add: yield_def bindS_def me_def)

lemma sleep_steps:
  assumes "sleep msec k w = (r, w')"
  shows "lib_steps w w'"
proof (cases "w_current w")
  case None
  then show ?thesis using assms by (simp add: sleep_def bindS_def me_def)
next
  case (Some c)
  then have "yield 0 k (insert_event (timeradd (w_clock w (w_ticks w))
      (Timeval (msec sdiv 1000) ((msec smod 1000) * 1000))) c 0 (w\<lparr>w_ticks := Suc (w_ticks w)\<rparr>)) = (r, w')"
    using assms by (simp add: sleep_def bindS_def me_def gettimeofday_def Let_def)
  from yield_steps [OF this] show ?thesis
    by (rule lib_stepsI [OF st_tick lib_stepsI [OF st_event]])
qed

lemma wait_for_steps: "wait_for reg chk fd k h w = (r, w') \<Longrightarrow> lib_steps w w'"
  unfolding wait_for_def bindS_def me_def set_wait_def
  by (auto split: option.splits prod.splits outcome.splits
      dest!: yield_steps intro: st_poller lib_stepsI [OF st_poller])

lemma run_seg_steps: "run_seg n vt code s w = (r, w') \<Longrightarrow> lib_steps w w'"
proof (induction n arbitrary: s w)
  case 0
  then show ?case by simp
next
  case (Suc n)
  note IH = Suc.IH
  show ?case
  proof (cases "code s")
    case (Schedule c v k h)
    then show ?thesis using Suc.prems
      by (auto split: prod.splits outcome.splits dest!: schedule_steps IH intro: rtranclp_trans)
  next
    case (Spawn s' k)
    then show ?thesis using Suc.prems st_spawn [of w s']
      by (auto simp: bindS_def new_coro_def dest!: IH intro: lib_stepsI)
  next
    case (Gettime k)
    then show ?thesis using Suc.prems
      by (auto simp: bindS_def gettimeofday_def dest!: IH intro: lib_stepsI st_tick)
  qed (use Suc.prems in \<open>auto split: if_splits dest!: IH yield_steps sleep_steps wait_for_steps
        intro: lib_stepsI st_event st_exit\<close>)
qed

subsection \<open>Facts kept by every step\<close>

definition keeps :: "(('s, 'p) world \<Rightarrow> ('s, 'p) world \<Rightarrow> bool) \<Rightarrow> bool" where
  "keeps R \<longleftrightarrow> (\<forall>w. R w w) \<and> (\<forall>w w' w''. R w w' \<longrightarrow> lib_step w' w'' \<longrightarrow> R w w'')"

lemma keeps_steps:
  assumes "keeps R" "lib_steps w w'"
  shows "R w w'"
  using assms(2)
proof (induction rule: rtranclp_induct)
  case base
  then show ?case using assms(1) by (simp add: keeps_def)
next
  case (step y z)
  then show ?case using assms(1) by (auto simp: keeps_def)
qed

text \<open>Fields no running thread writes.\<close>

definition same_statics :: "('s, 'p) world \<Rightarrow> ('s, 'p) world \<Rightarrow> bool" where
  "same_statics w w' \<longleftrightarrow>
     w_staging w' = w_staging w \<and> w_current w' = w_current w \<and> w_stack w' = w_stack w \<and>
     w_main_value w' = w_main_value w \<and> w_clock w' = w_clock w \<and> w_malloc w' = w_malloc w \<and>
     w_allocs w' = w_allocs w"

lemma keeps_same_statics: "keeps same_statics"
  unfolding keeps_def same_statics_def
  by (auto elim!: lib_step.cases simp: new_coro_def insert_event_def exit_loop_def set_value_def)

text \<open>The pending list only grows, and at its end; so does the list of coroutines.\<close>

definition pending_grows :: "('s, 'p) world \<Rightarrow> ('s, 'p) world \<Rightarrow> bool" where
  "pending_grows w w' \<longleftrightarrow> (\<exists>es. w_pending w' = w_pending w @ es)"

lemma keeps_pending_grows: "keeps pending_grows"
  unfolding keeps_def pending_grows_def
  by (auto elim!: lib_step.cases simp: new_coro_def insert_event_def exit_loop_def set_value_def)

text \<open>
  A thread touches no coroutine object but its own, and of its own only \<open>_value\<close>.  The objects it
  creates are fresh.
\<close>

definition fresh_coro :: "'s coro \<Rightarrow> bool" where
  "fresh_coro co \<longleftrightarrow> \<not> co_started co \<and> \<not> co_dead co \<and> co_copy co = None"

definition no_value :: "'s coro \<Rightarrow> 's coro" where
  "no_value co = co\<lparr>co_value := 0\<rparr>"

lemma no_value_simps [simp]: "no_value (co\<lparr>co_value := v\<rparr>) = no_value co"
  by (simp add: no_value_def)

lemma no_value_eqD:
  assumes "no_value a = no_value b"
  shows "co_id a = co_id b" "co_start a = co_start b" "co_copy a = co_copy b"
    "co_started a = co_started b" "co_dead a = co_dead b"
proof -
  show "co_id a = co_id b" "co_start a = co_start b" "co_copy a = co_copy b"
    "co_started a = co_started b" "co_dead a = co_dead b"
    using assms by (cases a, cases b, simp add: no_value_def)+
qed

definition coros_kept :: "('s, 'p) world \<Rightarrow> ('s, 'p) world \<Rightarrow> bool" where
  "coros_kept w w' \<longleftrightarrow>
     w_current w' = w_current w \<and> length (w_coros w) \<le> length (w_coros w') \<and>
     (\<forall>i < length (w_coros w).
        (w_current w \<noteq> Some i \<longrightarrow> w_coros w' ! i = w_coros w ! i) \<and>
        no_value (w_coros w' ! i) = no_value (w_coros w ! i)) \<and>
     (\<forall>i. length (w_coros w) \<le> i \<longrightarrow> i < length (w_coros w') \<longrightarrow>
        fresh_coro (w_coros w' ! i))"

lemma keeps_coros_kept: "keeps coros_kept"
  unfolding keeps_def
proof (intro conjI allI impI)
  fix w :: "('s, 'p) world"
  show "coros_kept w w"
    unfolding coros_kept_def by auto
next
  fix w w' w'' :: "('s, 'p) world"
  assume R: "coros_kept w w'" and "lib_step w' w''"
  from this(2) show "coros_kept w w''"
  proof (cases rule: lib_step.cases)
    case (st_spawn s)
    then show ?thesis using R
      by (auto simp: coros_kept_def new_coro_def nth_append fresh_coro_def)
  next
    case (st_value c v)
    then show ?thesis using R
      unfolding coros_kept_def
      by (auto simp: set_value_def nth_upd_coro fresh_coro_def)
  qed (use R in \<open>simp_all add: coros_kept_def insert_event_def exit_loop_def\<close>)
qed

lemmas seg_statics = keeps_steps [OF keeps_same_statics run_seg_steps]
  and seg_pending = keeps_steps [OF keeps_pending_grows run_seg_steps]
  and seg_coros = keeps_steps [OF keeps_coros_kept run_seg_steps]

end
