(* ===== verification/Coro_Inv.thy ===== *)
theory Coro_Inv
  imports Coro_Steps
begin

section \<open>The invariant of the scheduler\<close>

text \<open>
  \<open>wf_world\<close> is what holds of the static state of \<open>class coro\<close> whenever the scheduler is not inside a
  coroutine: the events form a heap, every entry of the two lists points to a coroutine object, the
  ids are those the counter has handed out, and a coroutine that is alive has a saved stack exactly
  when it has been started.  Every operation keeps it.
\<close>

definition entries_ok :: "('s, 'p) world \<Rightarrow> bool" where
  "entries_ok w \<longleftrightarrow> list_all (\<lambda>e. fst e < length (w_coros w)) (w_pending w @ w_staging w)"

definition ids_ok :: "('s, 'p) world \<Rightarrow> bool" where
  "ids_ok w \<longleftrightarrow> w_id_counter w = int (length (w_coros w)) + 1 \<and>
     (\<forall>i < length (w_coros w). co_id (w_coros w ! i) = int i + 1)"

definition base_ok :: "('s, 'p) world \<Rightarrow> bool" where
  "base_ok w \<longleftrightarrow> is_heap (w_events w) \<and> entries_ok w \<and> ids_ok w"

definition idle_ok :: "'s coro \<Rightarrow> bool" where
  "idle_ok co \<longleftrightarrow> (\<not> co_dead co \<longrightarrow> (co_started co \<longleftrightarrow> co_copy co \<noteq> None))"

text \<open>All stacks are saved, but for the coroutine that runs, if any.\<close>

definition stacks_ok :: "cid option \<Rightarrow> ('s, 'p) world \<Rightarrow> bool" where
  "stacks_ok r w \<longleftrightarrow> (\<forall>i < length (w_coros w). r \<noteq> Some i \<longrightarrow> idle_ok (w_coros w ! i))"

definition wf_world :: "('s, 'p) world \<Rightarrow> bool" where
  "wf_world w \<longleftrightarrow> base_ok w \<and> stacks_ok None w"

lemma wf_init_world: "wf_world (init_world clock malloc p)"
  by (simp add: wf_world_def base_ok_def entries_ok_def ids_ok_def stacks_ok_def init_world_def)

lemma wf_worldD:
  assumes "wf_world w"
  shows "is_heap (w_events w)" "entries_ok w" "ids_ok w" "base_ok w" "stacks_ok r w"
    "valid_cid w c \<Longrightarrow> idle_ok (w_coros w ! c)"
  using assms by (auto simp: wf_world_def base_ok_def stacks_ok_def valid_cid_def)

subsection \<open>Steps of a thread\<close>

lemma base_ok_step: "lib_step w w' \<Longrightarrow> base_ok w \<Longrightarrow> base_ok w'"
  by (induction rule: lib_step.induct)
    (auto simp: base_ok_def entries_ok_def ids_ok_def valid_cid_def new_coro_def nth_append
      insert_event_def exit_loop_def set_value_def nth_upd_coro less_Suc_eq evq.inv_push
      elim!: list.pred_mono_strong)

lemma keeps_base: "keeps (\<lambda>w w'. base_ok w \<longrightarrow> base_ok w')"
  by (auto simp: keeps_def dest: base_ok_step)

lemma seg_base: "run_seg n vt code s w = (r, w') \<Longrightarrow> base_ok w \<Longrightarrow> base_ok w'"
  using keeps_steps [OF keeps_base run_seg_steps, of n vt code s w r w'] by blast

lemma stacks_ok_kept:
  assumes "coros_kept w w'" "stacks_ok (w_current w) w"
  shows "stacks_ok (w_current w') w'"
  unfolding stacks_ok_def
proof (intro allI impI)
  fix i assume i: "i < length (w_coros w')" "w_current w' \<noteq> Some i"
  show "idle_ok (w_coros w' ! i)"
  proof (cases "i < length (w_coros w)")
    case True
    then show ?thesis using assms i by (auto simp: coros_kept_def stacks_ok_def)
  next
    case False
    then have "fresh_coro (w_coros w' ! i)" using assms(1) i by (auto simp: coros_kept_def)
    then show ?thesis by (simp add: fresh_coro_def idle_ok_def)
  qed
qed

lemma schedule_wf: "wf_world w \<Longrightarrow> schedule c v w = (r, w') \<Longrightarrow> wf_world w'"
  by (auto simp: schedule_def wf_world_def base_ok_def entries_ok_def ids_ok_def stacks_ok_def
      valid_cid_def split: if_splits)

lemma schedule_due_wf: "schedule_due tv w = (r, w') \<Longrightarrow> wf_world w \<Longrightarrow> wf_world w'"
proof (induction tv w rule: schedule_due.induct)
  case (1 tv w)
  let ?e = "ev_top (w_events w)"
  let ?w = "w\<lparr>w_events := ev_pop (w_events w)\<rparr>"
  show ?case
  proof (cases "w_events w \<noteq> [] \<and> timercmp_less (ev_t ?e) tv")
    case False
    then show ?thesis using "1.prems" by (subst (asm) schedule_due.simps) (auto simp: Let_def split: if_splits)
  next
    case True
    then have wf: "wf_world ?w"
      using "1.prems"(2) evq.inv_pop [of "w_events w"]
      by (auto simp: wf_world_def base_ok_def entries_ok_def ids_ok_def stacks_ok_def valid_cid_def)
    have "bindS (schedule (ev_coro ?e) (ev_args ?e)) (\<lambda>_. schedule_due tv) ?w = (r, w')"
      using "1.prems"(1) True by (subst (asm) schedule_due.simps) (simp add: Let_def)
    then show ?thesis
      using "1.IH" [of ?e] True schedule_wf [OF wf] by (fastforce simp: bindS_def split: prod.splits outcome.splits)
  qed
qed

lemma schedule_events_wf: "schedule_events w = (r, w') \<Longrightarrow> wf_world w \<Longrightarrow> wf_world w'"
  by (auto simp: schedule_events_def bindS_def gettimeofday_def wf_world_def base_ok_def entries_ok_def
      ids_ok_def stacks_ok_def valid_cid_def dest!: schedule_due_wf)

subsection \<open>Switches\<close>

definition frames_of :: "'s coro \<Rightarrow> 's frames" where
  "frames_of co = (case co_copy co of Some k \<Rightarrow> k | None \<Rightarrow> (\<lambda>_. co_start co))"

definition enter :: "cid \<Rightarrow> pval \<Rightarrow> ('s, 'p) world \<Rightarrow> ('s, 'p) world" where
  "enter c v w =
     (upd_coro c (\<lambda>co. co\<lparr>co_started := True, co_copy := None, co_value := v\<rparr>) w)
       \<lparr>w_current := Some c, w_stack := Some (frames_of (w_coros w ! c))\<rparr>"

lemma copy_upd: "co_copy co = None \<Longrightarrow> co\<lparr>co_started := y, co_copy := None, co_value := v\<rparr> = co\<lparr>co_started := y, co_value := v\<rparr>"
  by (cases co) simp

lemma started_upd: "co_started co \<Longrightarrow> co\<lparr>co_started := True, co_copy := x, co_value := v\<rparr> = co\<lparr>co_copy := x, co_value := v\<rparr>"
  by (cases co) simp

text \<open>
  On a coroutine whose saved stack is where the invariant says, \<open>resume\<close> runs the frames of that
  coroutine: the saved ones, or the start of the thread function.
\<close>

lemma resume_alive:
  assumes "valid_cid w c" "\<not> is_dead w c" "idle_ok (w_coros w ! c)"
  shows "resume n vt code c v w =
    bindS (bindS (run_seg n vt code (frames_of (w_coros w ! c) v)) (\<lambda>r w'.
            case r of
              Suspended k' \<Rightarrow> (Val (), w'\<lparr>w_stack := Some k'\<rparr>)
            | Finished \<Rightarrow> (Val (), (wrap_end c w')\<lparr>w_stack := None\<rparr>)))
      (\<lambda>_ w'. (Val (w_main_value w'), w')) (enter c v w)"
proof -
  have c: "c < length (w_coros w)" and d: "\<not> co_dead (w_coros w ! c)"
    using assms by (auto simp: valid_cid_def is_dead_def)
  let ?w1 = "if co_started (w_coros w ! c) then w else create c w"
  let ?w2 = "?w1\<lparr>w_current := Some c\<rparr>"
  let ?w3 = "if co_copy (w_coros ?w2 ! c) \<noteq> None then restore c ?w2 else ?w2"
  have w4: "set_value c v ?w3 = enter c v w"
  proof (cases "co_started (w_coros w ! c)")
    case True
    then obtain k where "co_copy (w_coros w ! c) = Some k" using assms(3) d by (auto simp: idle_ok_def)
    with True c show ?thesis
      by (intro world.equality)
        (simp_all add: enter_def set_value_def restore_def upd_coro_def frames_of_def started_upd)
  next
    case False
    then have "co_copy (w_coros w ! c) = None" using assms(3) d by (auto simp: idle_ok_def)
    with False c show ?thesis
      by (intro world.equality)
        (simp_all add: enter_def set_value_def create_def upd_coro_def frames_of_def copy_upd)
  qed
  have "swap_in n vt code c (enter c v w) =
      bindS (run_seg n vt code (frames_of (w_coros w ! c) v)) (\<lambda>r w'.
            case r of
              Suspended k' \<Rightarrow> (Val (), w'\<lparr>w_stack := Some k'\<rparr>)
            | Finished \<Rightarrow> (Val (), (wrap_end c w')\<lparr>w_stack := None\<rparr>)) (enter c v w)"
    using c by (simp add: swap_in_def enter_def nth_upd_coro)
  then show ?thesis
    using assms(1,2) w4 by (simp add: resume_def Let_def bindS_def)
qed

lemma enter_ok:
  assumes "wf_world w" "valid_cid w c"
  shows "base_ok (enter c v w)" "stacks_ok (w_current (enter c v w)) (enter c v w)"
    "w_current (enter c v w) = Some c" "length (w_coros (enter c v w)) = length (w_coros w)"
  using assms
  by (auto simp: wf_world_def base_ok_def entries_ok_def ids_ok_def valid_cid_def enter_def
      nth_upd_coro stacks_ok_def)

text \<open>After a segment: every coroutine but the one that ran is in order, and that one is still as entered.\<close>

lemma seg_after:
  assumes "wf_world w" "valid_cid w c" "\<not> is_dead w c"
    and "run_seg n vt code s (enter c v w) = (r, w')"
  shows "base_ok w'" "stacks_ok (Some c) w'" "c < length (w_coros w')" "w_current w' = Some c"
    "\<not> co_dead (w_coros w' ! c)" "co_copy (w_coros w' ! c) = None" "co_started (w_coros w' ! c)"
    "w_staging w' = w_staging w" "w_malloc w' = w_malloc w" "w_allocs w' = w_allocs w"
    "w_main_value w' = w_main_value w"
proof -
  note e = enter_ok [OF assms(1,2), of v] and k = seg_coros [OF assms(4)]
  have st: "same_statics (enter c v w) w'" by (rule seg_statics [OF assms(4)])
  then show cur: "w_current w' = Some c" using e(3) by (simp add: same_statics_def)
  show "base_ok w'" using seg_base [OF assms(4) e(1)] .
  show "stacks_ok (Some c) w'" using stacks_ok_kept [OF k e(2)] cur by simp
  have c: "c < length (w_coros w)" using assms(2) by (simp add: valid_cid_def)
  then show "c < length (w_coros w')" using k e(4) by (simp add: coros_kept_def)
  have "no_value (w_coros w' ! c) = no_value (w_coros (enter c v w) ! c)"
    using k c e(4) by (simp add: coros_kept_def)
  from no_value_eqD [OF this] c assms(3)
  show "\<not> co_dead (w_coros w' ! c)" "co_copy (w_coros w' ! c) = None" "co_started (w_coros w' ! c)"
    by (simp_all add: enter_def nth_upd_coro is_dead_def)
  show "w_staging w' = w_staging w" "w_malloc w' = w_malloc w" "w_allocs w' = w_allocs w"
    "w_main_value w' = w_main_value w"
    using st by (simp_all add: same_statics_def enter_def)
qed

text \<open>One turn of the loop of \<open>run_pending\<close>: resume, and save the stack of what is still alive.\<close>

definition turn :: "nat \<Rightarrow> ('s, 'p) vtable \<Rightarrow> ('s \<Rightarrow> 's action) \<Rightarrow> cid \<Rightarrow> pval \<Rightarrow> (('s, 'p) world, unit) op" where
  "turn n vt code c v =
     bindS (resume n vt code c v) (\<lambda>_ w. if \<not> is_dead w c then preserve c w else (Val (), w))"

lemma resume_all_turn:
  "resume_all n vt code ((c, v) # es) = bindS (turn n vt code c v) (\<lambda>_. resume_all n vt code es)"
  by (rule ext) (auto simp: turn_def bindS_def split: prod.splits outcome.splits)

lemma turn_dead: "valid_cid w c \<Longrightarrow> is_dead w c \<Longrightarrow> turn n vt code c v w = (Raise (Dead_Coro c), w)"
  by (simp add: turn_def bindS_def resume_def)

definition suspend_as :: "cid \<Rightarrow> 's frames \<Rightarrow> ('s, 'p) world \<Rightarrow> ('s, 'p) world" where
  "suspend_as c k w =
     (upd_coro c (\<lambda>co. co\<lparr>co_copy := Some k\<rparr>) w)\<lparr>w_stack := Some k, w_allocs := Suc (w_allocs w)\<rparr>"

definition out_of_memory :: "cid \<Rightarrow> 's frames \<Rightarrow> ('s, 'p) world \<Rightarrow> ('s, 'p) world" where
  "out_of_memory c k w =
     (upd_coro c (\<lambda>co. co\<lparr>co_copy := None\<rparr>) w)\<lparr>w_stack := Some k, w_allocs := Suc (w_allocs w)\<rparr>"

lemma turn_alive:
  assumes wf: "wf_world w" and c: "valid_cid w c" "\<not> is_dead w c"
  shows "turn n vt code c v w =
    (case run_seg n vt code (frames_of (w_coros w ! c) v) (enter c v w) of
       (Val (Suspended k), w') \<Rightarrow>
         (if w_malloc w (w_allocs w) then (Val (), suspend_as c k w')
          else (Raise (Thrown ''unable to malloc stack copy''), out_of_memory c k w'))
     | (Val Finished, w') \<Rightarrow> (Val (), (wrap_end c w')\<lparr>w_stack := None\<rparr>)
     | (Raise e, w') \<Rightarrow> (Raise e, w')
     | (Stuck, w') \<Rightarrow> (Stuck, w'))"
proof -
  obtain r w' where seg: "run_seg n vt code (frames_of (w_coros w ! c) v) (enter c v w) = (r, w')"
    by (rule prod.exhaust)
  note a = seg_after [OF wf c seg]
  note res = resume_alive [OF c wf_worldD(6) [OF wf c(1)], of n vt code v]
  show ?thesis
  proof (cases r)
    case (Val x)
    then show ?thesis
      using seg a res
      by (cases x) (simp_all add: turn_def bindS_def is_dead_def preserve_def suspend_as_def
          out_of_memory_def upd_coro_def wrap_end_def set_value_def)
  qed (use seg res in \<open>simp_all add: turn_def bindS_def\<close>)
qed

lemma stacks_ok_suspend: "stacks_ok (Some c) w \<Longrightarrow> co_started (w_coros w ! c) \<Longrightarrow> stacks_ok None (suspend_as c k w)"
  by (auto simp: stacks_ok_def suspend_as_def nth_upd_coro idle_ok_def)

lemma stacks_ok_finish: "stacks_ok (Some c) w \<Longrightarrow> stacks_ok None ((wrap_end c w)\<lparr>w_stack := None\<rparr>)"
  by (auto simp: stacks_ok_def wrap_end_def set_value_def nth_upd_coro idle_ok_def)

lemma base_ok_upd:
  "base_ok w \<Longrightarrow> (\<And>co. co_id (f co) = co_id co) \<Longrightarrow> base_ok (upd_coro c f w)"
  by (auto simp: base_ok_def entries_ok_def ids_ok_def nth_upd_coro)

lemma base_ok_stack [simp]:
  "base_ok (w\<lparr>w_stack := x\<rparr>) = base_ok w"
  "base_ok (w\<lparr>w_allocs := n\<rparr>) = base_ok w"
  by (simp_all add: base_ok_def entries_ok_def ids_ok_def valid_cid_def)

lemma turn_wf:
  assumes wf: "wf_world w" and c: "valid_cid w c" and t: "turn n vt code c v w = (Val (), w')"
  shows "wf_world w' \<and> w_staging w' = w_staging w \<and> length (w_coros w) \<le> length (w_coros w')"
proof -
  have alive: "\<not> is_dead w c" using t turn_dead [OF c] by auto
  obtain r w1 where seg: "run_seg n vt code (frames_of (w_coros w ! c) v) (enter c v w) = (r, w1)"
    by (rule prod.exhaust)
  note a = seg_after [OF wf c alive seg]
  have len: "length (w_coros w) \<le> length (w_coros w1)"
    using seg_coros [OF seg] enter_ok(4) [OF wf c] by (simp add: coros_kept_def)
  show ?thesis
  proof (cases r)
    case (Val x)
    then show ?thesis
      using t seg a len turn_alive [OF wf c alive, of n vt code v]
        stacks_ok_suspend [OF a(2,7)] stacks_ok_finish [OF a(2)]
      by (cases x) (auto simp: wf_world_def suspend_as_def wrap_end_def set_value_def split: if_splits
          intro!: base_ok_upd)
  qed (use t seg turn_alive [OF wf c alive, of n vt code v] in auto)
qed

lemma resume_all_wf:
  assumes "wf_world w" "\<forall>e \<in> set es. valid_cid w (fst e)" "resume_all n vt code es w = (Val (), w')"
  shows "wf_world w' \<and> w_staging w' = w_staging w \<and> length (w_coros w) \<le> length (w_coros w')"
  using assms
proof (induction es arbitrary: w)
  case Nil
  then show ?case by simp
next
  case (Cons e es)
  obtain c v where e: "e = (c, v)" by (rule prod.exhaust)
  obtain w1 where t: "turn n vt code c v w = (Val (), w1)" and r: "resume_all n vt code es w1 = (Val (), w')"
    using Cons.prems(3) by (auto simp: e resume_all_turn bindS_iffs simp del: resume_all.simps)
  note t = turn_wf [OF Cons.prems(1) _ t]
  have "\<forall>e \<in> set es. valid_cid w1 (fst e)"
    using Cons.prems(2) t by (auto simp: valid_cid_def e dest: order.strict_trans2)
  then show ?case using Cons.IH [OF _ _ r] t Cons.prems(2) by (auto simp: e)
qed

lemma swap_lists_wf: "wf_world w \<Longrightarrow> wf_world (swap_lists w)"
  by (auto simp: wf_world_def base_ok_def entries_ok_def ids_ok_def stacks_ok_def valid_cid_def swap_lists_def)

lemma clear_staging_wf: "wf_world w \<Longrightarrow> wf_world (clear_staging w)"
  by (auto simp: wf_world_def base_ok_def entries_ok_def ids_ok_def stacks_ok_def valid_cid_def clear_staging_def)

lemma run_rounds_wf:
  "run_rounds r n vt code w = (Val (), w') \<Longrightarrow> wf_world w \<Longrightarrow> wf_world w' \<and> w_pending w' = []"
proof (induction r arbitrary: w)
  case 0
  then show ?case by simp
next
  case (Suc r)
  show ?case
  proof (cases "w_pending w = []")
    case True
    then show ?thesis using Suc.prems by simp
  next
    case False
    then obtain w2 w3 where
      a: "resume_all n vt code (w_staging (swap_lists w)) (swap_lists w) = (Val (), w2)"
      and b: "schedule_events (clear_staging w2) = (Val (), w3)"
      and r: "run_rounds r n vt code w3 = (Val (), w')"
      using Suc.prems(1) by (auto simp: Let_def bindS_iffs)
    have wf: "wf_world (swap_lists w)" using Suc.prems(2) by (rule swap_lists_wf)
    have "\<forall>e \<in> set (w_staging (swap_lists w)). valid_cid (swap_lists w) (fst e)"
      using wf_worldD(2) [OF wf] by (auto simp: entries_ok_def list_all_iff valid_cid_def)
    then have "wf_world w2" using resume_all_wf [OF wf _ a] by blast
    then show ?thesis using Suc.IH [OF r] schedule_events_wf [OF b clear_staging_wf] by blast
  qed
qed

lemma run_pending_wf:
  "run_pending r n vt code w = (Val (), w') \<Longrightarrow> wf_world w \<Longrightarrow> wf_world w' \<and> w_pending w' = []"
  by (auto simp: run_pending_def bindS_iffs dest: schedule_events_wf run_rounds_wf)

end
