(* ===== verification/Example.thy ===== *)
theory Example
  imports Coro_Inv
begin

section \<open>A small program\<close>

text \<open>
  Concrete inputs on which the properties are applied: the code of two threads, a clock that
  advances by one second with each call, and a world with their coroutines, both of them
  pending.  The first thread schedules itself, yields and returns; the second sleeps for 1.5 seconds and
  ends the event loop.
\<close>

definition ex_vt :: "(nat, unit) vtable" where
  "ex_vt = \<lparr>vt_set_read = (\<lambda>fd c. ret ()), vt_set_write = (\<lambda>fd c. ret ()),
    vt_resumed = (\<lambda>f v. None), vt_poll = (\<lambda>t. ret ())\<rparr>"

fun ex_code :: "nat \<Rightarrow> nat action" where
  "ex_code s =
     (if s = 0 then Schedule 0 5 1 (\<lambda>_. 9)
      else if s = 1 then Yield 7 (\<lambda>v. if v = 5 then 2 else 9)
      else if s = 2 then Finish
      else if s = 3 then Sleep 1500 (\<lambda>_. 4)
      else if s = 4 then Exit 2
      else Uncaught)"

definition ex_clock :: "nat \<Rightarrow> timeval" where
  "ex_clock n = Timeval (int n) 0"

definition ex_coro :: "int \<Rightarrow> nat \<Rightarrow> nat coro" where
  "ex_coro i s = \<lparr>co_id = i, co_value = 0, co_start = s, co_copy = None, co_started = False, co_dead = False\<rparr>"

definition ex_world :: "'p \<Rightarrow> (nat, 'p) world" where
  "ex_world p = (init_world ex_clock (\<lambda>_. True) p)
     \<lparr>w_coros := [ex_coro 1 0, ex_coro 2 3], w_id_counter := 3, w_pending := [(0, 0), (1, 0)]\<rparr>"

lemma ex_world_wf: "wf_world (ex_world p)"
  by (auto simp: wf_world_def base_ok_def entries_ok_def ids_ok_def stacks_ok_def idle_ok_def ex_world_def
      init_world_def ex_coro_def less_Suc_eq numeral_2_eq_2)

lemma ex_world_coros: "valid_cid (ex_world p) 0" "valid_cid (ex_world p) 1"
  "\<not> is_dead (ex_world p) 0" "\<not> is_dead (ex_world p) 1"
  by (simp_all add: valid_cid_def is_dead_def ex_world_def init_world_def ex_coro_def)

lemma ex_world_poller [simp]: "w_poller (ex_world p) = p" "w_pending (ex_world p) = [(0, 0), (1, 0)]"
  by (simp_all add: ex_world_def init_world_def)

end
