(* ===== verification/Coro_Own.thy ===== *)
theory Coro_Own
  imports Coro_Inv Example
begin

section \<open>The specification: a stack for every coroutine\<close>

text \<open>
  What the user of the library is promised: a blocking call returns "as if nothing happened", although
  all coroutines share one stack.  The specification gives every coroutine a stack of its own: here
  \<open>co_copy\<close> of a coroutine is its private stack, there is no shared stack, no allocation, no \<open>create\<close>,
  \<open>preserve\<close> or \<open>restore\<close>.  \<open>strip\<close> forgets the shared stack and the allocation count, and the
  scheduler that copies stacks refines the one that does not: each run of \<open>run_pending\<close> gives, under
  \<open>strip\<close>, the outcome and the state of the specification.
\<close>

definition strip :: "('s, 'p) world \<Rightarrow> ('s, 'p) world" where
  "strip w = w\<lparr>w_stack := None, w_allocs := 0\<rparr>"

definition strip_out :: "'a outcome \<times> ('s, 'p) world \<Rightarrow> 'a outcome \<times> ('s, 'p) world" where
  "strip_out r = (fst r, strip (snd r))"

definition enter_own :: "cid \<Rightarrow> pval \<Rightarrow> ('s, 'p) world \<Rightarrow> ('s, 'p) world" where
  "enter_own c v w =
     (upd_coro c (\<lambda>co. co\<lparr>co_started := True, co_copy := None, co_value := v\<rparr>) w)\<lparr>w_current := Some c\<rparr>"

definition turn_own :: "nat \<Rightarrow> ('s, 'p) vtable \<Rightarrow> ('s \<Rightarrow> 's action) \<Rightarrow> cid \<Rightarrow> pval \<Rightarrow> (('s, 'p) world, unit) op" where
  "turn_own n vt code c v w =
     (if \<not> valid_cid w c then (Raise (Undef Wild_Pointer), w)
      else if is_dead w c then (Raise (Dead_Coro c), w)
      else bindS (run_seg n vt code (frames_of (w_coros w ! c) v)) (\<lambda>r w'.
             case r of
               Suspended k \<Rightarrow> (Val (), upd_coro c (\<lambda>co. co\<lparr>co_copy := Some k\<rparr>) w')
             | Finished \<Rightarrow> (Val (), wrap_end c w')) (enter_own c v w))"

fun turns_own ::
    "nat \<Rightarrow> ('s, 'p) vtable \<Rightarrow> ('s \<Rightarrow> 's action) \<Rightarrow> pending_entry list \<Rightarrow> (('s, 'p) world, unit) op" where
  "turns_own n vt code [] = ret ()"
| "turns_own n vt code ((c, v) # es) = bindS (turn_own n vt code c v) (\<lambda>_. turns_own n vt code es)"

fun rounds_own ::
    "nat \<Rightarrow> nat \<Rightarrow> ('s, 'p) vtable \<Rightarrow> ('s \<Rightarrow> 's action) \<Rightarrow> (('s, 'p) world, unit) op" where
  "rounds_own 0 n vt code w = (Stuck, w)"
| "rounds_own (Suc r) n vt code w =
     (if w_pending w \<noteq> [] then
        let w1 = swap_lists w
        in bindS (turns_own n vt code (w_staging w1)) (\<lambda>_ w2.
             bindS schedule_events (\<lambda>_. rounds_own r n vt code) (clear_staging w2)) w1
      else (Val (), w))"

definition run_pending_own ::
    "nat \<Rightarrow> nat \<Rightarrow> ('s, 'p) vtable \<Rightarrow> ('s \<Rightarrow> 's action) \<Rightarrow> (('s, 'p) world, unit) op" where
  "run_pending_own r n vt code = bindS schedule_events (\<lambda>_. rounds_own r n vt code)"

subsection \<open>Operations that do not look at the shared stack\<close>

text \<open>\<open>blind m\<close>: the operation \<open>m\<close> gives the same outcome on the stripped state.\<close>

definition blind :: "(('s, 'p) world, 'a) op \<Rightarrow> bool" where
  "blind m \<longleftrightarrow> (\<forall>w. m (strip w) = strip_out (m w))"

lemma blindD: "blind m \<Longrightarrow> m (strip w) = strip_out (m w)"
  by (simp add: blind_def)

lemma blindI: "(\<And>w. m (strip w) = strip_out (m w)) \<Longrightarrow> blind m"
  by (simp add: blind_def)

lemma strip_sel [simp]:
  "w_coros (strip w) = w_coros w" "w_pending (strip w) = w_pending w" "w_staging (strip w) = w_staging w"
  "w_current (strip w) = w_current w" "w_exit (strip w) = w_exit w" "w_events (strip w) = w_events w"
  "w_id_counter (strip w) = w_id_counter w" "w_main_value (strip w) = w_main_value w"
  "w_clock (strip w) = w_clock w" "w_ticks (strip w) = w_ticks w" "w_poller (strip w) = w_poller w"
  "w_malloc (strip w) = w_malloc w"
  "valid_cid (strip w) c = valid_cid w c" "is_dead (strip w) c = is_dead w c"
  by (simp_all add: strip_def valid_cid_def is_dead_def)

lemma strip_upd [simp]:
  "upd_coro c f (strip w) = strip (upd_coro c f w)"
  "insert_event t c v (strip w) = strip (insert_event t c v w)"
  "exit_loop (strip w) = strip (exit_loop w)"
  "swap_lists (strip w) = strip (swap_lists w)"
  "clear_staging (strip w) = strip (clear_staging w)"
  "set_value c v (strip w) = strip (set_value c v w)"
  "wrap_end c (strip w) = strip (wrap_end c w)"
  "strip (w\<lparr>w_stack := x\<rparr>) = strip w"
  "strip (w\<lparr>w_allocs := m\<rparr>) = strip w"
  by (simp_all add: strip_def upd_coro_def insert_event_def exit_loop_def swap_lists_def clear_staging_def
      set_value_def wrap_end_def)

lemma strip_update_fields:
  "(strip w)\<lparr>w_pending := es\<rparr> = strip (w\<lparr>w_pending := es\<rparr>)"
  "(strip w)\<lparr>w_events := q\<rparr> = strip (w\<lparr>w_events := q\<rparr>)"
  "(strip w)\<lparr>w_ticks := m\<rparr> = strip (w\<lparr>w_ticks := m\<rparr>)"
  "(strip w)\<lparr>w_poller := p\<rparr> = strip (w\<lparr>w_poller := p\<rparr>)"
  "(strip w)\<lparr>w_coros := cs, w_id_counter := i\<rparr> = strip (w\<lparr>w_coros := cs, w_id_counter := i\<rparr>)"
  "(strip w)\<lparr>w_current := c\<rparr> = strip (w\<lparr>w_current := c\<rparr>)"
  by (simp_all add: strip_def)

lemma strip_out_simps [simp]: "strip_out (r, w) = (r, strip w)"
  by (simp add: strip_out_def)

lemma blind_bindS: "blind m \<Longrightarrow> (\<And>a. blind (f a)) \<Longrightarrow> blind (bindS m f)"
  by (auto simp: blind_def bindS_def strip_out_def split: prod.splits outcome.splits)

lemma blind_basic:
  "blind (new_coro s)" "blind (schedule c v)" "blind gettimeofday" "blind me" "blind (ret a)"
  "blind (set_wait reg fd c)"
  by (auto simp: blind_def new_coro_def schedule_def gettimeofday_def me_def set_wait_def strip_update_fields
      split: option.splits prod.splits)

lemma blind_yield: "blind (yield v k)"
  unfolding yield_def by (intro blind_bindS blind_basic) (simp add: blind_def)

lemma blind_sleep: "blind (sleep msec k)"
  unfolding sleep_def Let_def
  by (intro blind_bindS blind_basic) (simp add: blind_def blindD [OF blind_yield])

lemma blind_wait_for: "blind (wait_for reg chk fd k h)"
  unfolding wait_for_def by (intro blind_bindS blind_basic blind_yield)

lemma blind_schedule_due: "blind (schedule_due tv)"
proof (rule blindI)
  fix w
  show "schedule_due tv (strip w) = strip_out (schedule_due tv w)"
  proof (induction tv w rule: schedule_due.induct)
    case (1 tv w)
    let ?e = "ev_top (w_events w)"
    let ?w = "w\<lparr>w_events := ev_pop (w_events w)\<rparr>"
    have "bindS (schedule (ev_coro ?e) (ev_args ?e)) (\<lambda>_. schedule_due tv) (strip ?w)
        = strip_out (bindS (schedule (ev_coro ?e) (ev_args ?e)) (\<lambda>_. schedule_due tv) ?w)"
      if "w_events w \<noteq> []" "timercmp_less (ev_t ?e) tv"
      using "1.IH" [OF that(1) refl that(2)] blindD [OF blind_basic(2), of "ev_coro ?e" "ev_args ?e" ?w]
      by (auto simp: bindS_def split: prod.splits outcome.splits)
    then show ?case
      by (subst (1 2) schedule_due.simps) (simp add: Let_def strip_update_fields)
  qed
qed

lemma blind_schedule_events: "blind schedule_events"
  unfolding schedule_events_def by (intro blind_bindS blind_basic blind_schedule_due)

lemma blind_run_seg: "blind (run_seg n vt code s)"
proof (rule blindI)
  fix w
  show "run_seg n vt code s (strip w) = strip_out (run_seg n vt code s w)"
  proof (induction n arbitrary: s w)
    case 0
    then show ?case by simp
  next
    case (Suc n)
    have seg: "blind (run_seg n vt code s)" for s by (simp add: blind_def Suc.IH)
    show ?case
    proof (cases "code s")
      case (Schedule c v k h)
      then show ?thesis using blindD [OF blind_basic(2), of c v w] Suc.IH
        by (auto split: prod.splits outcome.splits)
    next
      case (Spawn s' k)
      then show ?thesis using blindD [OF blind_bindS [OF blind_basic(1) seg]] by simp
    next
      case (Gettime k)
      then show ?thesis using blindD [OF blind_bindS [OF blind_basic(3) seg]] by simp
    qed (simp_all add: Suc.IH blindD [OF blind_yield] blindD [OF blind_sleep] blindD [OF blind_wait_for])
  qed
qed

subsection \<open>The refinement\<close>

lemma strip_enter: "strip (enter c v w) = enter_own c v (strip w)"
  by (simp add: enter_def enter_own_def strip_def upd_coro_def)

lemma strip_suspend: "strip (suspend_as c k w) = upd_coro c (\<lambda>co. co\<lparr>co_copy := Some k\<rparr>) (strip w)"
  by (simp add: suspend_as_def)

lemma turn_refines:
  assumes wf: "wf_world w" and c: "valid_cid w c" and m: "w_malloc w (w_allocs w)"
  shows "strip_out (turn n vt code c v w) = turn_own n vt code c v (strip w)"
proof (cases "is_dead w c")
  case True
  then show ?thesis using c by (simp add: turn_dead turn_own_def)
next
  case False
  obtain r w' where seg: "run_seg n vt code (frames_of (w_coros w ! c) v) (enter c v w) = (r, w')"
    by (rule prod.exhaust)
  have own: "run_seg n vt code (frames_of (w_coros w ! c) v) (enter_own c v (strip w)) = (r, strip w')"
    using blindD [OF blind_run_seg, of n vt code _ "enter c v w"] seg by (simp add: strip_enter)
  show ?thesis
    using turn_alive [OF wf c False, of n vt code v] seg own c False m
    by (auto simp: turn_own_def bindS_def strip_suspend split: outcome.splits ending.splits)
qed

lemma turn_malloc:
  assumes "wf_world w" "valid_cid w c" "turn n vt code c v w = (Val (), w')"
  shows "w_malloc w' = w_malloc w"
proof -
  have alive: "\<not> is_dead w c" using assms(3) turn_dead [OF assms(2)] by auto
  obtain r w1 where seg: "run_seg n vt code (frames_of (w_coros w ! c) v) (enter c v w) = (r, w1)"
    by (rule prod.exhaust)
  show ?thesis
    using seg_after(9) [OF assms(1,2) alive seg] assms(3) seg
      turn_alive [OF assms(1,2) alive, of n vt code v]
    by (auto simp: suspend_as_def wrap_end_def set_value_def split: outcome.splits ending.splits if_splits)
qed

definition malloc_ok :: "('s, 'p) world \<Rightarrow> bool" where
  "malloc_ok w \<longleftrightarrow> w_malloc w = (\<lambda>_. True)"

lemma turns_refine:
  assumes "wf_world w" "\<forall>e \<in> set es. valid_cid w (fst e)" "malloc_ok w"
  shows "strip_out (resume_all n vt code es w) = turns_own n vt code es (strip w)
    \<and> (\<forall>w'. resume_all n vt code es w = (Val (), w') \<longrightarrow> malloc_ok w')"
  using assms
proof (induction es arbitrary: w)
  case Nil
  then show ?case by simp
next
  case (Cons e es)
  obtain c v where e: "e = (c, v)" by (rule prod.exhaust)
  have c: "valid_cid w c" using Cons.prems(2) by (simp add: e)
  have t: "turn_own n vt code c v (strip w) = strip_out (turn n vt code c v w)"
    using turn_refines [OF Cons.prems(1) c, of n vt code v] Cons.prems(3) by (simp add: malloc_ok_def)
  obtain r w1 where tw: "turn n vt code c v w = (r, w1)" by (rule prod.exhaust)
  show ?case
  proof (cases r)
    case (Val x)
    then have "turn n vt code c v w = (Val (), w1)" using tw by simp
    note w1 = turn_wf [OF Cons.prems(1) c this] and mal = turn_malloc [OF Cons.prems(1) c this]
    have "\<forall>e \<in> set es. valid_cid w1 (fst e)"
      using Cons.prems(2) w1 by (auto simp: valid_cid_def dest: order.strict_trans2)
    moreover have "malloc_ok w1" using mal Cons.prems(3) by (simp add: malloc_ok_def)
    ultimately show ?thesis using Cons.IH [of w1] w1 t tw Val
      by (simp add: e resume_all_turn bindS_def del: resume_all.simps)
  qed (use t tw in \<open>simp_all add: e resume_all_turn bindS_def del: resume_all.simps\<close>)
qed

lemma schedule_due_malloc: "schedule_due tv w = (r, w') \<Longrightarrow> w_malloc w' = w_malloc w"
proof (induction tv w rule: schedule_due.induct)
  case (1 tv w)
  show ?case
    using "1.prems" "1.IH" [OF _ refl]
    by (subst (asm) schedule_due.simps)
      (auto simp: Let_def bindS_def schedule_def split: if_splits prod.splits outcome.splits)
qed

lemma schedule_events_malloc: "schedule_events w = (r, w') \<Longrightarrow> w_malloc w' = w_malloc w"
  by (auto simp: schedule_events_def bindS_def gettimeofday_def dest: schedule_due_malloc)

lemma rounds_refine:
  "wf_world w \<Longrightarrow> malloc_ok w \<Longrightarrow>
   strip_out (run_rounds r n vt code w) = rounds_own r n vt code (strip w)"
proof (induction r arbitrary: w)
  case 0
  then show ?case by simp
next
  case (Suc r)
  show ?case
  proof (cases "w_pending w = []")
    case True
    then show ?thesis by simp
  next
    case False
    let ?w1 = "swap_lists w"
    have wf: "wf_world ?w1" using Suc.prems(1) by (rule swap_lists_wf)
    have val: "\<forall>e \<in> set (w_staging ?w1). valid_cid ?w1 (fst e)"
      using wf_worldD(2) [OF wf] by (auto simp: entries_ok_def list_all_iff valid_cid_def)
    have mal: "malloc_ok ?w1" using Suc.prems(2) by (simp add: swap_lists_def malloc_ok_def)
    obtain r2 w2 where a: "resume_all n vt code (w_staging ?w1) ?w1 = (r2, w2)" by (rule prod.exhaust)
    have ao: "turns_own n vt code (w_staging ?w1) (strip ?w1) = (r2, strip w2)"
      using turns_refine [OF wf val mal, of n vt code] a by simp
    obtain r3 w3 where b: "schedule_events (clear_staging w2) = (r3, w3)" by (rule prod.exhaust)
    have bo: "schedule_events (strip (clear_staging w2)) = (r3, strip w3)"
      using blindD [OF blind_schedule_events, of "clear_staging w2"] b by simp
    have IH: "strip_out (run_rounds r n vt code w3) = rounds_own r n vt code (strip w3)" if "r2 = Val ()"
    proof (rule Suc.IH)
      have "wf_world w2" using resume_all_wf [OF wf val] a that by blast
      then show "wf_world w3" using schedule_events_wf [OF b clear_staging_wf] by blast
      have "malloc_ok w2" using turns_refine [OF wf val mal, of n vt code] a that by simp
      then show "malloc_ok w3"
        using schedule_events_malloc [OF b] by (simp add: clear_staging_def malloc_ok_def)
    qed
    show ?thesis
    proof (cases r2)
      case (Val x)
      then show ?thesis using False a ao b bo IH by (cases r3) (simp_all add: Let_def bindS_def)
    qed (use False a ao in \<open>simp_all add: Let_def bindS_def\<close>)
  qed
qed

lemma run_pending_refine:
  assumes "wf_world w" "malloc_ok w"
  shows "strip_out (run_pending r n vt code w) = run_pending_own r n vt code (strip w)"
proof -
  obtain r1 w1 where s: "schedule_events w = (r1, w1)" by (rule prod.exhaust)
  have "malloc_ok w1" using schedule_events_malloc [OF s] assms(2) by (simp add: malloc_ok_def)
  then show ?thesis
    using blindD [OF blind_schedule_events, of w] schedule_events_wf [OF s assms(1)] s
      rounds_refine [of w1 r n vt code]
    by (cases r1) (simp_all add: run_pending_def run_pending_own_def bindS_def)
qed

end
