(* ===== verification/Coro_Props.thy ===== *)
theory Coro_Props
  imports Coro_Own
begin

section \<open>What the scheduler guarantees\<close>

text \<open>
  The correctness of \<open>class coro\<close>: the stack copying is invisible (refinement), the scheduler's
  invariant, the timed events, the rounds of \<open>run_pending\<close>, the isolation of threads, and the ends of
  \<open>event_loop\<close>; and the places where the code does something else than it means to.
\<close>

subsection \<open>Lemmas on events\<close>

definition event_entry :: "event \<Rightarrow> pending_entry" where
  "event_entry e = (ev_coro e, ev_args e)"

definition live_event :: "('s, 'p) world \<Rightarrow> event \<Rightarrow> bool" where
  "live_event w e \<longleftrightarrow> valid_cid w (ev_coro e) \<and> \<not> is_dead w (ev_coro e)"

lemma pop_while_events:
  "\<forall>e \<in> set (w_events w). live_event w e \<Longrightarrow>
   pop_while ev_top ev_pop (\<lambda>e. ev_t e < tv) (length (w_events w)) (w_events w) = (es, q) \<Longrightarrow>
   schedule_due tv w = (Val (), w\<lparr>w_events := q, w_pending := w_pending w @ map event_entry es\<rparr>)"
proof (induction "length (w_events w)" arbitrary: w es)
  case 0
  then show ?case by (subst schedule_due.simps) auto
next
  case (Suc m)
  let ?e = "ev_top (w_events w)"
  have ne: "w_events w \<noteq> []" using Suc.hyps(2) by auto
  show ?case
  proof (cases "ev_t ?e < tv")
    case False
    then have "es = []" "q = w_events w" using Suc.prems(2) by (simp_all flip: Suc.hyps(2))
    then show ?thesis using False by (subst schedule_due.simps) (simp add: timercmp_order Let_def)
  next
    case True
    let ?w = "w\<lparr>w_events := ev_pop (w_events w)\<rparr>"
    let ?w' = "?w\<lparr>w_pending := w_pending w @ [event_entry ?e]\<rparr>"
    obtain es1 where p: "pop_while ev_top ev_pop (\<lambda>e. ev_t e < tv) m (ev_pop (w_events w)) = (es1, q)"
      and es: "es = ?e # es1"
    proof -
      obtain es2 q2 where a: "pop_while ev_top ev_pop (\<lambda>e. ev_t e < tv) m (ev_pop (w_events w)) = (es2, q2)"
        by (rule prod.exhaust)
      with True have "pop_while ev_top ev_pop (\<lambda>e. ev_t e < tv) (Suc m) (w_events w) = (?e # es2, q2)" by simp
      then show ?thesis using that a Suc.prems(2) unfolding Suc.hyps(2) [symmetric] by simp
    qed
    have "?e \<in> set (w_events w)" using ne by (auto simp: ev_top_def)
    then have live: "live_event w ?e" using Suc.prems(1) by blast
    then have sch: "schedule (ev_coro ?e) (ev_args ?e) ?w = (Val (), ?w')"
      by (simp add: schedule_def live_event_def valid_cid_def is_dead_def event_entry_def)
    have len: "length (w_events w) - Suc 0 = m" using Suc.hyps(2) by linarith
    have "set (ev_pop (w_events w)) \<subseteq> set (w_events w)"
      by (metis mset_ev_pop [OF ne] diff_subset_eq_self set_mset_mono set_mset_mset)
    then have "\<forall>e \<in> set (w_events ?w'). live_event ?w' e"
      using Suc.prems(1) by (auto simp: live_event_def valid_cid_def is_dead_def)
    then have "schedule_due tv ?w' =
        (Val (), ?w'\<lparr>w_events := q, w_pending := w_pending ?w' @ map event_entry es1\<rparr>)"
      using Suc.hyps(1) [of ?w' es1] p len by simp
    then show ?thesis
      using ne True sch es by (subst schedule_due.simps) (simp add: timercmp_order Let_def bindS_def)
  qed
qed

lemma schedule_events_due:
  assumes "is_heap (w_events w)" "\<forall>e \<in> set (w_events w). live_event w e"
  shows "\<exists>es q. schedule_events w =
      (Val (), w\<lparr>w_ticks := Suc (w_ticks w), w_events := q, w_pending := w_pending w @ map event_entry es\<rparr>)
    \<and> sorted (map ev_t es) \<and> is_heap q
    \<and> mset es = filter_mset (\<lambda>e. ev_t e < w_clock w (w_ticks w)) (mset (w_events w))
    \<and> mset q = filter_mset (\<lambda>e. \<not> ev_t e < w_clock w (w_ticks w)) (mset (w_events w))"
proof -
  let ?now = "w_clock w (w_ticks w)"
  let ?w = "w\<lparr>w_ticks := Suc (w_ticks w)\<rparr>"
  obtain es q where p: "pop_while ev_top ev_pop (\<lambda>e. ev_t e < ?now) (length (w_events w)) (w_events w) = (es, q)"
    by (rule prod.exhaust)
  have "\<forall>e \<in> set (w_events ?w). live_event ?w e"
    using assms(2) by (simp add: live_event_def valid_cid_def is_dead_def)
  then have "schedule_due ?now ?w = (Val (), ?w\<lparr>w_events := q, w_pending := w_pending ?w @ map event_entry es\<rparr>)"
    using pop_while_events [of ?w ?now es q] p by simp
  then show ?thesis
    using evq.pop_while_due [OF assms(1) _ p]
    by (intro exI [of _ es] exI [of _ q]) (simp add: schedule_events_def bindS_def gettimeofday_def)
qed

text \<open>
  C9: \<open>schedule_events\<close> moves exactly the events whose time has passed to the end of the pending list,
  the earliest first, each with its argument, and keeps all others, provided that no event waits for a
  dead coroutine.
\<close>

theorem schedule_events_exact:
  assumes "is_heap (w_events w)" "\<forall>e \<in> set (w_events w). live_event w e"
  shows "\<exists>es q. schedule_events w =
      (Val (), w\<lparr>w_ticks := Suc (w_ticks w), w_events := q, w_pending := w_pending w @ map event_entry es\<rparr>)
    \<and> sorted (map ev_t es) \<and> is_heap q
    \<and> mset es = filter_mset (\<lambda>e. ev_t e < w_clock w (w_ticks w)) (mset (w_events w))
    \<and> mset q = filter_mset (\<lambda>e. \<not> ev_t e < w_clock w (w_ticks w)) (mset (w_events w))"
  using assms by (rule schedule_events_due)

theorem schedule_events_exact_witness:
  "let w = (ex_world ())\<lparr>w_ticks := 5, w_events := [\<lparr>ev_t = Timeval 4 0, ev_args = 1, ev_coro = 1\<rparr>,
      \<lparr>ev_t = Timeval 9 0, ev_args = 2, ev_coro = 0\<rparr>]\<rparr>
   in \<exists>es q. schedule_events w =
      (Val (), w\<lparr>w_ticks := Suc (w_ticks w), w_events := q, w_pending := w_pending w @ map event_entry es\<rparr>)
    \<and> mset es = {#\<lparr>ev_t = Timeval 4 0, ev_args = 1, ev_coro = 1\<rparr>#}"
proof -
  let ?w = "(ex_world ())\<lparr>w_ticks := 5, w_events := [\<lparr>ev_t = Timeval 4 0, ev_args = 1, ev_coro = 1\<rparr>,
      \<lparr>ev_t = Timeval 9 0, ev_args = 2, ev_coro = 0\<rparr>]\<rparr>"
  have h: "is_heap (w_events ?w)" by code_simp
  have l: "\<forall>e \<in> set (w_events ?w). live_event ?w e"
    by (simp add: live_event_def valid_cid_def is_dead_def ex_world_def ex_coro_def)
  have c: "w_clock ?w (w_ticks ?w) = Timeval 5 0" by (simp add: ex_world_def init_world_def ex_clock_def)
  have "Timeval 4 0 < Timeval 5 0" "\<not> Timeval 9 0 < Timeval 5 0" by (simp_all add: timercmp_less_def flip: timercmp_order)
  then show ?thesis using schedule_events_exact [OF h l] c by (auto simp: Let_def)
qed

subsection \<open>Sleeping and the poll timeout\<close>

lemma usecs_msec: "0 \<le> msec \<Longrightarrow> usecs (Timeval (msec sdiv 1000) ((msec smod 1000) * 1000)) = 1000 * msec"
proof -
  assume "0 \<le> msec"
  then have e: "msec sdiv 1000 = msec div 1000" "msec smod 1000 = msec mod 1000"
    by (auto simp: signed_divide_int_def signed_modulo_int_def sgn_if)
  have "msec div 1000 * 1000 + msec mod 1000 = msec" by simp
  then show ?thesis unfolding usecs_def e timeval.sel by linarith
qed

lemma tv_norm_msec: "0 \<le> msec \<Longrightarrow> tv_norm (Timeval (msec sdiv 1000) ((msec smod 1000) * 1000))"
  by (auto simp: tv_norm_def signed_modulo_int_def signed_divide_int_def sgn_if minus_div_mult_eq_mod)

lemma sleep_adds_event:
  assumes "w_current w = Some c" "tv_norm (w_clock w (w_ticks w))" "0 \<le> msec"
  shows "\<exists>w' t. sleep msec k w = (Val (Suspended k), w')
    \<and> usecs t = usecs (w_clock w (w_ticks w)) + 1000 * msec \<and> tv_norm t
    \<and> mset (w_events w') = add_mset \<lparr>ev_t = t, ev_args = 0, ev_coro = c\<rparr> (mset (w_events w))
    \<and> w_pending w' = w_pending w"
proof -
  let ?now = "w_clock w (w_ticks w)"
  let ?t = "timeradd ?now (Timeval (msec sdiv 1000) ((msec smod 1000) * 1000))"
  let ?w' = "set_value c 0 (insert_event ?t c 0 (w\<lparr>w_ticks := Suc (w_ticks w)\<rparr>))"
  have "sleep msec k w = (Val (Suspended k), ?w')"
    using assms(1)
    by (simp add: sleep_def bindS_def me_def gettimeofday_def Let_def yield_current insert_event_def)
  moreover have "usecs ?t = usecs ?now + 1000 * msec" "tv_norm ?t"
    using usecs_msec [OF assms(3)] tv_norm_timeradd [OF assms(2) tv_norm_msec [OF assms(3)]] by simp_all
  moreover have "mset (w_events ?w') = add_mset \<lparr>ev_t = ?t, ev_args = 0, ev_coro = c\<rparr> (mset (w_events w))"
    by (simp add: set_value_def insert_event_def mset_ev_push)
  moreover have "w_pending ?w' = w_pending w"
    by (simp add: set_value_def insert_event_def)
  ultimately show ?thesis by blast
qed

text \<open>
  C10: \<open>sleep (msec)\<close> suspends the calling coroutine and adds one event for it, at the time of the call
  plus \<open>msec\<close> milliseconds to the microsecond; nothing else is scheduled.
\<close>

theorem sleep_deadline:
  assumes "w_current w = Some c" "tv_norm (w_clock w (w_ticks w))" "0 \<le> msec"
  shows "\<exists>w' t. sleep msec k w = (Val (Suspended k), w')
    \<and> usecs t = usecs (w_clock w (w_ticks w)) + 1000 * msec \<and> tv_norm t
    \<and> mset (w_events w') = add_mset \<lparr>ev_t = t, ev_args = 0, ev_coro = c\<rparr> (mset (w_events w))
    \<and> w_pending w' = w_pending w"
  using assms by (rule sleep_adds_event)

theorem sleep_deadline_witness:
  "let w = (ex_world ())\<lparr>w_current := Some 1\<rparr> in
   \<exists>w' t. sleep 1500 (\<lambda>_. 4) w = (Val (Suspended (\<lambda>_. 4)), w') \<and> usecs t = 1500000
    \<and> mset (w_events w') = {#\<lparr>ev_t = t, ev_args = 0, ev_coro = 1\<rparr>#}"
  using sleep_deadline [of "(ex_world ())\<lparr>w_current := Some 1\<rparr>" 1 1500 "\<lambda>_. 4"]
  by (auto simp: Let_def ex_world_def init_world_def ex_clock_def tv_norm_def usecs_def)

text \<open>
  C34: the timeout for the poller is the time to the earliest event in microseconds, never more, and 0
  when that time has passed.  It is also 0 when the time left is a whole number of seconds: the test
  \<open>(t1.tv_sec >= 0) && (t1.tv_usec > 0)\<close> then fails although the event lies in the future, and
  the poller is called without waiting.
\<close>

theorem time_to_next_event_exact:
  assumes "w_events w \<noteq> []" "tv_norm (w_clock w (w_ticks w))" "tv_norm (ev_t (ev_top (w_events w)))"
  shows "time_to_next_event w =
    (let d = usecs (ev_t (ev_top (w_events w))) - usecs (w_clock w (w_ticks w))
     in Val (if d \<le> 0 \<or> d mod 1000000 = 0 then 0 else d), w\<lparr>w_ticks := Suc (w_ticks w)\<rparr>)"
proof -
  let ?t = "timersub (ev_t (ev_top (w_events w))) (w_clock w (w_ticks w))"
  have n: "0 \<le> tv_usec ?t" "tv_usec ?t < 1000000"
    using tv_norm_timersub [OF assms(3,2)] by (auto simp: tv_norm_def)
  have u: "tv_sec ?t * 1000000 + tv_usec ?t
      = usecs (ev_t (ev_top (w_events w))) - usecs (w_clock w (w_ticks w))"
    using usecs_timersub by (simp add: usecs_def)
  have "(tv_sec ?t \<ge> 0 \<and> tv_usec ?t > 0) \<longleftrightarrow>
      \<not> (tv_sec ?t * 1000000 + tv_usec ?t \<le> 0 \<or> (tv_sec ?t * 1000000 + tv_usec ?t) mod 1000000 = 0)"
    using n by (auto simp: mod_pos_pos_trivial)
  then show ?thesis
    using assms(1) by (simp add: time_to_next_event_def bindS_def gettimeofday_def Let_def u)
qed

theorem time_to_next_event_exact_witness:
  "let w = (ex_world ())\<lparr>w_events := [\<lparr>ev_t = Timeval 3 0, ev_args = 0, ev_coro = 1\<rparr>]\<rparr>;
       v = (ex_world ())\<lparr>w_events := [\<lparr>ev_t = Timeval 3 5, ev_args = 0, ev_coro = 1\<rparr>]\<rparr>
   in fst (time_to_next_event w) = Val 0 \<and> fst (time_to_next_event v) = Val 3000005"
  using time_to_next_event_exact [of "(ex_world ())\<lparr>w_events := [\<lparr>ev_t = Timeval 3 0, ev_args = 0, ev_coro = 1\<rparr>]\<rparr>"]
    time_to_next_event_exact [of "(ex_world ())\<lparr>w_events := [\<lparr>ev_t = Timeval 3 5, ev_args = 0, ev_coro = 1\<rparr>]\<rparr>"]
  by (simp add: Let_def ex_world_def init_world_def ex_clock_def tv_norm_def usecs_def ev_top_def)

subsection \<open>The stack of a coroutine\<close>

text \<open>
  C1: copying the one stack away and back is invisible.  From every state that satisfies the
  invariant, and if \<open>malloc\<close> does not fail, \<open>run_pending\<close> with its shared stack has the outcome and the
  final state (but for the shared stack itself) of the specification in which every coroutine owns a
  stack that no other coroutine can touch.
\<close>

theorem stack_copying_refines_own_stacks:
  assumes "wf_world w" "malloc_ok w"
  shows "fst (run_pending r n vt code w) = fst (run_pending_own r n vt code (strip w))
    \<and> strip (snd (run_pending r n vt code w)) = snd (run_pending_own r n vt code (strip w))"
  using run_pending_refine [OF assms, of r n vt code]
  by (metis strip_out_def fst_conv snd_conv)

theorem stack_copying_refines_own_stacks_witness:
  "strip (snd (run_pending 6 5 ex_vt ex_code (ex_world ())))
     = snd (run_pending_own 6 5 ex_vt ex_code (strip (ex_world ())))
   \<and> fst (run_pending 6 5 ex_vt ex_code (ex_world ())) = Val ()"
proof
  show "strip (snd (run_pending 6 5 ex_vt ex_code (ex_world ())))
     = snd (run_pending_own 6 5 ex_vt ex_code (strip (ex_world ())))"
    using stack_copying_refines_own_stacks [OF ex_world_wf, of "()" 6 5 ex_vt ex_code]
    by (simp add: malloc_ok_def ex_world_def init_world_def)
  show "fst (run_pending 6 5 ex_vt ex_code (ex_world ())) = Val ()" by code_simp
qed



lemma turn_keeps_others:
  assumes "wf_world w" "valid_cid w c" "valid_cid w d" "d \<noteq> c"
  shows "w_coros (snd (turn n vt code c v w)) ! d = w_coros w ! d
    \<and> (\<exists>es. w_pending (snd (turn n vt code c v w)) = w_pending w @ es)
    \<and> w_staging (snd (turn n vt code c v w)) = w_staging w"
proof (cases "is_dead w c")
  case True
  then show ?thesis using turn_dead [OF assms(2)] by simp
next
  case False
  obtain r w1 where seg: "run_seg n vt code (frames_of (w_coros w ! c) v) (enter c v w) = (r, w1)"
    by (rule prod.exhaust)
  note a = seg_after [OF assms(1,2) False seg]
  have d: "d < length (w_coros w)" using assms(3) by (simp add: valid_cid_def)
  have len: "length (w_coros w) \<le> length (w_coros w1)"
    using seg_coros [OF seg] enter_ok(4) [OF assms(1,2)] by (simp add: coros_kept_def)
  have "w_coros w1 ! d = w_coros (enter c v w) ! d"
    using seg_coros [OF seg] d assms(4) enter_ok(3,4) [OF assms(1,2)] by (auto simp: coros_kept_def)
  then have w1: "w_coros w1 ! d = w_coros w ! d" using d assms(4) by (simp add: enter_def nth_upd_coro)
  obtain es where es: "w_pending w1 = w_pending w @ es"
    using seg_pending [OF seg] by (auto simp: pending_grows_def enter_def)
  show ?thesis
    using turn_alive [OF assms(1,2) False, of n vt code v] seg w1 es a(8) d len assms(4)
    by (auto simp: suspend_as_def out_of_memory_def wrap_end_def set_value_def nth_upd_coro
        split: outcome.splits ending.splits)
qed

text \<open>
  C5: a turn of one coroutine, however it ends, leaves the object and the saved stack of every other
  coroutine as they were, and only appends to the pending list; an exception or a return of the thread
  function only marks its own coroutine dead.
\<close>

theorem turn_isolates:
  assumes "wf_world w" "valid_cid w c" "valid_cid w d" "d \<noteq> c"
  shows "w_coros (snd (turn n vt code c v w)) ! d = w_coros w ! d
    \<and> (\<exists>es. w_pending (snd (turn n vt code c v w)) = w_pending w @ es)
    \<and> w_staging (snd (turn n vt code c v w)) = w_staging w"
  using assms by (rule turn_keeps_others)

theorem turn_isolates_witness:
  "w_coros (snd (turn 5 ex_vt ex_code 0 0 (ex_world ()))) ! 1 = w_coros (ex_world ()) ! 1
   \<and> w_pending (snd (turn 5 ex_vt ex_code 0 0 (ex_world ()))) = [(0, 0), (1, 0), (0, 5)]"
proof
  show "w_coros (snd (turn 5 ex_vt ex_code 0 0 (ex_world ()))) ! 1 = w_coros (ex_world ()) ! 1"
    using turn_isolates [OF ex_world_wf ex_world_coros(1,2), of 5 ex_vt ex_code 0] by simp
  show "w_pending (snd (turn 5 ex_vt ex_code 0 0 (ex_world ()))) = [(0, 0), (1, 0), (0, 5)]" by code_simp
qed

subsection \<open>Rounds\<close>

text \<open>
  \<open>bounded code n s\<close>: from the point \<open>s\<close> the thread comes to a switch, an end or an exception within
  \<open>n\<close> actions, whatever the library answers.
\<close>

fun bounded :: "('s \<Rightarrow> 's action) \<Rightarrow> nat \<Rightarrow> 's \<Rightarrow> bool" where
  "bounded code 0 s = False"
| "bounded code (Suc n) s =
     (case code s of
        Schedule c v k h \<Rightarrow> bounded code n k \<and> (\<forall>e. bounded code n (h e))
      | Spawn s' k \<Rightarrow> (\<forall>c. bounded code n (k c))
      | Insert_Event t c v k \<Rightarrow> bounded code n k
      | Exit k \<Rightarrow> bounded code n k
      | Gettime k \<Rightarrow> (\<forall>t. bounded code n (k t))
      | Current k \<Rightarrow> (\<forall>c. bounded code n (k c))
      | Wait_Read fd k h \<Rightarrow> bounded code n (h Yield_From_Main)
      | Wait_Write fd k h \<Rightarrow> bounded code n (h Yield_From_Main)
      | _ \<Rightarrow> True)"

definition registers :: "('s, 'p) vtable \<Rightarrow> bool" where
  "registers vt \<longleftrightarrow>
     (\<forall>fd c p. fst (vt_set_read vt fd c p) = Val () \<and> fst (vt_set_write vt fd c p) = Val ())"

lemma wait_for_returns:
  "w_current w \<noteq> None \<Longrightarrow> (\<And>c p. fst (reg fd c p) = Val ()) \<Longrightarrow>
   \<exists>x w'. wait_for reg chk fd k h w = (Val x, w')"
  by (auto simp: wait_for_def bindS_def me_def set_wait_def yield_def split: prod.splits outcome.splits)
    (metis fst_conv outcome.distinct outcome.inject)+

lemma run_seg_returns:
  "bounded code n s \<Longrightarrow> registers vt \<Longrightarrow> w_current w \<noteq> None \<Longrightarrow>
   \<exists>x w'. run_seg n vt code s w = (Val x, w')"
proof (induction n arbitrary: s w)
  case 0
  then show ?case by simp
next
  case (Suc n)
  note IH = Suc.IH [OF _ Suc.prems(2)]
  show ?case
  proof (cases "code s")
    case (Schedule c v k h)
    then show ?thesis using Suc.prems(1,3)
      by (auto simp: schedule_def intro!: IH)
  next
    case (Spawn s' k)
    then show ?thesis using Suc.prems(1,3) by (auto simp: bindS_def new_coro_def intro!: IH)
  next
    case (Gettime k)
    then show ?thesis using Suc.prems(1,3) by (auto simp: bindS_def gettimeofday_def intro!: IH)
  next
    case (Sleep m k)
    then show ?thesis using Suc.prems(3)
      by (auto simp: sleep_def bindS_def me_def gettimeofday_def yield_def Let_def insert_event_def)
  next
    case (Wait_Read fd k h)
    then show ?thesis using Suc.prems(2,3) wait_for_returns [of w "vt_set_read vt"]
      by (auto simp: registers_def)
  next
    case (Wait_Write fd k h)
    then show ?thesis using Suc.prems(2,3) wait_for_returns [of w "vt_set_write vt"]
      by (auto simp: registers_def)
  qed (use Suc.prems(1,3) in \<open>auto simp: insert_event_def exit_loop_def yield_current intro!: IH\<close>)
qed

lemma turn_returns:
  assumes "wf_world w" "valid_cid w c" "\<not> is_dead w c" "malloc_ok w" "registers vt"
    and "\<And>s. bounded code n s"
  shows "\<exists>w'. turn n vt code c v w = (Val (), w')"
proof -
  obtain x w1 where "run_seg n vt code (frames_of (w_coros w ! c) v) (enter c v w) = (Val x, w1)"
    using run_seg_returns [OF assms(6,5), of "enter c v w"] enter_ok(3) [OF assms(1,2)] by fastforce
  then show ?thesis
    using turn_alive [OF assms(1-3), of n vt code v] assms(4)
    by (cases x) (auto simp: malloc_ok_def)
qed

text \<open>
  C7: a round of \<open>run_pending\<close> in which every coroutine has one entry and is alive at the start
  runs to its end: no \<open>Dead_Coro\<close> is thrown, nothing is dropped from the pending list, and the
  invariant holds.  Threads come to a switch within \<open>n\<close> actions, so the fuel \<open>n\<close> is enough.
\<close>

theorem round_completes:
  assumes "wf_world w" "malloc_ok w" "registers vt" "\<And>s. bounded code n s"
    and "distinct (map fst es)" "\<forall>e \<in> set es. valid_cid w (fst e) \<and> \<not> is_dead w (fst e)"
  shows "\<exists>w' new. resume_all n vt code es w = (Val (), w') \<and> w_pending w' = w_pending w @ new
    \<and> w_staging w' = w_staging w \<and> wf_world w'"
  using assms(1,2,5,6)
proof (induction es arbitrary: w)
  case Nil
  then show ?case by simp
next
  case (Cons e es)
  obtain c v where e: "e = (c, v)" by (rule prod.exhaust)
  have c: "valid_cid w c" "\<not> is_dead w c" using Cons.prems(4) by (simp_all add: e)
  obtain w1 where t: "turn n vt code c v w = (Val (), w1)"
    using turn_returns [OF Cons.prems(1) c Cons.prems(2) assms(3,4)] by blast
  note w1 = turn_wf [OF Cons.prems(1) c(1) t]
  have mal: "malloc_ok w1" using turn_malloc [OF Cons.prems(1) c(1) t] Cons.prems(2) by (simp add: malloc_ok_def)
  have val: "valid_cid w1 d" if "valid_cid w d" for d using that w1 by (simp add: valid_cid_def)
  have rest: "\<forall>e \<in> set es. valid_cid w1 (fst e) \<and> \<not> is_dead w1 (fst e)"
  proof
    fix e' assume e': "e' \<in> set es"
    then have d: "valid_cid w (fst e')" "\<not> is_dead w (fst e')" "fst e' \<noteq> c"
      using Cons.prems(3,4) by (auto simp: e)
    have "w_coros w1 ! fst e' = w_coros w ! fst e'"
      using turn_keeps_others [OF Cons.prems(1) c(1) d(1,3), of n vt code v] t by simp
    then show "valid_cid w1 (fst e') \<and> \<not> is_dead w1 (fst e')" using val d by (simp add: is_dead_def)
  qed
  obtain new where new: "w_pending w1 = w_pending w @ new"
  proof -
    obtain r w2 where seg: "run_seg n vt code (frames_of (w_coros w ! c) v) (enter c v w) = (r, w2)"
      by (rule prod.exhaust)
    obtain x where "w_pending w2 = w_pending w @ x"
      using seg_pending [OF seg] by (auto simp: pending_grows_def enter_def)
    then show ?thesis
      using that turn_alive [OF Cons.prems(1) c, of n vt code v] seg t
      by (auto simp: suspend_as_def wrap_end_def set_value_def split: outcome.splits ending.splits if_splits)
  qed
  obtain w' new' where r: "resume_all n vt code es w1 = (Val (), w')" "w_pending w' = w_pending w1 @ new'"
    "w_staging w' = w_staging w1" "wf_world w'"
    using Cons.IH [OF _ mal _ rest] w1 Cons.prems(3) by (auto simp: e)
  then show ?case
    using t w1 new by (simp add: e resume_all_turn bindS_def del: resume_all.simps)
qed

theorem round_completes_witness:
  "fst (resume_all 3 ex_vt ex_code [(0, 0), (1, 0)] (ex_world ())) = Val ()"
proof -
  have b: "bounded ex_code 3 s" for s by (simp add: numeral_3_eq_3)
  have r: "registers ex_vt" by (simp add: registers_def ex_vt_def)
  have m: "malloc_ok (ex_world ())" by (simp add: malloc_ok_def ex_world_def init_world_def)
  have e: "\<forall>e \<in> set [(0, 0), (1, 0)]. valid_cid (ex_world ()) (fst e) \<and> \<not> is_dead (ex_world ()) (fst e)"
    by (simp add: ex_world_coros ex_world_coros [unfolded One_nat_def])
  have d: "distinct (map fst [(0 :: nat, 0 :: pval), (1, 0)])" by simp
  show ?thesis using round_completes [OF ex_world_wf m r b d e] by auto
qed

text \<open>
  the code does not guard against a coroutine that is scheduled twice.  If its first turn
  ends the thread, \<open>schedule\<close> has accepted the second entry, and resuming it throws \<open>Dead_Coro\<close> out
  of the loop of \<open>run_pending\<close>: the entries after it are not resumed, and \<open>_staging\<close> is left as it was.
\<close>

theorem scheduled_twice_dies:
  assumes "wf_world w" "valid_cid w c" "\<not> is_dead w c"
    and "n > 0" "code (frames_of (w_coros w ! c) v) = Finish"
  shows "\<exists>w'. resume_all n vt code ((c, v) # (c, v') # es) w = (Raise (Dead_Coro c), w')
    \<and> w_staging w' = w_staging w \<and> w_pending w' = w_pending w"
proof -
  obtain m where m: "n = Suc m" using assms(4) by (cases n) auto
  have seg: "run_seg n vt code (frames_of (w_coros w ! c) v) (enter c v w) = (Val Finished, enter c v w)"
    using assms(5) m by simp
  let ?w = "(wrap_end c (enter c v w))\<lparr>w_stack := None\<rparr>"
  have t: "turn n vt code c v w = (Val (), ?w)"
    using turn_alive [OF assms(1-3), of n vt code v] seg by simp
  have "valid_cid ?w c" "is_dead ?w c"
    using assms(2) by (auto simp: valid_cid_def is_dead_def wrap_end_def set_value_def enter_def nth_upd_coro)
  then have "resume_all n vt code ((c, v) # (c, v') # es) w = (Raise (Dead_Coro c), ?w)"
    by (simp add: resume_all_turn bindS_def t turn_dead del: resume_all.simps)
  moreover have "w_staging ?w = w_staging w" "w_pending ?w = w_pending w"
    by (simp_all add: wrap_end_def set_value_def enter_def)
  ultimately show ?thesis by blast
qed

theorem scheduled_twice_dies_witness:
  "fst (resume_all 1 ex_vt (\<lambda>_. Finish) [(0, 0), (0, 0), (1, 0)] (ex_world ())) = Raise (Dead_Coro 0)"
  using scheduled_twice_dies [OF ex_world_wf ex_world_coros(1,3), where n = 1 and code = "\<lambda>_. Finish"
      and v = 0 and v' = 0 and es = "[(1, 0)]" and vt = ex_vt] by force

end
