(* ===== verification/Event_Loop.thy ===== *)
theory Event_Loop
  imports Coro_Props
begin

section \<open>The event loop and the poller it calls\<close>

text \<open>
  \<open>event_loop\<close> runs what is pending and then lets a poller wait.  What it needs of \<open>poll\<close> is the locale
  \<open>poller\<close>: \<open>poll\<close> only appends entries of living coroutines to the pending list and changes the state
  of the poller, whatever the kernel answers, and it does not look at the coroutine stack.  The three
  back ends are interpretations of it.  The second part shows that the fuel of the model only bounds
  it: a run that ends is not changed by more fuel.
\<close>

fun event_loop_own ::
    "nat \<Rightarrow> nat \<Rightarrow> nat \<Rightarrow> ('s, 'p) vtable \<Rightarrow> ('s \<Rightarrow> 's action) \<Rightarrow> (('s, 'p) world, unit) op" where
  "event_loop_own 0 r n vt code w = (Stuck, w)"
| "event_loop_own (Suc l) r n vt code w =
     (if \<not> w_exit w then
        bindS (run_pending_own r n vt code) (\<lambda>_ w1.
          if \<not> w_exit w1 then
            bindS time_to_next_event (\<lambda>until. bindS (vt_poll vt until) (\<lambda>_.
              event_loop_own l r n vt code)) w1
          else (Val (), w1)) w
      else (Val (), w))"

definition only_schedules :: "('s, 'p) world \<Rightarrow> ('s, 'p) world \<Rightarrow> bool" where
  "only_schedules w w' \<longleftrightarrow>
     (\<exists>es p. w' = w\<lparr>w_pending := w_pending w @ es, w_poller := p\<rparr> \<and>
       (\<forall>e \<in> set es. valid_cid w (fst e) \<and> \<not> is_dead w (fst e)))"

lemma only_schedules_wf:
  assumes "only_schedules w w'" "wf_world w"
  shows "wf_world w'"
proof -
  obtain es p where w': "w' = w\<lparr>w_pending := w_pending w @ es, w_poller := p\<rparr>"
    and "\<forall>e \<in> set es. valid_cid w (fst e) \<and> \<not> is_dead w (fst e)"
    using assms(1) by (auto simp: only_schedules_def)
  then have "list_all (\<lambda>e. fst e < length (w_coros w)) es" by (simp add: list_all_iff valid_cid_def)
  then show ?thesis
    using assms(2) by (simp add: w' wf_world_def base_ok_def entries_ok_def ids_ok_def stacks_ok_def)
qed

lemma only_schedules_refl: "only_schedules w w"
  unfolding only_schedules_def by (intro exI [of _ "[]"] exI [of _ "w_poller w"]) simp

lemma only_schedules_poller: "only_schedules (w\<lparr>w_poller := p\<rparr>) w' \<Longrightarrow> only_schedules w w'"
  by (auto simp: only_schedules_def valid_cid_def is_dead_def)

lemma only_schedules_set_poller: "only_schedules w (w\<lparr>w_poller := p\<rparr>)"
  unfolding only_schedules_def by (intro exI [of _ "[]"] exI [of _ p]) simp

lemma only_schedules_trans:
  assumes "only_schedules w w1" "only_schedules w1 w2"
  shows "only_schedules w w2"
proof -
  obtain es p where 1: "w1 = w\<lparr>w_pending := w_pending w @ es, w_poller := p\<rparr>"
    "\<forall>e \<in> set es. valid_cid w (fst e) \<and> \<not> is_dead w (fst e)"
    using assms(1) by (auto simp: only_schedules_def)
  obtain fs q where 2: "w2 = w1\<lparr>w_pending := w_pending w1 @ fs, w_poller := q\<rparr>"
    "\<forall>e \<in> set fs. valid_cid w1 (fst e) \<and> \<not> is_dead w1 (fst e)"
    using assms(2) by (auto simp: only_schedules_def)
  have "w2 = w\<lparr>w_pending := w_pending w @ (es @ fs), w_poller := q\<rparr>" using 1(1) 2(1) by simp
  moreover have "\<forall>e \<in> set (es @ fs). valid_cid w (fst e) \<and> \<not> is_dead w (fst e)"
    using 1 2(2) by (auto simp: valid_cid_def is_dead_def)
  ultimately show ?thesis unfolding only_schedules_def by blast
qed

lemma only_schedules_schedule: "schedule c v w = (r, w') \<Longrightarrow> only_schedules w w'"
proof (cases "valid_cid w c \<and> \<not> is_dead w c")
  case True
  assume "schedule c v w = (r, w')"
  with True have "w' = w\<lparr>w_pending := w_pending w @ [(c, v)], w_poller := w_poller w\<rparr>"
    by (auto simp: schedule_def intro: world.equality)
  with True show ?thesis unfolding only_schedules_def by fastforce
qed (auto simp: schedule_def only_schedules_refl split: if_splits)

lemma time_to_next_event_wf: "time_to_next_event w = (r, w') \<Longrightarrow> wf_world w \<Longrightarrow> wf_world w'"
  by (auto simp: time_to_next_event_def bindS_def gettimeofday_def Let_def wf_world_def base_ok_def
      entries_ok_def ids_ok_def stacks_ok_def split: if_splits)

lemma time_to_next_event_malloc: "time_to_next_event w = (r, w') \<Longrightarrow> w_malloc w' = w_malloc w"
  by (auto simp: time_to_next_event_def bindS_def gettimeofday_def Let_def split: if_splits)

lemma blind_time_to_next_event: "blind time_to_next_event"
  by (auto simp: blind_def time_to_next_event_def bindS_def gettimeofday_def Let_def strip_update_fields)

lemma run_pending_malloc:
  assumes "wf_world w" "malloc_ok w" "run_pending r n vt code w = (Val (), w')"
  shows "malloc_ok w'"
proof -
  have rounds: "malloc_ok w'" if "run_rounds r n vt code w = (Val (), w')" "wf_world w" "malloc_ok w" for w
    using that
  proof (induction r arbitrary: w)
    case 0
    then show ?case by simp
  next
    case (Suc r)
    show ?case
    proof (cases "w_pending w = []")
      case True
      then show ?thesis using Suc.prems by simp
    next
      case False
      then obtain w2 w3 where
        a: "resume_all n vt code (w_staging (swap_lists w)) (swap_lists w) = (Val (), w2)"
        and b: "schedule_events (clear_staging w2) = (Val (), w3)"
        and r: "run_rounds r n vt code w3 = (Val (), w')"
        using Suc.prems(1) by (auto simp: Let_def bindS_iffs)
      have wf: "wf_world (swap_lists w)" using Suc.prems(2) by (rule swap_lists_wf)
      have val: "\<forall>e \<in> set (w_staging (swap_lists w)). valid_cid (swap_lists w) (fst e)"
        using wf_worldD(2) [OF wf] by (auto simp: entries_ok_def list_all_iff valid_cid_def)
      have "malloc_ok (swap_lists w)" using Suc.prems(3) by (simp add: malloc_ok_def swap_lists_def)
      from turns_refine [OF wf val this] a have "malloc_ok w2" by blast
      then have "malloc_ok w3"
        using schedule_events_malloc [OF b] by (simp add: clear_staging_def malloc_ok_def)
      moreover have "wf_world w3"
        using resume_all_wf [OF wf val a] schedule_events_wf [OF b clear_staging_wf] by blast
      ultimately show ?thesis using Suc.IH [OF r] by blast
    qed
  qed
  obtain w1 where s: "schedule_events w = (Val (), w1)" and r: "run_rounds r n vt code w1 = (Val (), w')"
    using assms(3) by (auto simp: run_pending_def bindS_iffs)
  show ?thesis
    using rounds [OF r] schedule_events_wf [OF s assms(1)] schedule_events_malloc [OF s] assms(2)
    by (simp add: malloc_ok_def)
qed

locale poller =
  fixes vt :: "('s, 'p) vtable"
  assumes poll_only_schedules: "vt_poll vt t w = (x, w') \<Longrightarrow> only_schedules w w'"
    and poll_blind: "blind (vt_poll vt t)"
begin

lemma event_loop_keeps:
  "event_loop l r n vt code w = (Val (), w') \<Longrightarrow> wf_world w \<Longrightarrow> wf_world w' \<and> w_exit w'"
proof (induction l arbitrary: w)
  case 0
  then show ?case by simp
next
  case (Suc l)
  show ?case
  proof (cases "w_exit w")
    case True
    then show ?thesis using Suc.prems by simp
  next
    case False
    then obtain w1 where p: "run_pending r n vt code w = (Val (), w1)"
      and rest: "w_exit w1 \<and> w' = w1 \<or>
        (\<exists>t w2 w3. time_to_next_event w1 = (Val t, w2) \<and> vt_poll vt t w2 = (Val (), w3)
          \<and> event_loop l r n vt code w3 = (Val (), w'))"
      using Suc.prems(1) by (auto simp: bindS_iffs split: if_splits)
    have wf: "wf_world w1" using run_pending_wf [OF p Suc.prems(2)] by simp
    from rest show ?thesis
    proof (elim disjE exE conjE)
      fix t w2 w3
      assume t: "time_to_next_event w1 = (Val t, w2)" and q: "vt_poll vt t w2 = (Val (), w3)"
        and l: "event_loop l r n vt code w3 = (Val (), w')"
      have "wf_world w3"
        using only_schedules_wf [OF poll_only_schedules [OF q]] time_to_next_event_wf [OF t wf] by blast
      then show ?thesis by (rule Suc.IH [OF l])
    qed (use wf in simp)
  qed
qed

lemma event_loop_refines:
  "wf_world w \<Longrightarrow> malloc_ok w \<Longrightarrow>
   strip_out (event_loop l r n vt code w) = event_loop_own l r n vt code (strip w)"
proof (induction l arbitrary: w)
  case 0
  then show ?case by simp
next
  case (Suc l)
  obtain r1 w1 where p: "run_pending r n vt code w = (r1, w1)" by (rule prod.exhaust)
  have po: "run_pending_own r n vt code (strip w) = (r1, strip w1)"
    using run_pending_refine [OF Suc.prems, of r n vt code] p by simp
  show ?case
  proof (cases "w_exit w \<or> r1 \<noteq> Val () \<or> w_exit w1")
    case True
    then show ?thesis using p po by (cases r1) (auto simp: bindS_def)
  next
    case False
    then have p': "run_pending r n vt code w = (Val (), w1)" using p by simp
    have wf: "wf_world w1" using run_pending_wf [OF p' Suc.prems(1)] by simp
    obtain r2 w2 where t: "time_to_next_event w1 = (r2, w2)" by (rule prod.exhaust)
    have to: "time_to_next_event (strip w1) = (r2, strip w2)"
      using blindD [OF blind_time_to_next_event, of w1] t by simp
    show ?thesis
    proof (cases r2)
      case (Val u)
      obtain r3 w3 where q: "vt_poll vt u w2 = (r3, w3)" by (rule prod.exhaust)
      have qo: "vt_poll vt u (strip w2) = (r3, strip w3)"
        using blindD [OF poll_blind, of u w2] q by simp
      have sch: "only_schedules w2 w3" using poll_only_schedules [OF q] .
      have "malloc_ok w3"
        using sch time_to_next_event_malloc [OF t] run_pending_malloc [OF Suc.prems p']
        by (auto simp: only_schedules_def malloc_ok_def)
      then have "strip_out (event_loop l r n vt code w3) = event_loop_own l r n vt code (strip w3)"
        using Suc.IH only_schedules_wf [OF sch] time_to_next_event_wf [OF t wf] by blast
      then show ?thesis using False p po t to q qo Val by (cases r3) (simp_all add: bindS_def)
    qed (use False p po t to in \<open>simp_all add: bindS_def\<close>)
  qed
qed

end

subsection \<open>More fuel changes nothing\<close>

lemma bindS_mono:
  assumes "bindS m f w = (x, w')" "x \<noteq> Stuck"
    and "\<And>y w1. m w = (y, w1) \<Longrightarrow> y \<noteq> Stuck \<Longrightarrow> m' w = (y, w1)"
    and "\<And>a w1. m w = (Val a, w1) \<Longrightarrow> f a w1 = (x, w') \<Longrightarrow> f' a w1 = (x, w')"
  shows "bindS m' f' w = (x, w')"
proof -
  obtain y w1 where m: "m w = (y, w1)" by (rule prod.exhaust)
  show ?thesis
  proof (cases y)
    case (Val a)
    then show ?thesis using assms m by (simp add: bindS_def)
  qed (use assms m in \<open>auto simp: bindS_def\<close>)
qed

lemma run_seg_mono:
  "run_seg n vt code s w = (x, w') \<Longrightarrow> x \<noteq> Stuck \<Longrightarrow> n \<le> n' \<Longrightarrow> run_seg n' vt code s w = (x, w')"
proof (induction n arbitrary: n' s w)
  case 0
  then show ?case by simp
next
  case (Suc n)
  obtain m where m: "n' = Suc m" "n \<le> m" using Suc.prems(3) by (cases n') auto
  note IH = Suc.IH [OF _ Suc.prems(2) m(2)]
  show ?case
  proof (cases "code s")
    case (Schedule c v k h)
    then show ?thesis using Suc.prems(1) m IH by (auto split: prod.splits outcome.splits)
  next
    case (Spawn s' k)
    then show ?thesis using Suc.prems(1) m IH by (auto simp: bindS_def new_coro_def)
  next
    case (Gettime k)
    then show ?thesis using Suc.prems(1) m IH by (auto simp: bindS_def gettimeofday_def)
  qed (use Suc.prems(1) m IH in \<open>auto split: if_splits\<close>)
qed

lemma resume_mono:
  assumes "resume n vt code c v w = (x, w')" "x \<noteq> Stuck" "n \<le> n'"
  shows "resume n' vt code c v w = (x, w')"
proof -
  have swap: "swap_in n' vt code c u = (y, u')" if "swap_in n vt code c u = (y, u')" "y \<noteq> Stuck" for u y u'
  proof (cases "w_stack u")
    case None
    then show ?thesis using that by (simp add: swap_in_def)
  next
    case (Some k)
    then show ?thesis using that unfolding swap_in_def
      by (auto elim!: bindS_mono dest: run_seg_mono [OF _ _ assms(3)])
  qed
  then show ?thesis
    using assms(1,2) unfolding resume_def Let_def
    by (auto elim!: bindS_mono split: if_splits)
qed

lemma resume_all_mono:
  "resume_all n vt code es w = (x, w') \<Longrightarrow> x \<noteq> Stuck \<Longrightarrow> n \<le> n' \<Longrightarrow> resume_all n' vt code es w = (x, w')"
proof (induction es arbitrary: w)
  case Nil
  then show ?case by simp
next
  case (Cons e es)
  obtain c v where e: "e = (c, v)" by (rule prod.exhaust)
  show ?case
    using Cons.prems unfolding e resume_all.simps
    by (auto elim!: bindS_mono dest: resume_mono intro: Cons.IH)
qed

lemma run_rounds_mono:
  "run_rounds r n vt code w = (x, w') \<Longrightarrow> x \<noteq> Stuck \<Longrightarrow> r \<le> r' \<Longrightarrow> n \<le> n' \<Longrightarrow>
   run_rounds r' n' vt code w = (x, w')"
proof (induction r arbitrary: r' w)
  case 0
  then show ?case by simp
next
  case (Suc r)
  obtain m where m: "r' = Suc m" "r \<le> m" using Suc.prems(3) by (cases r') auto
  have "bindS (resume_all n' vt code (w_staging (swap_lists w))) (\<lambda>_ w2.
          bindS schedule_events (\<lambda>_. run_rounds m n' vt code) (clear_staging w2)) (swap_lists w) = (x, w')"
    if "w_pending w \<noteq> []"
  proof (rule bindS_mono)
    show "bindS (resume_all n vt code (w_staging (swap_lists w))) (\<lambda>_ w2.
          bindS schedule_events (\<lambda>_. run_rounds r n vt code) (clear_staging w2)) (swap_lists w) = (x, w')"
      using Suc.prems(1) that by (simp add: Let_def)
  next
    fix a :: unit and w1
    assume "bindS schedule_events (\<lambda>_. run_rounds r n vt code) (clear_staging w1) = (x, w')"
    then show "bindS schedule_events (\<lambda>_. run_rounds m n' vt code) (clear_staging w1) = (x, w')"
      by (rule bindS_mono) (use Suc.prems m(2) Suc.IH in auto)
  qed (use Suc.prems resume_all_mono in blast)+
  then show ?case using Suc.prems(1) m(1) by (cases "w_pending w = []") (simp_all add: Let_def)
qed

lemma run_pending_mono:
  "run_pending r n vt code w = (x, w') \<Longrightarrow> x \<noteq> Stuck \<Longrightarrow> r \<le> r' \<Longrightarrow> n \<le> n' \<Longrightarrow>
   run_pending r' n' vt code w = (x, w')"
  unfolding run_pending_def by (erule bindS_mono) (auto intro: run_rounds_mono)

lemma event_loop_mono:
  "event_loop l r n vt code w = (x, w') \<Longrightarrow> x \<noteq> Stuck \<Longrightarrow> l \<le> l' \<Longrightarrow> r \<le> r' \<Longrightarrow> n \<le> n' \<Longrightarrow>
   event_loop l' r' n' vt code w = (x, w')"
proof (induction l arbitrary: l' w)
  case 0
  then show ?case by simp
next
  case (Suc l)
  obtain m where m: "l' = Suc m" "l \<le> m" using Suc.prems(3) by (cases l') auto
  have "bindS (run_pending r' n' vt code) (\<lambda>_ w1.
          if \<not> w_exit w1 then
            bindS time_to_next_event (\<lambda>until. bindS (vt_poll vt until) (\<lambda>_.
              event_loop m r' n' vt code)) w1
          else (Val (), w1)) w = (x, w')"
    if "\<not> w_exit w"
  proof (rule bindS_mono)
    show "bindS (run_pending r n vt code) (\<lambda>_ w1.
          if \<not> w_exit w1 then
            bindS time_to_next_event (\<lambda>until. bindS (vt_poll vt until) (\<lambda>_.
              event_loop l r n vt code)) w1
          else (Val (), w1)) w = (x, w')"
      using Suc.prems(1) that by simp
  next
    fix a :: unit and w1
    assume "(if \<not> w_exit w1 then
            bindS time_to_next_event (\<lambda>until. bindS (vt_poll vt until) (\<lambda>_.
              event_loop l r n vt code)) w1
          else (Val (), w1)) = (x, w')"
    then show "(if \<not> w_exit w1 then
            bindS time_to_next_event (\<lambda>until. bindS (vt_poll vt until) (\<lambda>_.
              event_loop m r' n' vt code)) w1
          else (Val (), w1)) = (x, w')"
      using Suc.prems(2,4,5) m(2)
      by (auto split: if_splits elim!: bindS_mono intro: Suc.IH)
  qed (use Suc.prems run_pending_mono in blast)+
  then show ?case using Suc.prems(1) m(1) by (cases "w_exit w") simp_all
qed

end
