(* ===== verification/Poller_Kqueue.thy ===== *)
theory Poller_Kqueue
  imports Event_Loop
begin

unbundle bit_operations_syntax

section \<open>The kqueue back end\<close>

text \<open>
  \<open>event_kqueue.h\<close>.  \<open>kq_changes\<close> is the filled part of \<open>_change_list\<close>, so \<open>_change_index\<close> is its length
  and the array has \<open>kq_output_max\<close> places.  A \<open>udata\<close> field holds a \<open>void *\<close> that was cast from a
  \<open>coro *\<close> or from a signal handler; which of the two is kept, so that the cast back is visible.
  What \<open>kevent\<close> answers is a parameter: \<open>kq_replies\<close> are the answers of the successive calls, and
  \<open>kq_calls\<close> records what was passed to each call (changes, seconds, nanoseconds).
\<close>

datatype kfilter = EVFILT_READ | EVFILT_WRITE | EVFILT_SIGNAL

datatype udata = U_Coro cid | U_Handler nat

record kevent =
  ke_ident :: int
  ke_filter :: kfilter
  ke_flags :: "16 word"
  ke_fflags :: "32 word"
  ke_data :: int
  ke_udata :: udata

definition EV_ADD :: "16 word" where "EV_ADD = 0x0001"
definition EV_ENABLE :: "16 word" where "EV_ENABLE = 0x0004"
definition EV_ONESHOT :: "16 word" where "EV_ONESHOT = 0x0010"
definition EV_EOF :: "16 word" where "EV_EOF = 0x8000"

datatype kreply = K_Events "kevent list" | K_Failed

record kqueue =
  kq_output_max :: nat
  kq_input_max :: nat
  kq_changes :: "kevent list"
  kq_rb :: int
  kq_wb :: int
  kq_replies :: "kreply list"
  kq_calls :: "(kevent list \<times> int \<times> int) list"

definition kqueue_poller :: "nat \<Rightarrow> nat \<Rightarrow> kreply list \<Rightarrow> kqueue" where
  "kqueue_poller input_max output_max replies =
     \<lparr>kq_output_max = output_max, kq_input_max = input_max, kq_changes = [], kq_rb = 0, kq_wb = 0,
      kq_replies = replies, kq_calls = []\<rparr>"

text \<open>A write to \<open>_change_list[_change_index]\<close>; nothing checks that the index is inside the array.\<close>

definition add_change :: "kevent \<Rightarrow> (kqueue, unit) op" where
  "add_change ke kq =
     (if length (kq_changes kq) < kq_output_max kq
      then (Val (), kq\<lparr>kq_changes := kq_changes kq @ [ke]\<rparr>)
      else (Raise (Undef Out_Of_Bounds), kq))"

definition wait_change :: "int \<Rightarrow> cid \<Rightarrow> kfilter \<Rightarrow> kevent" where
  "wait_change fd c filt =
     \<lparr>ke_ident = fd, ke_filter = filt, ke_flags = EV_ADD OR EV_ENABLE OR EV_ONESHOT, ke_fflags = 0,
      ke_data = 0, ke_udata = U_Coro c\<rparr>"

definition kq_set_wait_for :: "int \<Rightarrow> cid \<Rightarrow> kfilter \<Rightarrow> (kqueue, unit) op" where
  "kq_set_wait_for fd c filt = add_change (wait_change fd c filt)"

definition set_signal_handler :: "int \<Rightarrow> nat \<Rightarrow> (kqueue, unit) op" where
  "set_signal_handler signum fn =
     add_change \<lparr>ke_ident = signum, ke_filter = EVFILT_SIGNAL, ke_flags = EV_ADD OR EV_ONESHOT,
       ke_fflags = 0, ke_data = 0, ke_udata = U_Handler fn\<rparr>"

text \<open>
  The handler that the header offers.  \<open>coro::exit\<close> is all it does; \<open>poll\<close> never calls a handler, whatever was registered.
\<close>

definition default_signal_handler :: "kevent \<Rightarrow> (('s, kqueue) world, unit) op" where
  "default_signal_handler kev w = (Val (), exit_loop w)"

definition kq_set_wait_for_read :: "int \<Rightarrow> cid \<Rightarrow> (kqueue, unit) op" where
  "kq_set_wait_for_read fd c =
     bindS (kq_set_wait_for fd c EVFILT_READ) (\<lambda>_ kq. (Val (), kq\<lparr>kq_rb := kq_rb kq + 1\<rparr>))"

definition kq_set_wait_for_write :: "int \<Rightarrow> cid \<Rightarrow> (kqueue, unit) op" where
  "kq_set_wait_for_write fd c =
     bindS (kq_set_wait_for fd c EVFILT_WRITE) (\<lambda>_ kq. (Val (), kq\<lparr>kq_wb := kq_wb kq + 1\<rparr>))"

text \<open>
  The end of \<open>kqueue_poller::wait_for_read\<close> and \<open>wait_for_write\<close>: the value \<open>yield\<close> returns, cast to
  \<open>int\<close>, is an error unless it is 0.
\<close>

definition kq_resumed :: "string \<Rightarrow> pval \<Rightarrow> exn option" where
  "kq_resumed fn v =
     (let error = (ucast v :: 32 word) in if error \<noteq> 0 then Some (OS_Error fn (sint error)) else None)"

text \<open>The \<open>for\<close> loop of \<open>poll\<close> over the events \<open>kevent\<close> has filled in.\<close>

definition kq_wake :: "kevent \<Rightarrow> (('s, kqueue) world, unit) op" where
  "kq_wake ke =
     (case ke_udata ke of
        U_Handler _ \<Rightarrow> raise (Undef Bad_Cast)
      | U_Coro c \<Rightarrow>
          if ke_flags ke AND EV_EOF \<noteq> 0 \<and> ke_fflags ke \<noteq> 0
          then schedule c (ucast (ke_fflags ke)) else schedule c 0)"

fun kq_wake_all :: "kevent list \<Rightarrow> (('s, kqueue) world, unit) op" where
  "kq_wake_all [] = ret ()"
| "kq_wake_all (ke # kes) = bindS (kq_wake ke) (\<lambda>_. kq_wake_all kes)"

definition kevent_call :: "int \<Rightarrow> (('s, kqueue) world, kreply) op" where
  "kevent_call timeout w =
     (let kq = w_poller w; t = (if timeout < 0 then 0 else timeout) in
      case kq_replies kq of
        [] \<Rightarrow> (Stuck, w)
      | r # rs \<Rightarrow>
          (Val r, w\<lparr>w_poller := kq\<lparr>kq_replies := rs,
             kq_calls := kq_calls kq @ [(kq_changes kq, t sdiv 1000000, (t smod 1000000) * 1000)],
             kq_changes := []\<rparr>\<rparr>))"

definition kq_poll :: "int \<Rightarrow> (('s, kqueue) world, unit) op" where
  "kq_poll timeout =
     bindS (kevent_call timeout) (\<lambda>r.
       case r of
         K_Events kes \<Rightarrow> kq_wake_all kes
       | K_Failed \<Rightarrow> raise (OS_Error ''kevent'' (-1)))"

definition kq_vtable :: "('s, kqueue) vtable" where
  "kq_vtable = \<lparr>vt_set_read = kq_set_wait_for_read, vt_set_write = kq_set_wait_for_write,
     vt_resumed = kq_resumed, vt_poll = kq_poll\<rparr>"

subsection \<open>It is a poller\<close>

lemma kq_wake_all_only: "kq_wake_all kes w = (x, w') \<Longrightarrow> only_schedules w w'"
proof (induction kes arbitrary: w)
  case Nil
  then show ?case by (simp add: only_schedules_refl)
next
  case (Cons ke kes)
  obtain y w1 where k: "kq_wake ke w = (y, w1)" by (rule prod.exhaust)
  have "only_schedules w w1"
    using k by (auto simp: kq_wake_def only_schedules_refl dest: only_schedules_schedule
        split: udata.splits if_splits)
  then show ?case
    using k Cons.prems Cons.IH only_schedules_trans
    by (cases y) (fastforce simp: bindS_def)+
qed

definition asked :: "int \<Rightarrow> kqueue \<Rightarrow> kqueue" where
  "asked timeout kq =
     (let t = (if timeout < 0 then 0 else timeout) in
      case kq_replies kq of
        [] \<Rightarrow> kq
      | r # rs \<Rightarrow> kq\<lparr>kq_replies := rs,
             kq_calls := kq_calls kq @ [(kq_changes kq, t sdiv 1000000, (t smod 1000000) * 1000)],
             kq_changes := []\<rparr>)"

lemma kevent_call_asked: "kevent_call t w = (x, w') \<Longrightarrow> w' = w\<lparr>w_poller := asked t (w_poller w)\<rparr>"
  unfolding kevent_call_def asked_def Let_def
  by (cases "kq_replies (w_poller w)") (simp_all only: list.case prod.inject, simp_all)

lemma blind_kq_wake_all: "blind (kq_wake_all kes)"
  by (induction kes)
    (auto simp: kq_wake_def intro!: blind_bindS blind_basic split: udata.splits, auto simp: blind_def)

lemma blind_kevent_call: "blind (kevent_call t)"
  by (auto simp: blind_def kevent_call_def Let_def strip_update_fields split: list.splits)

interpretation kq: poller kq_vtable
proof unfold_locales
  fix t and w w' :: "('a, kqueue) world" and x
  assume "vt_poll kq_vtable t w = (x, w')"
  then have p: "kq_poll t w = (x, w')" by (simp add: kq_vtable_def)
  obtain r w1 where k: "kevent_call t w = (r, w1)" by (rule prod.exhaust)
  then have w1: "w1 = w\<lparr>w_poller := asked t (w_poller w)\<rparr>" by (rule kevent_call_asked)
  have "only_schedules w1 w'"
    using p k kq_wake_all_only only_schedules_refl
    by (auto simp: kq_poll_def bindS_def split: outcome.splits kreply.splits)
  then show "only_schedules w w'" unfolding w1 by (rule only_schedules_poller)
next
  fix t
  show "blind (vt_poll (kq_vtable :: ('a, kqueue) vtable) t)"
    unfolding kq_vtable_def kq_poll_def
    by (auto intro!: blind_bindS blind_kevent_call blind_kq_wake_all split: kreply.split)
      (auto simp: blind_def split: kreply.splits)
qed

subsection \<open>What it does\<close>

text \<open>Every registration so far: those passed to earlier calls of \<open>kevent\<close>, then those waiting in the array.\<close>

definition kq_history :: "kqueue \<Rightarrow> kevent list" where
  "kq_history kq = concat (map fst (kq_calls kq)) @ kq_changes kq"

lemma add_change_Val:
  "length (kq_changes kq) < kq_output_max kq \<Longrightarrow>
   add_change ke kq = (Val (), kq\<lparr>kq_changes := kq_changes kq @ [ke]\<rparr>)"
  by (simp add: add_change_def)

lemma kq_set_wait_Val:
  assumes "length (kq_changes kq) < kq_output_max kq"
  shows "kq_set_wait_for_read fd c kq =
      (Val (), kq\<lparr>kq_changes := kq_changes kq @ [wait_change fd c EVFILT_READ], kq_rb := kq_rb kq + 1\<rparr>)"
    and "kq_set_wait_for_write fd c kq =
      (Val (), kq\<lparr>kq_changes := kq_changes kq @ [wait_change fd c EVFILT_WRITE], kq_wb := kq_wb kq + 1\<rparr>)"
  using add_change_Val [OF assms]
  by (simp_all add: kq_set_wait_for_read_def kq_set_wait_for_write_def kq_set_wait_for_def bindS_def)

text \<open>
  no wait is lost and none is registered twice.  A wait for reading appends one change for its
  descriptor and coroutine to the history, a wait for writing likewise, and a call of \<open>kevent\<close> passes
  all changes collected since the call before and empties the array, keeping the history.
\<close>

theorem kqueue_registers_each_wait_once:
  assumes "length (kq_changes kq) < kq_output_max kq"
  shows "kq_history (snd (kq_set_wait_for_read fd c kq)) = kq_history kq @ [wait_change fd c EVFILT_READ]
    \<and> kq_history (snd (kq_set_wait_for_write fd c kq)) = kq_history kq @ [wait_change fd c EVFILT_WRITE]
    \<and> (kevent_call t w = (Val r, w') \<longrightarrow> kq_history (w_poller w') = kq_history (w_poller w)
        \<and> kq_changes (w_poller w') = [])"
  unfolding kq_set_wait_Val [OF assms]
  by (auto simp: kq_history_def kevent_call_def Let_def split: list.splits)

theorem kqueue_registers_each_wait_once_witness:
  "kq_history (snd (kq_set_wait_for_read 7 1 (kqueue_poller 10 2 []))) = [wait_change 7 1 EVFILT_READ]"
proof -
  have "length (kq_changes (kqueue_poller 10 2 [])) < kq_output_max (kqueue_poller 10 2 [])"
    by (simp add: kqueue_poller_def)
  from conjunct1 [OF kqueue_registers_each_wait_once [OF this, of 7 1 0 "ex_world (kqueue_poller 10 2 [])"]]
  show ?thesis by (simp add: kqueue_poller_def kq_history_def)
qed

text \<open>The pending entry an event of \<open>kevent\<close> gives rise to.\<close>

definition kq_entry :: "kevent \<Rightarrow> pending_entry" where
  "kq_entry ke =
     ((case ke_udata ke of U_Coro c \<Rightarrow> c | U_Handler _ \<Rightarrow> 0),
      (if ke_flags ke AND EV_EOF \<noteq> 0 then ucast (ke_fflags ke) else 0))"

definition kq_live :: "('s, kqueue) world \<Rightarrow> kevent \<Rightarrow> bool" where
  "kq_live w ke \<longleftrightarrow> (\<exists>c. ke_udata ke = U_Coro c \<and> valid_cid w c \<and> \<not> is_dead w c)"

lemma kq_wake_all_live:
  "\<forall>ke \<in> set kes. kq_live w ke \<Longrightarrow>
   kq_wake_all kes w = (Val (), w\<lparr>w_pending := w_pending w @ map kq_entry kes\<rparr>)"
proof (induction kes arbitrary: w)
  case Nil
  then show ?case by simp
next
  case (Cons ke kes)
  let ?w = "w\<lparr>w_pending := w_pending w @ [kq_entry ke]\<rparr>"
  have "kq_wake ke w = (Val (), ?w)"
    using Cons.prems by (auto simp: kq_live_def kq_wake_def schedule_def kq_entry_def)
  moreover have "\<forall>ke \<in> set kes. kq_live ?w ke"
    using Cons.prems by (auto simp: kq_live_def valid_cid_def is_dead_def)
  ultimately show ?case using Cons.IH [of ?w] by (simp add: bindS_def)
qed

text \<open>
  when \<open>kevent\<close> reports events for living coroutines, \<open>poll\<close> schedules each of them once, in the
  order of the report.  The value a coroutine is resumed with is the error of its event if the
  end-of-file flag is set, and \<open>wait_for_read\<close> turns it back into exactly that error.
\<close>

theorem kqueue_delivers_events:
  assumes "kq_replies (w_poller w) = K_Events kes # rs" "\<forall>ke \<in> set kes. kq_live w ke"
  shows "\<exists>kq. kq_poll t w = (Val (), w\<lparr>w_poller := kq, w_pending := w_pending w @ map kq_entry kes\<rparr>)
    \<and> kq_replies kq = rs
    \<and> (\<forall>ke \<in> set kes. kq_resumed fn (snd (kq_entry ke)) =
        (if ke_flags ke AND EV_EOF \<noteq> 0 \<and> ke_fflags ke \<noteq> 0 then Some (OS_Error fn (sint (ke_fflags ke))) else None))"
proof -
  let ?kq = "asked t (w_poller w)"
  have k: "kevent_call t w = (Val (K_Events kes), w\<lparr>w_poller := ?kq\<rparr>)"
    using assms(1) by (simp add: kevent_call_def asked_def Let_def)
  have "\<forall>ke \<in> set kes. kq_live (w\<lparr>w_poller := ?kq\<rparr>) ke"
    using assms(2) by (simp add: kq_live_def valid_cid_def is_dead_def)
  from kq_wake_all_live [OF this] have
    "kq_poll t w = (Val (), w\<lparr>w_poller := ?kq, w_pending := w_pending w @ map kq_entry kes\<rparr>)"
    by (simp add: kq_poll_def bindS_def k)
  moreover have "kq_replies ?kq = rs" using assms(1) by (simp add: asked_def Let_def)
  moreover have "ucast (ucast f :: 64 word) = f" for f :: "32 word" by (rule bit_word_eqI) (simp add: bit_simps)
  ultimately show ?thesis by (auto simp: kq_resumed_def kq_entry_def)
qed

theorem kqueue_delivers_events_witness:
  "w_pending (snd (kq_poll 0 (ex_world (kqueue_poller 10 2
      [K_Events [(wait_change 7 1 EVFILT_READ)\<lparr>ke_flags := EV_EOF, ke_fflags := 104\<rparr>]])))) = [(0, 0), (1, 0), (1, 104)]"
proof -
  let ?ke = "(wait_change 7 1 EVFILT_READ)\<lparr>ke_flags := EV_EOF, ke_fflags := 104\<rparr>"
  let ?w = "ex_world (kqueue_poller 10 2 [K_Events [?ke]])"
  have "kq_replies (w_poller ?w) = K_Events [?ke] # []" by (simp add: ex_world_def init_world_def kqueue_poller_def)
  moreover have "\<forall>ke \<in> set [?ke]. kq_live ?w ke"
    by (simp add: kq_live_def wait_change_def ex_world_coros ex_world_coros [unfolded One_nat_def])
  ultimately obtain q where "kq_poll 0 ?w = (Val (), ?w\<lparr>w_poller := q, w_pending := w_pending ?w @ map kq_entry [?ke]\<rparr>)"
    using kqueue_delivers_events [where t = 0 and fn = "''wait_for_read''"] by blast
  then show ?thesis by (simp add: kq_entry_def wait_change_def EV_EOF_def ex_world_def)
qed

text \<open>The events all of whose \<open>udata\<close> are coroutines.\<close>

definition coro_udata :: "kevent list \<Rightarrow> bool" where
  "coro_udata kes \<longleftrightarrow> (\<forall>ke \<in> set kes. \<exists>c. ke_udata ke = U_Coro c)"

lemma kq_wake_all_typed: "coro_udata kes \<Longrightarrow> fst (kq_wake_all kes w) \<noteq> Raise (Undef Bad_Cast)"
  by (induction kes arbitrary: w)
    (auto simp: coro_udata_def kq_wake_def bindS_def schedule_def split: prod.splits outcome.splits if_splits)

lemma kq_wake_all_frame: "kq_wake_all kes w = (r, w') \<Longrightarrow> w_poller w' = w_poller w"
proof (induction kes arbitrary: w)
  case Nil
  then show ?case by simp
next
  case (Cons ke kes)
  obtain x w1 where k: "kq_wake ke w = (x, w1)" by (rule prod.exhaust)
  then have "w_poller w1 = w_poller w"
    by (auto simp: kq_wake_def schedule_def split: udata.splits if_splits)
  then show ?case using Cons k by (cases x) (auto simp: bindS_def)
qed

lemma kq_wake_all_cast:
  "\<forall>ke \<in> set pre. kq_live w ke \<Longrightarrow> ke_udata ke = U_Handler h \<Longrightarrow>
   fst (kq_wake_all (pre @ ke # post) w) = Raise (Undef Bad_Cast)"
proof (induction pre arbitrary: w)
  case Nil
  then show ?case by (simp add: kq_wake_def bindS_def)
next
  case (Cons k pre)
  let ?w = "w\<lparr>w_pending := w_pending w @ [kq_entry k]\<rparr>"
  have "kq_wake k w = (Val (), ?w)"
    using kq_wake_all_live [of "[k]" w] Cons.prems(1) by (simp add: bindS_def split: prod.splits outcome.splits)
  moreover have "\<forall>ke \<in> set pre. kq_live ?w ke" using Cons.prems(1) by (simp add: kq_live_def valid_cid_def is_dead_def)
  ultimately show ?case using Cons.IH [of ?w] Cons.prems(2) by (simp add: bindS_def)
qed

text \<open>
  C20: the casts from \<open>void *\<close> back to \<open>coro *\<close> in \<open>poll\<close>.  As long as only waits are registered, every \<open>udata\<close> in the
  history is a coroutine, and this is kept by the registration of waits and by \<open>poll\<close>; then \<open>poll\<close> casts nothing but
  coroutines, if the kernel reports only what was registered.  \<open>set_signal_handler\<close> breaks it: it stores the handler
  in \<open>udata\<close>, and when an event with it is reported after events of living coroutines, \<open>poll\<close> uses the handler as
  a \<open>coro\<close> object.
\<close>

theorem kqueue_casts_are_typed:
  assumes "kq_replies (w_poller w) = K_Events kes # rs"
  shows "(coro_udata (kq_history (w_poller w)) \<and> ke_udata ` set kes \<subseteq> ke_udata ` set (kq_history (w_poller w)) \<longrightarrow>
      fst (kq_poll t w) \<noteq> Raise (Undef Bad_Cast) \<and> coro_udata (kq_history (w_poller (snd (kq_poll t w))))
      \<and> coro_udata (kq_history (snd (kq_set_wait_for_read fd c (w_poller w))))
      \<and> coro_udata (kq_history (snd (kq_set_wait_for_write fd c (w_poller w)))))
    \<and> (length (kq_changes (w_poller w)) < kq_output_max (w_poller w) \<longrightarrow>
        \<not> coro_udata (kq_history (snd (set_signal_handler signum fn (w_poller w)))))
    \<and> (\<forall>pre ke h post. kes = pre @ ke # post \<longrightarrow> (\<forall>k \<in> set pre. kq_live w k) \<longrightarrow> ke_udata ke = U_Handler h \<longrightarrow>
        fst (kq_poll t w) = Raise (Undef Bad_Cast))"
proof -
  let ?kq = "asked t (w_poller w)"
  have p: "kq_poll t w = kq_wake_all kes (w\<lparr>w_poller := ?kq\<rparr>)"
    using assms by (simp add: kq_poll_def bindS_def kevent_call_def asked_def Let_def)
  have hist: "kq_history ?kq = kq_history (w_poller w)" using assms by (simp add: asked_def kq_history_def Let_def)
  obtain r w' where r: "kq_wake_all kes (w\<lparr>w_poller := ?kq\<rparr>) = (r, w')" by (rule prod.exhaust)
  have "w_poller w' = ?kq" using kq_wake_all_frame [OF r] by simp
  then have a: "kq_history (w_poller (snd (kq_poll t w))) = kq_history (w_poller w)" using p r hist by simp
  have typed: "coro_udata kes" if "coro_udata (kq_history (w_poller w))"
    "ke_udata ` set kes \<subseteq> ke_udata ` set (kq_history (w_poller w))"
  proof -
    have "\<exists>c. ke_udata ke = U_Coro c" if "ke \<in> set kes" for ke
    proof -
      have "ke_udata ke \<in> ke_udata ` set (kq_history (w_poller w))"
        using that \<open>ke_udata ` set kes \<subseteq> _\<close> by blast
      then show ?thesis using \<open>coro_udata (kq_history (w_poller w))\<close> by (auto simp: coro_udata_def)
    qed
    then show ?thesis by (simp add: coro_udata_def)
  qed
  have reg: "coro_udata (kq_history (snd (kq_set_wait_for fd c filt kq)))" if "coro_udata (kq_history kq)" for filt kq
    using that by (auto simp: kq_set_wait_for_def add_change_def kq_history_def coro_udata_def wait_change_def)
  have waits: "kq_history (snd (kq_set_wait_for_read fd c kq)) = kq_history (snd (kq_set_wait_for fd c EVFILT_READ kq))"
    "kq_history (snd (kq_set_wait_for_write fd c kq)) = kq_history (snd (kq_set_wait_for fd c EVFILT_WRITE kq))" for kq
    by (auto simp: kq_set_wait_for_read_def kq_set_wait_for_write_def bindS_def kq_history_def split: prod.split outcome.split)
  have b: "fst (kq_poll t w) = Raise (Undef Bad_Cast)"
    if "kes = pre @ ke # post" "\<forall>k \<in> set pre. kq_live w k" "ke_udata ke = U_Handler h" for pre ke h post
  proof -
    have "\<forall>k \<in> set pre. kq_live (w\<lparr>w_poller := ?kq\<rparr>) k" using that(2) by (simp add: kq_live_def valid_cid_def is_dead_def)
    then show ?thesis using kq_wake_all_cast that(1,3) p by fastforce
  qed
  have c: "\<not> coro_udata (kq_history (snd (set_signal_handler signum fn kq)))" if "length (kq_changes kq) < kq_output_max kq" for kq
    using that by (auto simp: set_signal_handler_def add_change_def kq_history_def coro_udata_def)
  show ?thesis using a b c reg waits typed kq_wake_all_typed [of kes "w\<lparr>w_poller := ?kq\<rparr>"] p by auto
qed

theorem kqueue_casts_are_typed_witness:
  "let kq = snd (set_signal_handler 15 3 (kqueue_poller 10 2 []))
   in fst (kq_poll 0 (ex_world (kq\<lparr>kq_replies := [K_Events (kq_changes kq)]\<rparr>))) = Raise (Undef Bad_Cast)"
proof -
  let ?kq = "snd (set_signal_handler 15 3 (kqueue_poller 10 2 []))"
  let ?w = "ex_world (?kq\<lparr>kq_replies := [K_Events (kq_changes ?kq)]\<rparr>)"
  obtain ke where ke: "kq_changes ?kq = [] @ ke # []" "ke_udata ke = U_Handler 3"
    by (simp add: set_signal_handler_def add_change_def kqueue_poller_def)
  have "kq_replies (w_poller ?w) = K_Events (kq_changes ?kq) # []" by (simp add: ex_world_def init_world_def)
  from kqueue_casts_are_typed [OF this, THEN conjunct2, THEN conjunct2, rule_format, OF ke(1) _ ke(2)]
  show ?thesis by (simp add: Let_def)
qed

text \<open>
  the array of changes has \<open>_output_max\<close> places and no registration checks its index: the
  wait that follows \<open>_output_max\<close> waits without a \<open>poll\<close> in between writes past the end.
\<close>

theorem kqueue_change_list_overflow:
  assumes "length cs = kq_output_max kq" "kq_changes kq = []"
    and "fold (\<lambda>(fd, c) (r, q). kq_set_wait_for_read fd c q) cs (Val (), kq) = (r, kq')"
  shows "r = Val () \<and> fst (kq_set_wait_for_read fd c kq') = Raise (Undef Out_Of_Bounds)
    \<and> fst (kq_set_wait_for_write fd c kq') = Raise (Undef Out_Of_Bounds)"
proof -
  have "r = Val () \<and> length (kq_changes kq') = length (kq_changes kq) + length cs
      \<and> kq_output_max kq' = kq_output_max kq"
    if "length (kq_changes kq) + length cs \<le> kq_output_max kq"
      "fold (\<lambda>(fd, c) (r, q). kq_set_wait_for_read fd c q) cs (Val (), kq) = (r, kq')" for kq
    using that
  proof (induction cs arbitrary: kq)
    case Nil
    then show ?case by simp
  next
    case (Cons fc cs)
    obtain fd c where fc: "fc = (fd, c)" by (rule prod.exhaust)
    have "length (kq_changes kq) < kq_output_max kq" using Cons.prems(1) by simp
    note s = kq_set_wait_Val(1) [OF this, of fd c]
    show ?case
      using Cons.IH [of "snd (kq_set_wait_for_read fd c kq)"] Cons.prems by (simp add: fc s)
  qed
  from this [OF _ assms(3)] assms(1,2) show ?thesis
    by (simp add: kq_set_wait_for_read_def kq_set_wait_for_write_def kq_set_wait_for_def bindS_def add_change_def)
qed

theorem kqueue_change_list_overflow_witness:
  "let kq = kqueue_poller 10 2 []; kq' = snd (kq_set_wait_for_read 8 1 (snd (kq_set_wait_for_read 7 0 kq)))
   in fst (kq_set_wait_for_read 9 0 kq') = Raise (Undef Out_Of_Bounds)"
proof -
  let ?kq = "kqueue_poller 10 2 []"
  let ?kq' = "snd (kq_set_wait_for_read 8 1 (snd (kq_set_wait_for_read 7 0 ?kq)))"
  have "length [(7, 0), (8, 1)] = kq_output_max ?kq" "kq_changes ?kq = []" by (simp_all add: kqueue_poller_def)
  moreover have "fold (\<lambda>(fd, c) (r, q). kq_set_wait_for_read fd c q) [(7, 0), (8, 1)] (Val (), ?kq)
      = (fst (kq_set_wait_for_read 8 1 (snd (kq_set_wait_for_read 7 0 ?kq))), ?kq')"
    by (simp add: case_prod_beta)
  ultimately show ?thesis using kqueue_change_list_overflow [where fd = 9 and c = 0] by (simp only: Let_def) blast
qed

text \<open>
  the whole program on the kqueue back end: \<open>event_loop\<close> with the one shared stack gives the same
  outcome and state as the loop in which every coroutine has its own, and when it returns the
  invariant holds and \<open>exit ()\<close> has been called.
\<close>

theorem kqueue_event_loop_refines:
  assumes "wf_world w" "malloc_ok w"
  shows "strip_out (event_loop l r n kq_vtable code w) = event_loop_own l r n kq_vtable code (strip w)
    \<and> (fst (event_loop l r n kq_vtable code w) = Val () \<longrightarrow>
        wf_world (snd (event_loop l r n kq_vtable code w)) \<and> w_exit (snd (event_loop l r n kq_vtable code w)))"
  using kq.event_loop_refines [OF assms, of l r n code] kq.event_loop_keeps [of l r n code w, OF _ assms(1)]
  by (metis prod.collapse)

theorem kqueue_event_loop_refines_witness:
  "wf_world (snd (event_loop 1 6 5 kq_vtable ex_code (ex_world (kqueue_poller 10 2 []))))"
proof -
  let ?w = "ex_world (kqueue_poller 10 2 [])"
  have "fst (event_loop 1 6 5 kq_vtable ex_code ?w) = Val ()" by code_simp
  moreover have "malloc_ok ?w" by (simp add: malloc_ok_def ex_world_def init_world_def)
  ultimately show ?thesis using kqueue_event_loop_refines [OF ex_world_wf, of "kqueue_poller 10 2 []"] by blast
qed

end
