(* ===== verification/Wakeups.thy ===== *)
theory Wakeups
  imports Event_Loop
begin

section \<open>One wake-up for each coroutine\<close>

text \<open>
  \<open>resume\<close> throws \<open>Dead_Coro\<close> out of the event loop when an entry, an event or a wait of a poller is left
  over for a coroutine that has ended, and \<open>schedule\<close> does not guard against it
  (\<open>scheduled_twice_dies\<close>).  The programs of the repository avoid it by a discipline: a thread schedules a
  coroutine only right after it has created it, and otherwise goes to sleep or waits for a
  descriptor.  \<open>tidy\<close> is this discipline on the code of threads.  Under it every living coroutine has
  at most one wake-up, counted over the pending entries, the events and the waits of the poller, and a dead
  one has none (\<open>single\<close>), and the event loop never resumes a dead coroutine.  What is needed of
  the poller is the locale \<open>waking_poller\<close>, which extends \<open>poller\<close>.
\<close>

subsection \<open>Tidy threads\<close>

text \<open>\<open>P\<close> holds of the points of the code that a thread may come from; a new coroutine is scheduled at once.\<close>

definition schedules_new :: "('s \<Rightarrow> bool) \<Rightarrow> cid \<Rightarrow> 's action \<Rightarrow> bool" where
  "schedules_new P c a = (case a of Schedule d v k h \<Rightarrow> d = c \<and> P k | _ \<Rightarrow> False)"

definition tidy_at :: "('s \<Rightarrow> bool) \<Rightarrow> ('s \<Rightarrow> 's action) \<Rightarrow> 's \<Rightarrow> bool" where
  "tidy_at P code s =
     (case code s of
        Finish \<Rightarrow> True
      | Uncaught \<Rightarrow> True
      | Yield v k \<Rightarrow> (\<forall>x. P (k x))
      | Schedule c v k h \<Rightarrow> False
      | Spawn s' k \<Rightarrow> P s' \<and> (\<forall>c. schedules_new P c (code (k c)))
      | Insert_Event t c v k \<Rightarrow> False
      | Sleep msec k \<Rightarrow> (\<forall>x. P (k x))
      | Exit k \<Rightarrow> P k
      | Gettime k \<Rightarrow> (\<forall>t. P (k t))
      | Current k \<Rightarrow> (\<forall>c. P (k c))
      | Wait_Read fd k h \<Rightarrow> P k \<and> (\<forall>e. P (h e))
      | Wait_Write fd k h \<Rightarrow> P k \<and> (\<forall>e. P (h e)))"

definition tidy :: "('s \<Rightarrow> bool) \<Rightarrow> ('s \<Rightarrow> 's action) \<Rightarrow> bool" where
  "tidy P code \<longleftrightarrow> (\<forall>s. P s \<longrightarrow> tidy_at P code s)"

text \<open>Every coroutine starts, and continues, at such a point.\<close>

definition points_ok :: "('s \<Rightarrow> bool) \<Rightarrow> ('s, 'p) world \<Rightarrow> bool" where
  "points_ok P w \<longleftrightarrow> (\<forall>co \<in> set (w_coros w). P (co_start co) \<and> (\<forall>k v. co_copy co = Some k \<longrightarrow> P (k v)))"

subsection \<open>Counting wake-ups\<close>

definition entries :: "pending_entry list \<Rightarrow> cid multiset" where
  "entries es = mset (map fst es)"

definition wakeups :: "('p \<Rightarrow> cid multiset) \<Rightarrow> ('s, 'p) world \<Rightarrow> cid multiset" where
  "wakeups waits w = entries (w_pending w) + mset (map ev_coro (w_events w)) + waits (w_poller w)"

definition single :: "cid multiset \<Rightarrow> ('s, 'p) world \<Rightarrow> bool" where
  "single M w \<longleftrightarrow> (\<forall>c. count M c \<le> (if valid_cid w c \<and> \<not> is_dead w c then 1 else 0))"

text \<open>What \<open>preserve\<close> throws.\<close>

definition no_memory :: exn where
  "no_memory = Thrown ''unable to malloc stack copy''"

lemma entries_simps [simp]:
  "entries [] = {#}" "entries (e # es) = add_mset (fst e) (entries es)" "entries (es @ fs) = entries es + entries fs"
  by (simp_all add: entries_def)

lemma singleD: "single M w \<Longrightarrow> c \<in># M \<Longrightarrow> valid_cid w c \<and> \<not> is_dead w c \<and> count M c = 1"
  unfolding single_def by (metis count_greater_eq_one_iff le_antisym not_in_iff le_zero_eq)

lemma single_mono: "single M w \<Longrightarrow> N \<subseteq># M \<Longrightarrow> single N w"
  unfolding single_def by (meson mset_subset_eq_count order_trans)

lemma single_add:
  assumes "single M w" "c \<notin># M" "valid_cid w c" "\<not> is_dead w c"
  shows "single (add_mset c M) w"
  unfolding single_def
proof
  fix d
  show "count (add_mset c M) d \<le> (if valid_cid w d \<and> \<not> is_dead w d then 1 else 0)"
    using assms by (cases "d = c") (simp_all add: single_def not_in_iff)
qed

lemma single_cong:
  assumes "single M w" "\<And>c. c \<in># M \<Longrightarrow> valid_cid w c \<Longrightarrow> \<not> is_dead w c \<Longrightarrow> valid_cid w' c \<and> \<not> is_dead w' c"
  shows "single M w'"
  unfolding single_def
proof
  fix c
  show "count M c \<le> (if valid_cid w' c \<and> \<not> is_dead w' c then 1 else 0)"
    using singleD [OF assms(1), of c] assms(2) [of c] by (cases "c \<in># M") (auto simp: not_in_iff)
qed

lemma single_same: "single M w \<Longrightarrow> w_coros w' = w_coros w \<Longrightarrow> single M w'"
  by (simp add: single_def valid_cid_def is_dead_def)

text \<open>
  The state of a running thread, coroutine \<open>c\<close>: it is alive, nothing wakes it, and \<open>E\<close> is what is still to be resumed in
  the round.
\<close>

definition running :: "('s \<Rightarrow> bool) \<Rightarrow> ('p \<Rightarrow> cid multiset) \<Rightarrow> ('p \<Rightarrow> bool) \<Rightarrow> cid multiset \<Rightarrow> cid \<Rightarrow> ('s, 'p) world \<Rightarrow> bool" where
  "running P waits ok E c w \<longleftrightarrow> points_ok P w \<and> ok (w_poller w) \<and> w_current w = Some c \<and> valid_cid w c \<and> \<not> is_dead w c
     \<and> single (E + wakeups waits w) w \<and> c \<notin># E + wakeups waits w"

text \<open>The state between two turns.\<close>

definition quiet :: "('s \<Rightarrow> bool) \<Rightarrow> ('p \<Rightarrow> cid multiset) \<Rightarrow> ('p \<Rightarrow> bool) \<Rightarrow> cid multiset \<Rightarrow> ('s, 'p) world \<Rightarrow> bool" where
  "quiet P waits ok E w \<longleftrightarrow> points_ok P w \<and> ok (w_poller w) \<and> single (E + wakeups waits w) w"

lemma running_quiet: "running P waits ok E c w \<Longrightarrow> quiet P waits ok E w"
  by (simp add: running_def quiet_def)

lemma quiet_same:
  assumes "quiet P waits ok E w" "w_coros w' = w_coros w" "w_poller w' = w_poller w"
    "E' + wakeups waits w' = E + wakeups waits w"
  shows "quiet P waits ok E' w'"
  using assms single_same [of "E + wakeups waits w" w w'] by (simp add: quiet_def points_ok_def)

lemma running_same:
  assumes "running P waits ok E c w" "w_coros w' = w_coros w" "w_poller w' = w_poller w"
    "w_current w' = w_current w" "wakeups waits w' = wakeups waits w"
  shows "running P waits ok E c w'"
  using assms single_same [of "E + wakeups waits w" w w']
  by (simp add: running_def points_ok_def valid_cid_def is_dead_def)

lemma points_ok_upd:
  assumes "points_ok P w" "\<And>co. co_start (f co) = co_start co" "\<And>co. co_copy (f co) = co_copy co \<or> co_copy (f co) = None"
  shows "points_ok P (upd_coro c f w)"
proof (cases "c < length (w_coros w)")
  case True
  then have m: "w_coros w ! c \<in> set (w_coros w)" by simp
  show ?thesis
    unfolding points_ok_def
  proof
    fix co assume "co \<in> set (w_coros (upd_coro c f w))"
    then have "co = f (w_coros w ! c) \<or> co \<in> set (w_coros w)"
      by (auto simp: upd_coro_def dest: set_update_subset_insert [THEN subsetD])
    then show "P (co_start co) \<and> (\<forall>k v. co_copy co = Some k \<longrightarrow> P (k v))"
      using assms m by (metis (no_types, lifting) option.distinct(1) points_ok_def)
  qed
next
  case False
  then show ?thesis using assms(1) by (simp add: upd_coro_def points_ok_def list_update_beyond)
qed

lemma dead_upd: "(\<And>co. co_dead (f co) = co_dead co) \<Longrightarrow> valid_cid w d \<Longrightarrow> is_dead (upd_coro c f w) d = is_dead w d"
  by (auto simp: is_dead_def nth_upd_coro valid_cid_def)

lemma wakeups_upd [simp]: "wakeups waits (upd_coro c f w) = wakeups waits w"
  by (simp add: wakeups_def)

lemma single_upd: "(\<And>co. co_dead (f co) = co_dead co) \<Longrightarrow> single M w \<Longrightarrow> single M (upd_coro c f w)"
  by (erule single_cong) (simp add: dead_upd)

lemma quiet_set_value: "quiet P waits ok E w \<Longrightarrow> quiet P waits ok E (set_value c v w)"
  by (simp add: quiet_def set_value_def points_ok_upd single_upd)

text \<open>A coroutine that is created and scheduled.\<close>

definition spawned :: "'s \<Rightarrow> pval \<Rightarrow> ('s, 'p) world \<Rightarrow> ('s, 'p) world" where
  "spawned s v w = (let w1 = snd (new_coro s w) in w1\<lparr>w_pending := w_pending w1 @ [(length (w_coros w), v)]\<rparr>)"

lemma new_then_schedule:
  "new_coro s w = (Val (length (w_coros w)), snd (new_coro s w))"
  "schedule (length (w_coros w)) v (snd (new_coro s w)) = (Val (), spawned s v w)"
  by (simp_all add: spawned_def Let_def schedule_def valid_cid_def is_dead_def new_coro_def)

lemma wakeups_spawned: "wakeups waits (spawned s v w) = add_mset (length (w_coros w)) (wakeups waits w)"
  by (simp add: wakeups_def spawned_def Let_def new_coro_def)

lemma quiet_spawned:
  assumes "quiet P waits ok E w" "P s"
  shows "quiet P waits ok E (spawned s v w)"
proof -
  let ?M = "E + wakeups waits w" and ?d = "length (w_coros w)" and ?w1 = "snd (new_coro s w)"
  have M: "single ?M w" using assms(1) by (simp add: quiet_def)
  then have d: "?d \<notin># ?M" using singleD [OF M] by (auto simp: valid_cid_def)
  have "single ?M ?w1" using M by (rule single_cong) (auto simp: valid_cid_def is_dead_def new_coro_def nth_append)
  then have "single (add_mset ?d ?M) ?w1"
    using d by (intro single_add) (auto simp: valid_cid_def is_dead_def new_coro_def)
  then have "single (add_mset ?d ?M) (spawned s v w)"
    by (rule single_same) (simp add: spawned_def Let_def)
  then show ?thesis
    using assms wakeups_spawned [of waits s v w] by (simp add: quiet_def points_ok_def spawned_def Let_def new_coro_def)
qed

subsection \<open>A poller that wakes each waiter once\<close>

locale waking_poller = poller vt for vt :: "('s, 'p) vtable" +
  fixes waits :: "'p \<Rightarrow> cid multiset"
    and ok :: "'p \<Rightarrow> bool"
    and faults :: "exn set"
  assumes set_read_waits: "vt_set_read vt fd c p = (Val (), p') \<Longrightarrow> ok p \<Longrightarrow> ok p' \<and> waits p' \<subseteq># add_mset c (waits p)"
    and set_write_waits: "vt_set_write vt fd c p = (Val (), p') \<Longrightarrow> ok p \<Longrightarrow> ok p' \<and> waits p' \<subseteq># add_mset c (waits p)"
    and set_faults: "vt_set_read vt fd c p = (Raise e, p') \<or> vt_set_write vt fd c p = (Raise e, p') \<Longrightarrow> e \<in> faults"
    and poll_waits: "vt_poll vt t w = (Val (), w') \<Longrightarrow> ok (w_poller w) \<Longrightarrow>
      ok (w_poller w') \<and> entries (w_pending w') + waits (w_poller w') \<subseteq># entries (w_pending w) + waits (w_poller w)"
    and poll_faults: "vt_poll vt t w = (Raise e, w') \<Longrightarrow> ok (w_poller w) \<Longrightarrow>
      (\<And>c. c \<in># waits (w_poller w) \<Longrightarrow> valid_cid w c \<and> \<not> is_dead w c) \<Longrightarrow> e \<in> faults"
begin

abbreviation runs :: "('s \<Rightarrow> bool) \<Rightarrow> cid multiset \<Rightarrow> cid \<Rightarrow> ('s, 'p) world \<Rightarrow> bool" where
  "runs P \<equiv> running P waits ok"

abbreviation rests :: "('s \<Rightarrow> bool) \<Rightarrow> cid multiset \<Rightarrow> ('s, 'p) world \<Rightarrow> bool" where
  "rests P \<equiv> quiet P waits ok"

text \<open>The end of a segment of thread \<open>c\<close>.\<close>

definition seg_end :: "('s \<Rightarrow> bool) \<Rightarrow> cid multiset \<Rightarrow> cid \<Rightarrow> 's ending outcome \<Rightarrow> ('s, 'p) world \<Rightarrow> bool" where
  "seg_end P E c r w \<longleftrightarrow>
     (case r of
        Val (Suspended k) \<Rightarrow> rests P E w \<and> (\<forall>v. P (k v))
      | Val Finished \<Rightarrow> runs P E c w
      | Raise e \<Rightarrow> e \<in> faults
      | Stuck \<Rightarrow> True)"

lemma yield_ends:
  "rests P E w \<Longrightarrow> w_current w = Some c \<Longrightarrow> yield x k w = (r, w') \<Longrightarrow> (\<And>v. P (k v)) \<Longrightarrow> seg_end P E c r w'"
  by (auto simp: yield_current seg_end_def quiet_set_value)

lemma quiet_event:
  assumes "runs P E c w"
  shows "rests P E (insert_event t c x w)"
proof -
  have "wakeups waits (insert_event t c x w) = add_mset c (wakeups waits w)"
    by (simp add: wakeups_def insert_event_def mset_ev_push)
  then show ?thesis
    using assms single_add [of "E + wakeups waits w" w c]
    by (simp add: running_def quiet_def insert_event_def points_ok_def single_def valid_cid_def is_dead_def)
qed

lemma sleep_ends:
  assumes "runs P E c w" "sleep msec k w = (r, w')" "\<And>v. P (k v)"
  shows "seg_end P E c r w'"
proof -
  let ?w = "w\<lparr>w_ticks := Suc (w_ticks w)\<rparr>"
  have cur: "w_current w = Some c" using assms(1) by (simp add: running_def)
  have run: "runs P E c ?w" using assms(1) by (rule running_same) (simp_all add: wakeups_def)
  obtain t where y: "yield 0 k (insert_event t c 0 ?w) = (r, w')"
    using assms(2) cur by (simp add: sleep_def bindS_def me_def gettimeofday_def Let_def)
  show ?thesis
    by (rule yield_ends [OF quiet_event [OF run] _ y assms(3)]) (simp add: insert_event_def cur)
qed

lemma quiet_poller:
  assumes "runs P E c w" "ok p" "waits p \<subseteq># add_mset c (waits (w_poller w))"
  shows "rests P E (w\<lparr>w_poller := p\<rparr>)"
proof -
  let ?w = "w\<lparr>w_poller := p\<rparr>"
  have "single (add_mset c (E + wakeups waits w)) w"
    using assms(1) by (intro single_add) (auto simp: running_def)
  moreover have "E + wakeups waits ?w \<subseteq># add_mset c (E + wakeups waits w)"
    using subset_mset.add_left_mono [OF assms(3), of "E + entries (w_pending w) + mset (map ev_coro (w_events w))"]
    by (simp add: wakeups_def ac_simps)
  ultimately have "single (E + wakeups waits ?w) w" by (rule single_mono)
  then show ?thesis using assms(1,2) single_same [of _ w ?w]
    by (simp add: running_def quiet_def points_ok_def)
qed

lemma wait_ends:
  assumes "runs P E c w" "wait_for reg chk fd k h w = (r, w')" "P k" "\<And>e. P (h e)"
    and reg: "reg = vt_set_read vt \<or> reg = vt_set_write vt"
  shows "seg_end P E c r w'"
proof -
  have cur: "w_current w = Some c" using assms(1) by (simp add: running_def)
  obtain x p where x: "reg fd c (w_poller w) = (x, p)" by (rule prod.exhaust)
  show ?thesis
  proof (cases x)
    case (Val u)
    then have "ok p \<and> waits p \<subseteq># add_mset c (waits (w_poller w))"
      using x reg assms(1) set_read_waits [of fd c "w_poller w" p] set_write_waits [of fd c "w_poller w" p]
      by (auto simp: running_def)
    then have q: "rests P E (w\<lparr>w_poller := p\<rparr>)" using quiet_poller [OF assms(1)] by blast
    have y: "yield 0 (\<lambda>v. case chk v of None \<Rightarrow> k | Some e \<Rightarrow> h e) (w\<lparr>w_poller := p\<rparr>) = (r, w')"
      using assms(2) Val x cur by (simp add: wait_for_def bindS_def me_def set_wait_def)
    show ?thesis
      by (rule yield_ends [OF q _ y]) (use cur assms(3,4) in \<open>auto split: option.split\<close>)
  next
    case (Raise e)
    then show ?thesis using assms(2) x cur reg set_faults [of fd c "w_poller w" e p]
      by (auto simp: wait_for_def bindS_def me_def set_wait_def seg_end_def)
  next
    case Stuck
    then show ?thesis using assms(2) x cur
      by (auto simp: wait_for_def bindS_def me_def set_wait_def seg_end_def)
  qed
qed

lemma spawn_runs:
  assumes "runs P E c w" "P s"
  shows "runs P E c (spawned s v w)"
proof -
  have c: "valid_cid w c" "c \<notin># E + wakeups waits w" using assms(1) by (simp_all add: running_def)
  then have "c \<noteq> length (w_coros w)" by (simp add: valid_cid_def)
  with c have "c \<notin># E + wakeups waits (spawned s v w)" by (simp add: wakeups_spawned)
  then show ?thesis
    using assms quiet_spawned [OF running_quiet [OF assms(1)] assms(2), of v]
    by (simp add: running_def quiet_def spawned_def Let_def new_coro_def valid_cid_def is_dead_def nth_append)
qed

lemma seg_ends:
  "tidy P code \<Longrightarrow> P s \<Longrightarrow> runs P E c w \<Longrightarrow> run_seg n vt code s w = (r, w') \<Longrightarrow> seg_end P E c r w'"
proof (induction n arbitrary: s w rule: less_induct)
  case (less n)
  show ?case
  proof (cases n)
    case 0
    then show ?thesis using less.prems by (simp add: seg_end_def)
  next
    case (Suc m)
    have t: "tidy_at P code s" using less.prems(1,2) by (simp add: tidy_def)
    have IH: "seg_end P E c r w'" if "P s'" "runs P E c v" "run_seg m vt code s' v = (r, w')" for s' v
      using less.IH [of m s' v] Suc less.prems(1) that by simp
    have cur: "w_current w = Some c" using less.prems(3) by (simp add: running_def)
    note same = running_same [OF less.prems(3)]
    show ?thesis
    proof (cases "code s")
      case Finish
      then show ?thesis using less.prems(3,4) Suc by (auto simp: seg_end_def)
    next
      case Uncaught
      then show ?thesis using less.prems(3,4) Suc by (auto simp: seg_end_def)
    next
      case (Yield x k)
      then have "yield x k w = (r, w')" "\<And>v. P (k v)" using less.prems(4) Suc t by (simp_all add: tidy_at_def)
      then show ?thesis using yield_ends [OF running_quiet [OF less.prems(3)] cur] by blast
    next
      case (Sleep msec k)
      then have "sleep msec k w = (r, w')" "\<And>v. P (k v)" using less.prems(4) Suc t by (simp_all add: tidy_at_def)
      then show ?thesis using sleep_ends [OF less.prems(3)] by blast
    next
      case (Exit k)
      then have "run_seg m vt code k (exit_loop w) = (r, w')" "P k" using less.prems(4) Suc t by (simp_all add: tidy_at_def)
      then show ?thesis using IH [of k "exit_loop w"] same [of "exit_loop w"] by (simp add: exit_loop_def wakeups_def)
    next
      case (Gettime k)
      then have "run_seg m vt code (k (w_clock w (w_ticks w))) (w\<lparr>w_ticks := Suc (w_ticks w)\<rparr>) = (r, w')"
        "P (k (w_clock w (w_ticks w)))"
        using less.prems(4) Suc t by (simp_all add: tidy_at_def bindS_def gettimeofday_def)
      then show ?thesis using IH [of _ "w\<lparr>w_ticks := Suc (w_ticks w)\<rparr>"] same [of "w\<lparr>w_ticks := Suc (w_ticks w)\<rparr>"]
        by (simp add: wakeups_def)
    next
      case (Current k)
      then show ?thesis using less.prems(3,4) Suc t IH [of "k (w_current w)" w] by (simp add: tidy_at_def)
    next
      case (Wait_Read fd k h)
      then have "wait_for (vt_set_read vt) (vt_resumed vt ''wait_for_read'') fd k h w = (r, w')" "P k" "\<And>e. P (h e)"
        using less.prems(4) Suc t cur by (simp_all add: tidy_at_def)
      then show ?thesis using wait_ends [OF less.prems(3)] by blast
    next
      case (Wait_Write fd k h)
      then have "wait_for (vt_set_write vt) (vt_resumed vt ''wait_for_write'') fd k h w = (r, w')" "P k" "\<And>e. P (h e)"
        using less.prems(4) Suc t cur by (simp_all add: tidy_at_def)
      then show ?thesis using wait_ends [OF less.prems(3)] by blast
    next
      case (Spawn s' k)
      let ?d = "length (w_coros w)"
      have "P s'" and at: "schedules_new P ?d (code (k ?d))"
        using t Spawn by (simp_all add: tidy_at_def)
      then obtain x k' h where sch: "code (k ?d) = Schedule ?d x k' h" "P k'" "P s'"
        by (cases "code (k ?d)") (simp_all add: schedules_new_def)
      have run: "run_seg m vt code (k ?d) (snd (new_coro s' w)) = (r, w')"
        using less.prems(4) Suc Spawn by (simp add: bindS_Val [OF new_then_schedule(1)])
      show ?thesis
      proof (cases m)
        case 0
        then show ?thesis using run by (simp add: seg_end_def)
      next
        case m: (Suc j)
        have "run_seg j vt code k' (spawned s' x w) = (r, w')"
          using run m sch(1) new_then_schedule(2) [of w x s'] by simp
        then show ?thesis
          using less.IH [of j k'] Suc m less.prems(1) sch(2) spawn_runs [OF less.prems(3) sch(3), of x] by simp
      qed
    qed (use t in \<open>simp_all add: tidy_at_def\<close>)
  qed
qed

subsection \<open>Turns and rounds\<close>

lemma enter_runs:
  assumes "rests P (add_mset c E) w" "valid_cid w c" "\<not> is_dead w c"
  shows "runs P E c (enter c v w)"
proof -
  let ?w = "upd_coro c (\<lambda>co. co\<lparr>co_started := True, co_copy := None, co_value := v\<rparr>) w"
  have s: "single (add_mset c (E + wakeups waits w)) w" using assms(1) by (simp add: quiet_def)
  have "c \<notin># E + wakeups waits w" using singleD [OF s, of c] by (simp add: not_in_iff)
  moreover have "single (E + wakeups waits w) ?w"
    using single_mono [OF s] by (intro single_upd) simp_all
  moreover have "points_ok P ?w" using assms(1) by (intro points_ok_upd) (simp_all add: quiet_def)
  moreover have "is_dead ?w c = is_dead w c" using assms(2) by (intro dead_upd) simp_all
  ultimately show ?thesis
    using assms by (simp add: running_def enter_def quiet_def wakeups_def points_ok_def single_def valid_cid_def is_dead_def upd_coro_def)
qed

lemma suspend_rests:
  assumes "rests P E w" "\<And>v. P (k v)"
  shows "rests P E (suspend_as c k w)"
proof -
  have m: "w_coros (suspend_as c k w) = (w_coros w)[c := (w_coros w ! c)\<lparr>co_copy := Some k\<rparr>]"
    by (simp add: suspend_as_def upd_coro_def)
  have p: "points_ok P (suspend_as c k w)"
    unfolding points_ok_def
  proof
    fix co assume co: "co \<in> set (w_coros (suspend_as c k w))"
    show "P (co_start co) \<and> (\<forall>k v. co_copy co = Some k \<longrightarrow> P (k v))"
    proof (cases "co \<in> set (w_coros w)")
      case True
      then show ?thesis using assms(1) by (simp add: quiet_def points_ok_def)
    next
      case False
      then have "c < length (w_coros w)" "co = (w_coros w ! c)\<lparr>co_copy := Some k\<rparr>"
        using co set_update_subset_insert [of "w_coros w" c] list_update_beyond [of "w_coros w" c] unfolding m
        by (metis insert_iff not_less subsetD, blast)
      then show ?thesis using assms by (simp add: quiet_def points_ok_def)
    qed
  qed
  have "wakeups waits (suspend_as c k w) = wakeups waits w" by (simp add: suspend_as_def wakeups_def)
  moreover have "single M (suspend_as c k w)" if "single M w" for M
    using that by (rule single_cong) (auto simp: suspend_as_def valid_cid_def is_dead_def nth_upd_coro)
  ultimately show ?thesis using assms(1) p by (simp add: quiet_def suspend_as_def)
qed

lemma finish_rests:
  assumes "runs P E c w"
  shows "rests P E ((wrap_end c w)\<lparr>w_stack := None\<rparr>)"
proof -
  let ?w = "(wrap_end c w)\<lparr>w_stack := None\<rparr>"
  have "points_ok P (wrap_end c w)" using assms
    by (simp add: wrap_end_def set_value_def running_def points_ok_upd)
  moreover have "single (E + wakeups waits w) ?w"
    unfolding single_def
  proof
    fix d
    have "single (E + wakeups waits w) w" "c \<notin># E + wakeups waits w" using assms by (simp_all add: running_def)
    then show "count (E + wakeups waits w) d \<le> (if valid_cid ?w d \<and> \<not> is_dead ?w d then 1 else 0)"
      by (cases "d = c")
        (auto simp: single_def not_in_iff wrap_end_def set_value_def valid_cid_def is_dead_def nth_upd_coro split: if_splits)
  qed
  moreover have "wakeups waits ?w = wakeups waits w" by (simp add: wrap_end_def set_value_def wakeups_def)
  ultimately show ?thesis using assms by (simp add: running_def quiet_def points_ok_def wrap_end_def set_value_def)
qed

text \<open>What an operation of the scheduler must do: keep the count if it returns, and throw nothing of its own.\<close>

definition tame :: "('s \<Rightarrow> bool) \<Rightarrow> cid multiset \<Rightarrow> 'a outcome \<times> ('s, 'p) world \<Rightarrow> bool" where
  "tame P E x \<longleftrightarrow> (\<forall>a. fst x = Val a \<longrightarrow> rests P E (snd x)) \<and> (\<forall>e. fst x = Raise e \<longrightarrow> e \<in> insert no_memory faults)"

lemma turn_tame:
  assumes "tidy P code" "wf_world w" "rests P (add_mset c E) w"
  shows "tame P E (turn n vt code c v w)"
proof -
  have "single (add_mset c E + wakeups waits w) w" using assms(3) by (simp add: quiet_def)
  then have c: "valid_cid w c" "\<not> is_dead w c" using singleD [of _ w c] by auto
  obtain r w1 where seg: "run_seg n vt code (frames_of (w_coros w ! c) v) (enter c v w) = (r, w1)" by (rule prod.exhaust)
  have "points_ok P w" using assms(3) by (simp add: quiet_def)
  then have "P (frames_of (w_coros w ! c) v)"
    using c(1) by (auto simp: points_ok_def valid_cid_def frames_of_def split: option.split dest!: bspec [OF _ nth_mem])
  from seg_ends [OF assms(1) this enter_runs [OF assms(3) c] seg]
  have e: "seg_end P E c r w1" .
  show ?thesis
    using turn_alive [OF assms(2) c, of n vt code v] seg e suspend_rests [of P E w1] finish_rests [of P E c w1]
    by (cases r) (auto simp: tame_def seg_end_def no_memory_def split: ending.splits if_splits)
qed

lemma resume_all_tame:
  "tidy P code \<Longrightarrow> wf_world w \<Longrightarrow> rests P (entries es) w \<Longrightarrow> tame P {#} (resume_all n vt code es w)"
proof (induction es arbitrary: w)
  case Nil
  then show ?case by (simp add: tame_def)
next
  case (Cons e es)
  obtain c v where e: "e = (c, v)" by (rule prod.exhaust)
  obtain r w1 where t: "turn n vt code c v w = (r, w1)" by (rule prod.exhaust)
  have m: "tame P (entries es) (r, w1)"
    using turn_tame [OF Cons.prems(1,2), of c "entries es" n v] Cons.prems(3) t by (simp add: e)
  have "valid_cid w c" using Cons.prems(3) singleD [of _ w c] by (auto simp: e quiet_def)
  then have "tame P {#} (resume_all n vt code es w1)" if "r = Val ()"
    using Cons.IH [OF Cons.prems(1), of w1] turn_wf [OF Cons.prems(2), of c n vt code v w1] t m that
    unfolding tame_def by simp
  then show ?case using m t
    by (cases r) (auto simp: e resume_all_turn bindS_def tame_def simp del: resume_all.simps)
qed

lemma schedule_events_tame:
  assumes "wf_world w" "rests P {#} w"
  shows "\<exists>w'. schedule_events w = (Val (), w') \<and> wf_world w' \<and> rests P {#} w' \<and> w_staging w' = w_staging w"
proof -
  have s: "single (wakeups waits w) w" using assms(2) by (simp add: quiet_def)
  have "live_event w e" if "e \<in> set (w_events w)" for e
    using singleD [OF s, of "ev_coro e"] that by (auto simp: live_event_def wakeups_def)
  then obtain es q where x: "schedule_events w =
      (Val (), w\<lparr>w_ticks := Suc (w_ticks w), w_events := q, w_pending := w_pending w @ map event_entry es\<rparr>)"
    and m: "mset es = filter_mset (\<lambda>e. ev_t e < w_clock w (w_ticks w)) (mset (w_events w))"
      "mset q = filter_mset (\<lambda>e. \<not> ev_t e < w_clock w (w_ticks w)) (mset (w_events w))"
    using schedule_events_due [OF wf_worldD(1) [OF assms(1)]] by blast
  let ?w = "w\<lparr>w_ticks := Suc (w_ticks w), w_events := q, w_pending := w_pending w @ map event_entry es\<rparr>"
  have "entries (map event_entry es) + mset (map ev_coro q) = mset (map ev_coro (w_events w))"
  proof -
    have "entries (map event_entry es) = image_mset ev_coro (mset es)"
      by (induction es) (simp_all add: event_entry_def)
    then show ?thesis using multiset_partition [of "mset (w_events w)" "\<lambda>e. ev_t e < w_clock w (w_ticks w)"] m
      by (metis (no_types, lifting) image_mset_union mset_map)
  qed
  then have "{#} + wakeups waits ?w = {#} + wakeups waits w"
    by (simp add: wakeups_def ac_simps del: mset_map)
  then have "rests P {#} ?w" using quiet_same [OF assms(2), of ?w "{#}"] by simp
  then show ?thesis using x schedule_events_wf [OF x assms(1)] by (intro exI [of _ ?w]) simp
qed

text \<open>The states between two passes of the event loop.\<close>

definition idle :: "('s \<Rightarrow> bool) \<Rightarrow> ('s, 'p) world \<Rightarrow> bool" where
  "idle P w \<longleftrightarrow> wf_world w \<and> rests P {#} w \<and> w_staging w = []"

definition orderly :: "('s \<Rightarrow> bool) \<Rightarrow> 'a outcome \<times> ('s, 'p) world \<Rightarrow> bool" where
  "orderly P x \<longleftrightarrow> (\<forall>a. fst x = Val a \<longrightarrow> idle P (snd x)) \<and> (\<forall>e. fst x = Raise e \<longrightarrow> e \<in> insert no_memory faults)"

lemma run_rounds_orderly:
  "tidy P code \<Longrightarrow> idle P w \<Longrightarrow> orderly P (run_rounds r n vt code w)"
proof (induction r arbitrary: w)
  case 0
  then show ?case by (simp add: orderly_def)
next
  case (Suc r)
  show ?case
  proof (cases "w_pending w = []")
    case True
    then show ?thesis using Suc.prems by (simp add: orderly_def)
  next
    case False
    let ?w = "swap_lists w" and ?es = "w_pending w"
    have st: "w_staging ?w = ?es" "w_staging w = []" using Suc.prems(2) by (simp_all add: idle_def swap_lists_def)
    have wf: "wf_world ?w" using Suc.prems(2) by (simp add: idle_def swap_lists_wf)
    have rest: "rests P (entries ?es) ?w"
      using Suc.prems(2) quiet_same [of P waits ok "{#}" w ?w "entries ?es"] by (simp add: idle_def swap_lists_def wakeups_def)
    obtain x w2 where a: "resume_all n vt code ?es ?w = (x, w2)" by (rule prod.exhaust)
    have t: "tame P {#} (x, w2)" using resume_all_tame [OF Suc.prems(1) wf rest, of n] a by simp
    show ?thesis
    proof (cases x)
      case (Val u)
      have "\<forall>e \<in> set ?es. valid_cid ?w (fst e)"
        using wf_worldD(2) [OF wf] st by (auto simp: entries_ok_def list_all_iff valid_cid_def)
      then have "wf_world w2" using resume_all_wf [OF wf, of ?es n vt code w2] a Val by simp
      moreover have "rests P {#} (clear_staging w2)"
        using t Val quiet_same [of P waits ok "{#}" w2 "clear_staging w2" "{#}"]
        by (simp add: tame_def clear_staging_def wakeups_def)
      ultimately obtain w3 where w3: "schedule_events (clear_staging w2) = (Val (), w3)" "idle P w3"
        using schedule_events_tame [OF clear_staging_wf, of w2 P] by (auto simp: idle_def clear_staging_def)
      then show ?thesis using Suc.IH [OF Suc.prems(1) w3(2)] False a Val st by (simp add: Let_def bindS_def)
    qed (use t a False st in \<open>simp_all add: Let_def bindS_def orderly_def tame_def\<close>)
  qed
qed

lemma run_pending_orderly:
  assumes "tidy P code" "idle P w"
  shows "orderly P (run_pending r n vt code w)"
proof -
  obtain w1 where "schedule_events w = (Val (), w1)" "idle P w1"
    using schedule_events_tame [of w P] assms(2) by (auto simp: idle_def)
  then show ?thesis using run_rounds_orderly [OF assms(1)] by (simp add: run_pending_def bindS_def)
qed

lemma poll_orderly:
  assumes "idle P w" "vt_poll vt t w = (r, w')"
  shows "orderly P (r, w')"
proof -
  have ok: "ok (w_poller w)" and s: "single (wakeups waits w) w" using assms(1) by (simp_all add: idle_def quiet_def)
  have "e \<in> faults" if "r = Raise e" for e
    using poll_faults [OF assms(2) [unfolded that] ok] singleD [OF s] by (simp add: wakeups_def)
  moreover have "idle P w'" if "r = Val ()"
  proof -
    have o: "only_schedules w w'" using assms(2) by (rule poll_only_schedules)
    then have same: "w_coros w' = w_coros w" "w_events w' = w_events w" "w_staging w' = w_staging w"
      by (auto simp: only_schedules_def)
    have p: "ok (w_poller w')" "entries (w_pending w') + waits (w_poller w') \<subseteq># entries (w_pending w) + waits (w_poller w)"
      using poll_waits [OF assms(2) [unfolded that] ok] by simp_all
    have "wakeups waits w' \<subseteq># wakeups waits w"
      using subset_mset.add_left_mono [OF p(2), of "mset (map ev_coro (w_events w))"]
      by (simp add: wakeups_def same ac_simps)
    then have "single (wakeups waits w') w'" using single_mono [OF s] single_same same(1) by blast
    then show ?thesis
      using assms(1) p(1) same only_schedules_wf [OF o] by (simp add: idle_def quiet_def points_ok_def)
  qed
  ultimately show ?thesis by (simp add: orderly_def)
qed

lemma time_to_next_event_idle:
  assumes "idle P w"
  shows "\<exists>t w'. time_to_next_event w = (Val t, w') \<and> idle P w'"
proof -
  have "\<exists>t w'. time_to_next_event w = (Val t, w') \<and> (w' = w \<or> w' = w\<lparr>w_ticks := Suc (w_ticks w)\<rparr>)"
    by (cases "w_events w = []") (auto simp: time_to_next_event_def bindS_def gettimeofday_def Let_def)
  then obtain t w' where x: "time_to_next_event w = (Val t, w')" "w' = w \<or> w' = w\<lparr>w_ticks := Suc (w_ticks w)\<rparr>" by blast
  then have "w_coros w' = w_coros w" "w_poller w' = w_poller w" "wakeups waits w' = wakeups waits w" "w_staging w' = w_staging w"
    by (auto simp: wakeups_def)
  then have "idle P w'"
    using assms time_to_next_event_wf [OF x(1)] quiet_same [of P waits ok "{#}" w w' "{#}"] by (simp add: idle_def)
  then show ?thesis using x(1) by blast
qed

lemma event_loop_orderly:
  "tidy P code \<Longrightarrow> idle P w \<Longrightarrow> orderly P (event_loop l r n vt code w)"
proof (induction l arbitrary: w)
  case 0
  then show ?case by (simp add: orderly_def)
next
  case (Suc l)
  obtain x w1 where p: "run_pending r n vt code w = (x, w1)" by (rule prod.exhaust)
  have o: "orderly P (x, w1)" using run_pending_orderly [OF Suc.prems, of r n] p by simp
  show ?case
  proof (cases "w_exit w \<or> x \<noteq> Val () \<or> w_exit w1")
    case True
    then show ?thesis using o p Suc.prems(2) by (cases x) (auto simp: bindS_def orderly_def)
  next
    case False
    then have i: "idle P w1" using o by (simp add: orderly_def)
    obtain t w2 where t: "time_to_next_event w1 = (Val t, w2)" "idle P w2" using time_to_next_event_idle [OF i] by blast
    obtain y w3 where q: "vt_poll vt t w2 = (y, w3)" by (rule prod.exhaust)
    note o3 = poll_orderly [OF t(2) q]
    then have "orderly P (event_loop l r n vt code w3)" if "y = Val ()"
      using Suc.IH [OF Suc.prems(1)] that by (simp add: orderly_def)
    then show ?thesis using False p t q o3 by (cases y) (simp_all add: bindS_def orderly_def)
  qed
qed

end

end
