(* ===== verification/Std_Map.thy ===== *)
theory Std_Map
  imports Prelude
begin

section \<open>std::map as the pollers use it\<close>

text \<open>
  \<open>fd_map\<close> of \<open>event_poll.h\<close> and \<open>event_select.h\<close> is a \<open>std::map <int, coro *>\<close>: assignment through
  \<open>operator[]\<close>, \<open>find\<close>, \<open>erase\<close> of a found element, and iteration in the order of the keys.  It is
  kept as the list of its pairs in iteration order.  What the pollers rely on is the locale
  \<open>key_map\<close>.
\<close>

fun map_assign :: "'k::linorder \<Rightarrow> 'v \<Rightarrow> ('k \<times> 'v) list \<Rightarrow> ('k \<times> 'v) list" where
  "map_assign k v [] = [(k, v)]"
| "map_assign k v ((k', v') # m) =
     (if k < k' then (k, v) # (k', v') # m
      else if k = k' then (k, v) # m
      else (k', v') # map_assign k v m)"

definition map_erase :: "'k \<Rightarrow> ('k \<times> 'v) list \<Rightarrow> ('k \<times> 'v) list" where
  "map_erase k m = filter (\<lambda>e. fst e \<noteq> k) m"

definition map_ok :: "('k::linorder \<times> 'v) list \<Rightarrow> bool" where
  "map_ok m \<longleftrightarrow> sorted_wrt (<) (map fst m)"

locale key_map =
  fixes assign :: "'k \<Rightarrow> 'v \<Rightarrow> 'm \<Rightarrow> 'm"
    and find :: "'m \<Rightarrow> 'k \<Rightarrow> 'v option"
    and erase :: "'k \<Rightarrow> 'm \<Rightarrow> 'm"
    and vals :: "'m \<Rightarrow> 'v multiset"
    and ok :: "'m \<Rightarrow> bool"
  assumes find_assign: "find (assign k v m) k' = (if k' = k then Some v else find m k')"
    and find_erase: "find (erase k m) k' = (if k' = k then None else find m k')"
    and ok_assign: "ok m \<Longrightarrow> ok (assign k v m)"
    and ok_erase: "ok m \<Longrightarrow> ok (erase k m)"
    and vals_erase: "ok m \<Longrightarrow> find m k = Some v \<Longrightarrow> vals m = add_mset v (vals (erase k m))"
    and vals_assign: "ok m \<Longrightarrow> find m k = None \<Longrightarrow> vals (assign k v m) = add_mset v (vals m)"
    and erase_assign: "ok m \<Longrightarrow> erase k (assign k v m) = erase k m"
begin

lemma vals_replace:
  assumes "ok m"
  shows "vals (assign k v m) = add_mset v (vals (erase k (assign k v m)))"
  using assms by (intro vals_erase ok_assign) (simp_all add: find_assign)

lemma vals_take_back:
  "ok m \<Longrightarrow> find m k = None \<Longrightarrow> vals (erase k (assign k v m)) = vals m"
  using vals_replace [of m k v] vals_assign [of m k v] by simp

text \<open>An assignment to a key that is in use loses the old value.\<close>

lemma vals_assign_le:
  assumes "ok m"
  shows "vals (assign k v m) \<subseteq># add_mset v (vals m)"
proof (cases "find m k")
  case None
  then show ?thesis using vals_assign [OF assms] by simp
next
  case (Some u)
  then have "vals m = add_mset u (vals (erase k m))" using vals_erase [OF assms] by simp
  moreover have "vals (assign k v m) = add_mset v (vals (erase k m))"
    using vals_replace [OF assms, of k v] erase_assign [OF assms] by simp
  ultimately show ?thesis by simp
qed

end

lemma map_of_assign: "map_of (map_assign k v m) k' = (if k' = k then Some v else map_of m k')"
  by (induction k v m rule: map_assign.induct) auto

lemma keys_assign: "fst ` set (map_assign k v m) = insert k (fst ` set m)"
  by (induction k v m rule: map_assign.induct) auto

lemma map_ok_assign: "map_ok m \<Longrightarrow> map_ok (map_assign k v m)"
proof (induction k v m rule: map_assign.induct)
  case (2 k v k' v' m)
  have m: "map_ok m" "\<forall>x \<in> fst ` set m. k' < x" using "2.prems" by (auto simp: map_ok_def)
  have "\<forall>x \<in> fst ` set (map_assign k v m). k' < x" if "k' < k"
    using m(2) that by (simp add: keys_assign)
  then show ?case
    using "2.IH" m(1) "2.prems" by (auto simp: map_ok_def)
qed (simp add: map_ok_def)

lemma map_ok_erase: "map_ok m \<Longrightarrow> map_ok (map_erase k m)"
  by (induction m) (auto simp: map_ok_def map_erase_def)

lemma map_of_erase: "map_of (map_erase k m) k' = (if k' = k then None else map_of m k')"
  by (induction m) (auto simp: map_erase_def)

lemma map_erase_absent: "k \<notin> fst ` set m \<Longrightarrow> map_erase k m = m"
  by (induction m) (auto simp: map_erase_def)

lemma vals_map_erase:
  "map_ok m \<Longrightarrow> map_of m k = Some v \<Longrightarrow> mset (map snd m) = add_mset v (mset (map snd (map_erase k m)))"
proof (induction m)
  case Nil
  then show ?case by simp
next
  case (Cons e m)
  obtain k' v' where e: "e = (k', v')" by (rule prod.exhaust)
  have m: "map_ok m" and lt: "\<forall>x \<in> fst ` set m. k' < x" using Cons.prems(1) by (auto simp: map_ok_def e)
  show ?case
  proof (cases "k' = k")
    case True
    then have "map_erase k m = m" using lt by (intro map_erase_absent) blast
    then show ?thesis using True Cons.prems(2) by (simp add: e map_erase_def)
  next
    case False
    then show ?thesis using Cons.IH [OF m] Cons.prems(2) by (simp add: e map_erase_def)
  qed
qed

lemma vals_map_assign:
  "map_of m k = None \<Longrightarrow> mset (map snd (map_assign k v m)) = add_mset v (mset (map snd m))"
  by (induction k v m rule: map_assign.induct) (auto split: if_splits)

lemma map_erase_assign: "map_erase k (map_assign k v m) = map_erase k m"
  by (induction k v m rule: map_assign.induct) (auto simp: map_erase_def)

interpretation fdm: key_map map_assign map_of map_erase "\<lambda>m. mset (map snd m)" map_ok
  by unfold_locales (simp_all add: map_of_assign map_of_erase map_ok_assign map_ok_erase
      vals_map_erase vals_map_assign map_erase_assign del: mset_map)

end
