(* ===== verification/Poller_Select.thy ===== *)
theory Poller_Select
  imports Wakeups Std_Map
begin

section \<open>The select back end\<close>

text \<open>
  \<open>event_select.h\<close>.  \<open>select (2)\<close> is a parameter: \<open>S_Ready rs ws\<close> gives the members of the two
  descriptor sets that are left in them, \<open>S_Failed\<close> is a negative result.  The result is the number of
  descriptors left in both sets.  \<open>FD_SET\<close> of a descriptor outside \<open>0 .. FD_SETSIZE - 1\<close>
  writes outside the set.  Erasing from a \<open>std::map\<close> invalidates the iterator that is erased, and the
  loops of \<open>poll\<close> increment it afterwards: that is undefined, \<open>Erased_Iterator\<close>.
\<close>

datatype sreply = S_Ready "int list" "int list" | S_Failed

record select_poller =
  sp_read_set :: "(int \<times> cid) list"
  sp_write_set :: "(int \<times> cid) list"
  sp_replies :: "sreply list"
  sp_calls :: "(int \<times> int list \<times> int list \<times> int \<times> int) list"

definition FD_SETSIZE :: int where "FD_SETSIZE = 1024"

definition new_select_poller :: "sreply list \<Rightarrow> select_poller" where
  "new_select_poller replies = \<lparr>sp_read_set = [], sp_write_set = [], sp_replies = replies, sp_calls = []\<rparr>"

definition sp_set_wait_for_read :: "int \<Rightarrow> cid \<Rightarrow> (select_poller, unit) op" where
  "sp_set_wait_for_read fd c sp = (Val (), sp\<lparr>sp_read_set := map_assign fd c (sp_read_set sp)\<rparr>)"

definition sp_set_wait_for_write :: "int \<Rightarrow> cid \<Rightarrow> (select_poller, unit) op" where
  "sp_set_wait_for_write fd c sp = (Val (), sp\<lparr>sp_write_set := map_assign fd c (sp_write_set sp)\<rparr>)"

text \<open>A loop that fills a descriptor set and keeps the largest descriptor; \<open>None\<close> is a write outside it.\<close>

fun fd_fill :: "(int \<times> cid) list \<Rightarrow> int list \<Rightarrow> int \<Rightarrow> (int list \<times> int) option" where
  "fd_fill [] s max_fd = Some (s, max_fd)"
| "fd_fill ((fd, c) # m) s max_fd =
     (if 0 \<le> fd \<and> fd < FD_SETSIZE then fd_fill m (s @ [fd]) (max fd max_fd) else None)"

text \<open>
  One of the two inner \<open>for\<close> loops.  The first element whose descriptor is set is scheduled, counted
  and erased, and then the loop steps on from the erased iterator.
\<close>

fun sp_for :: "((int \<times> cid) list \<Rightarrow> select_poller \<Rightarrow> select_poller) \<Rightarrow> int list \<Rightarrow> (int \<times> cid) list
    \<Rightarrow> (int \<times> cid) list \<Rightarrow> (('s, select_poller) world, unit) op" where
  "sp_for store set_bits whole [] w = (Val (), w)"
| "sp_for store set_bits whole ((fd, c) # m) w =
     (if fd \<in> set set_bits then
        bindS (schedule c 0) (\<lambda>_ w'.
          (Raise (Undef Erased_Iterator), w'\<lparr>w_poller := store (map_erase fd whole) (w_poller w')\<rparr>)) w
      else sp_for store set_bits whole m w)"

definition sp_for_read :: "int list \<Rightarrow> (('s, select_poller) world, unit) op" where
  "sp_for_read r w =
     sp_for (\<lambda>m sp. sp\<lparr>sp_read_set := m\<rparr>) r (sp_read_set (w_poller w)) (sp_read_set (w_poller w)) w"

definition sp_for_write :: "int list \<Rightarrow> (('s, select_poller) world, unit) op" where
  "sp_for_write s w =
     sp_for (\<lambda>m sp. sp\<lparr>sp_write_set := m\<rparr>) s (sp_write_set (w_poller w)) (sp_write_set (w_poller w)) w"

text \<open>
  The \<open>while (n)\<close> loop.  A pass of it that comes to its end has found no descriptor that is set and has
  left \<open>n\<close> and the maps as they were, so the next pass does the same: the loop then never ends.
\<close>

definition sp_wake_loop :: "nat \<Rightarrow> int list \<Rightarrow> int list \<Rightarrow> (('s, select_poller) world, unit) op" where
  "sp_wake_loop n r s =
     (if n = 0 then ret ()
      else bindS (sp_for_read r) (\<lambda>_. bindS (sp_for_write s) (\<lambda>_ w. (Stuck, w))))"

definition sp_poll :: "int \<Rightarrow> (('s, select_poller) world, unit) op" where
  "sp_poll timeout w =
     (let sp = w_poller w in
      case fd_fill (sp_read_set sp) [] 0 of
        None \<Rightarrow> (Raise (Undef Out_Of_Bounds), w)
      | Some (r, max_r) \<Rightarrow>
          (case fd_fill (sp_write_set sp) [] max_r of
             None \<Rightarrow> (Raise (Undef Out_Of_Bounds), w)
           | Some (s, max_fd) \<Rightarrow>
               (case sp_replies sp of
                  [] \<Rightarrow> (Stuck, w)
                | x # xs \<Rightarrow>
                    (let w1 = w\<lparr>w_poller := sp\<lparr>sp_replies := xs, sp_calls := sp_calls sp @
                           [(max_fd + 1, r, s, timeout sdiv 1000000, timeout smod 1000000)]\<rparr>\<rparr>
                     in case x of
                          S_Failed \<Rightarrow> (Val (), w1)
                        | S_Ready r' s' \<Rightarrow> sp_wake_loop (length r' + length s') r' s' w1))))"

definition sp_vtable :: "('s, select_poller) vtable" where
  "sp_vtable = \<lparr>vt_set_read = sp_set_wait_for_read, vt_set_write = sp_set_wait_for_write,
     vt_resumed = (\<lambda>fn v. None), vt_poll = sp_poll\<rparr>"

subsection \<open>It is a poller\<close>

lemma sp_for_only: "sp_for store bits whole m w = (x, w') \<Longrightarrow> only_schedules w w'"
proof (induction store bits whole m w rule: sp_for.induct)
  case (2 store bits whole fd c m w)
  obtain y w1 where s: "schedule c 0 w = (y, w1)" by (rule prod.exhaust)
  have o: "only_schedules w w1" using s by (rule only_schedules_schedule)
  then have "only_schedules w (w1\<lparr>w_poller := p\<rparr>)" for p
    using only_schedules_set_poller by (rule only_schedules_trans)
  then show ?case using 2 s o by (cases y) (auto simp: bindS_def split: if_splits)
qed (simp add: only_schedules_refl)

lemma sp_wake_loop_only:
  assumes "sp_wake_loop n r s w = (x, w')"
  shows "only_schedules w w'"
proof -
  obtain y w1 where a: "sp_for_read r w = (y, w1)" by (rule prod.exhaust)
  obtain z w2 where b: "sp_for_write s w1 = (z, w2)" by (rule prod.exhaust)
  have "only_schedules w w1" using a by (auto simp: sp_for_read_def dest: sp_for_only)
  moreover have "only_schedules w1 w2" using b by (auto simp: sp_for_write_def dest: sp_for_only)
  ultimately show ?thesis
    using assms a b only_schedules_trans only_schedules_refl
    by (cases y; cases z) (auto simp: sp_wake_loop_def bindS_def split: if_splits)
qed

lemma sp_for_strip: "sp_for store bits whole m (strip w) = strip_out (sp_for store bits whole m w)"
proof (induction store bits whole m w rule: sp_for.induct)
  case (2 store bits whole fd c m w)
  let ?f = "\<lambda>_ w'. (Raise (Undef Erased_Iterator) :: unit outcome, w'\<lparr>w_poller := store (map_erase fd whole) (w_poller w')\<rparr>)"
  have "bindS (schedule c 0) ?f (strip w) = strip_out (bindS (schedule c 0) ?f w)"
    by (rule blindD) (intro blind_bindS blind_basic, simp add: blind_def strip_update_fields)
  with 2 show ?case by simp
qed simp

lemma blind_sp_wake_loop: "blind (sp_wake_loop n r s)"
  unfolding sp_wake_loop_def
  by (cases "n = 0") (auto simp: sp_for_read_def sp_for_write_def sp_for_strip blind_def
      intro!: blind_bindS [THEN blindD])

interpretation sp: poller sp_vtable
proof unfold_locales
  fix t and w w' :: "('a, select_poller) world" and x
  assume "vt_poll sp_vtable t w = (x, w')"
  then show "only_schedules w w'"
    by (auto simp: sp_vtable_def sp_poll_def Let_def only_schedules_refl only_schedules_set_poller
        split: option.splits list.splits sreply.splits
        dest!: sp_wake_loop_only only_schedules_poller)
next
  fix t
  show "blind (vt_poll (sp_vtable :: ('a, select_poller) vtable) t)"
    by (rule blindI)
      (simp add: sp_vtable_def sp_poll_def Let_def strip_update_fields blindD [OF blind_sp_wake_loop]
        split: option.split list.split sreply.split)
qed

definition sp_waiting :: "select_poller \<Rightarrow> cid multiset" where
  "sp_waiting sp = mset (map snd (sp_read_set sp)) + mset (map snd (sp_write_set sp))"

definition sp_maps_ok :: "select_poller \<Rightarrow> bool" where
  "sp_maps_ok sp \<longleftrightarrow> map_ok (sp_read_set sp) \<and> map_ok (sp_write_set sp)"

lemma sp_for_ends:
  assumes "\<And>fd c. (fd, c) \<in> set m \<Longrightarrow> valid_cid w c \<and> \<not> is_dead w c"
  shows "sp_for store bits whole m w = (Val (), w) \<or> fst (sp_for store bits whole m w) = Raise (Undef Erased_Iterator)"
  using assms by (induction store bits whole m w rule: sp_for.induct) (auto simp: schedule_def bindS_def)

lemma sp_wake_loop_ends:
  assumes "\<And>c. c \<in># sp_waiting (w_poller w) \<Longrightarrow> valid_cid w c \<and> \<not> is_dead w c"
  shows "fst (sp_wake_loop n r s w) \<in> {Val (), Raise (Undef Erased_Iterator), Stuck}"
proof -
  have m: "valid_cid w c \<and> \<not> is_dead w c"
    if "(fd, c) \<in> set (sp_read_set (w_poller w)) \<or> (fd, c) \<in> set (sp_write_set (w_poller w))" for fd c
  proof -
    have "c \<in># sp_waiting (w_poller w)" using that by (force simp: sp_waiting_def)
    then show ?thesis by (rule assms)
  qed
  have r: "sp_for_read r w = (Val (), w) \<or> fst (sp_for_read r w) = Raise (Undef Erased_Iterator)"
    unfolding sp_for_read_def by (rule sp_for_ends) (use m in blast)
  have s: "sp_for_write s w = (Val (), w) \<or> fst (sp_for_write s w) = Raise (Undef Erased_Iterator)"
    unfolding sp_for_write_def by (rule sp_for_ends) (use m in blast)
  show ?thesis using r s by (auto simp: sp_wake_loop_def bindS_def split: prod.splits outcome.splits)
qed

lemma sp_wake_loop_Val: "sp_wake_loop n r s w = (Val (), w') \<Longrightarrow> w' = w"
  by (auto simp: sp_wake_loop_def bindS_def split: if_splits prod.splits outcome.splits)

interpretation sp: waking_poller sp_vtable sp_waiting sp_maps_ok "{Undef Out_Of_Bounds, Undef Erased_Iterator}"
proof unfold_locales
  fix fd c and p p' :: select_poller
  note le = fdm.vals_assign_le [of _ fd c, unfolded mset_map]
  show "sp_maps_ok p' \<and> sp_waiting p' \<subseteq># add_mset c (sp_waiting p)"
    if "vt_set_read (sp_vtable :: ('a, select_poller) vtable) fd c p = (Val (), p')" "sp_maps_ok p"
    using that le [of "sp_read_set p"]
    by (auto simp: sp_vtable_def sp_set_wait_for_read_def sp_maps_ok_def sp_waiting_def map_ok_assign
        dest: subset_mset.add_right_mono)
  show "sp_maps_ok p' \<and> sp_waiting p' \<subseteq># add_mset c (sp_waiting p)"
    if "vt_set_write (sp_vtable :: ('a, select_poller) vtable) fd c p = (Val (), p')" "sp_maps_ok p"
    using that le [of "sp_write_set p"]
    by (auto simp: sp_vtable_def sp_set_wait_for_write_def sp_maps_ok_def sp_waiting_def map_ok_assign
        dest: subset_mset.add_left_mono)
next
  fix fd c e and p p' :: select_poller
  assume "vt_set_read (sp_vtable :: ('a, select_poller) vtable) fd c p = (Raise e, p')
      \<or> vt_set_write (sp_vtable :: ('a, select_poller) vtable) fd c p = (Raise e, p')"
  then show "e \<in> {Undef Out_Of_Bounds, Undef Erased_Iterator}"
    by (simp add: sp_vtable_def sp_set_wait_for_read_def sp_set_wait_for_write_def)
next
  fix t and w w' :: "('a, select_poller) world"
  assume "vt_poll sp_vtable t w = (Val (), w')" "sp_maps_ok (w_poller w)"
  then show "sp_maps_ok (w_poller w') \<and>
      entries (w_pending w') + sp_waiting (w_poller w') \<subseteq># entries (w_pending w) + sp_waiting (w_poller w)"
    by (auto simp: sp_vtable_def sp_poll_def Let_def sp_maps_ok_def sp_waiting_def
        split: option.splits list.splits sreply.splits dest!: sp_wake_loop_Val)
next
  fix t e and w w' :: "('a, select_poller) world"
  assume p: "vt_poll sp_vtable t w = (Raise e, w')"
    and live: "\<And>c. c \<in># sp_waiting (w_poller w) \<Longrightarrow> valid_cid w c \<and> \<not> is_dead w c"
  define B :: "unit outcome set" where "B = {Val (), Stuck, Raise (Undef Out_Of_Bounds), Raise (Undef Erased_Iterator)}"
  then have b: "Val () \<in> B" "Stuck \<in> B" "Raise (Undef Out_Of_Bounds) \<in> B" by simp_all
  have e: "fst (sp_wake_loop n r s (w\<lparr>w_poller := sp\<rparr>)) \<in> B"
    if "sp_read_set sp = sp_read_set (w_poller w)" "sp_write_set sp = sp_write_set (w_poller w)" for n r s sp
  proof -
    have "valid_cid (w\<lparr>w_poller := sp\<rparr>) c \<and> \<not> is_dead (w\<lparr>w_poller := sp\<rparr>) c" if "c \<in># sp_waiting sp" for c
      using live [of c] that \<open>sp_read_set sp = _\<close> \<open>sp_write_set sp = _\<close> by (simp add: sp_waiting_def valid_cid_def is_dead_def)
    then show ?thesis using sp_wake_loop_ends [of "w\<lparr>w_poller := sp\<rparr>" n r s] by (auto simp: B_def)
  qed
  have "fst (sp_poll t w) \<in> B"
    by (simp add: sp_poll_def Let_def b e split: option.split list.split sreply.split)
  then show "e \<in> {Undef Out_Of_Bounds, Undef Erased_Iterator}" using p by (simp add: sp_vtable_def B_def)
qed

subsection \<open>What it does\<close>

lemma fd_fill_Some:
  "\<forall>e \<in> set m. 0 \<le> fst e \<and> fst e < FD_SETSIZE \<Longrightarrow>
   fd_fill m s k = Some (s @ map fst m, fold max (map fst m) k)"
  by (induction m arbitrary: s k) auto

lemma sp_for_none: "\<forall>e \<in> set m. fst e \<notin> set bits \<Longrightarrow> sp_for store bits whole m w = (Val (), w)"
  by (induction m) auto

lemma sp_for_first:
  assumes "\<forall>e \<in> set m1. fst e \<notin> set bits" "fd \<in> set bits" "valid_cid w c" "\<not> is_dead w c"
  shows "sp_for store bits whole (m1 @ (fd, c) # m2) w =
    (Raise (Undef Erased_Iterator),
     w\<lparr>w_pending := w_pending w @ [(c, 0)], w_poller := store (map_erase fd whole) (w_poller w)\<rparr>)"
  using assms by (induction m1) (auto simp: schedule_def bindS_def)

text \<open>The descriptors a poller may pass to \<open>FD_SET\<close>.\<close>

definition fds_in_range :: "select_poller \<Rightarrow> bool" where
  "fds_in_range sp \<longleftrightarrow>
     (\<forall>e \<in> set (sp_read_set sp) \<union> set (sp_write_set sp). 0 \<le> fst e \<and> fst e < FD_SETSIZE)"

text \<open>
  C37: with no descriptor ready the call returns and nobody is woken; \<open>select (2)\<close> was asked for exactly
  the descriptors in the two maps, with the largest of them plus one.  As soon as one reader is ready,
  its coroutine is scheduled and erased from the map, and the loop goes on from the erased iterator.
\<close>

theorem select_uses_erased_iterator:
  assumes "fds_in_range (w_poller w)" "sp_replies (w_poller w) = S_Ready rs ss # xs"
  shows "(rs = [] \<longrightarrow> ss = [] \<longrightarrow>
      (\<exists>sp. sp_poll t w = (Val (), w\<lparr>w_poller := sp\<rparr>)
        \<and> sp_read_set sp = sp_read_set (w_poller w) \<and> sp_write_set sp = sp_write_set (w_poller w)
        \<and> last (sp_calls sp) =
            (fold max (map fst (sp_write_set sp)) (fold max (map fst (sp_read_set sp)) 0) + 1,
             map fst (sp_read_set sp), map fst (sp_write_set sp), t sdiv 1000000, t smod 1000000)))
    \<and> (\<forall>m1 fd c m2. sp_read_set (w_poller w) = m1 @ (fd, c) # m2 \<longrightarrow> fd \<in> set rs \<longrightarrow>
        (\<forall>e \<in> set m1. fst e \<notin> set rs) \<longrightarrow> valid_cid w c \<longrightarrow> \<not> is_dead w c \<longrightarrow>
        (\<exists>w'. sp_poll t w = (Raise (Undef Erased_Iterator), w')
          \<and> w_pending w' = w_pending w @ [(c, 0)]
          \<and> sp_read_set (w_poller w') = map_erase fd (sp_read_set (w_poller w))))"
proof -
  let ?sp = "w_poller w"
  let ?r = "map fst (sp_read_set ?sp)" and ?s = "map fst (sp_write_set ?sp)"
  let ?m = "fold max ?s (fold max ?r 0)"
  let ?asked = "?sp\<lparr>sp_replies := xs, sp_calls := sp_calls ?sp @ [(?m + 1, ?r, ?s, t sdiv 1000000, t smod 1000000)]\<rparr>"
  let ?w1 = "w\<lparr>w_poller := ?asked\<rparr>"
  have "fd_fill (sp_read_set ?sp) [] 0 = Some (?r, fold max ?r 0)"
    "fd_fill (sp_write_set ?sp) [] (fold max ?r 0) = Some (?s, ?m)"
    using assms(1) by (auto simp: fds_in_range_def fd_fill_Some)
  then have p: "sp_poll t w = sp_wake_loop (length rs + length ss) rs ss ?w1"
    using assms(2) by (simp add: sp_poll_def Let_def)
  have none: "rs = [] \<Longrightarrow> ss = [] \<Longrightarrow> sp_poll t w = (Val (), ?w1)" using p by (simp add: sp_wake_loop_def)
  have ready: "\<exists>w'. sp_poll t w = (Raise (Undef Erased_Iterator), w')
          \<and> w_pending w' = w_pending w @ [(c, 0)]
          \<and> sp_read_set (w_poller w') = map_erase fd (sp_read_set ?sp)"
    if "sp_read_set ?sp = m1 @ (fd, c) # m2" "fd \<in> set rs" "\<forall>e \<in> set m1. fst e \<notin> set rs"
      "valid_cid w c" "\<not> is_dead w c" for m1 fd c m2
  proof -
    have "valid_cid ?w1 c" "\<not> is_dead ?w1 c" using that(4,5) by (simp_all add: valid_cid_def is_dead_def)
    note f = sp_for_first [OF that(3,2) this]
    have "sp_for_read rs ?w1 = (Raise (Undef Erased_Iterator),
        ?w1\<lparr>w_pending := w_pending w @ [(c, 0)],
           w_poller := ?asked\<lparr>sp_read_set := map_erase fd (sp_read_set ?sp)\<rparr>\<rparr>)"
      using f [of "\<lambda>m sp. sp\<lparr>sp_read_set := m\<rparr>" "sp_read_set ?sp" m2] that(1) by (simp add: sp_for_read_def)
    moreover have "rs \<noteq> []" using that(2) by auto
    ultimately show ?thesis using p by (simp add: sp_wake_loop_def bindS_def)
  qed
  show ?thesis
    using none ready by (intro conjI allI impI) (rule exI [of _ ?asked], simp, blast)
qed

theorem select_uses_erased_iterator_witness:
  "let w = ex_world \<lparr>sp_read_set = [(3, 0)], sp_write_set = [(5, 1)], sp_replies = [S_Ready [3] []], sp_calls = []\<rparr>
   in fst (sp_poll 0 w) = Raise (Undef Erased_Iterator)"
proof -
  let ?w = "ex_world \<lparr>sp_read_set = [(3, 0)], sp_write_set = [(5, 1)], sp_replies = [S_Ready [3] []], sp_calls = []\<rparr>"
  have p: "w_poller ?w = \<lparr>sp_read_set = [(3, 0)], sp_write_set = [(5, 1)], sp_replies = [S_Ready [3] []], sp_calls = []\<rparr>"
    by simp
  have "fds_in_range (w_poller ?w)" "sp_replies (w_poller ?w) = S_Ready [3] [] # []"
    "sp_read_set (w_poller ?w) = [] @ (3, 0) # []" unfolding p by (simp_all add: fds_in_range_def FD_SETSIZE_def)
  from conjunct2 [OF select_uses_erased_iterator [OF this(1,2), of 0], rule_format, OF this(3)]
  have "\<exists>w'. sp_poll 0 ?w = (Raise (Undef Erased_Iterator), w')"
    by (auto simp: ex_world_coros)
  then show ?thesis by (auto simp: Let_def)
qed

end
