(* ===== verification/Poller_Poll.thy ===== *)
theory Poller_Poll
  imports Wakeups Std_Map
begin

unbundle bit_operations_syntax

section \<open>The poll back end\<close>

text \<open>
  \<open>event_poll.h\<close>.  The two maps hold the coroutines that wait, \<open>pp_poll_set\<close> is the array of
  \<open>struct pollfd\<close> the constructor allocates (with whatever contents).  What the system call answers is a
  parameter: \<open>P_Ready revs\<close> gives the \<open>revents\<close> of the entries passed, and its result is the number of
  entries whose \<open>revents\<close> is not zero, as \<open>poll(2)\<close> documents; \<open>P_Failed\<close> is a negative result.
  \<open>pp_calls\<close> records the descriptors, events and timeout of the calls.
\<close>

type_synonym fd_map = "(int \<times> cid) list"

record pollfd =
  pfd_fd :: int
  pfd_events :: "16 word"
  pfd_revents :: "16 word"

definition POLLIN :: "16 word" where "POLLIN = 0x0001"
definition POLLOUT :: "16 word" where "POLLOUT = 0x0004"

datatype preply = P_Ready "16 word list" | P_Failed

record poll_poller =
  pp_read_set :: fd_map
  pp_write_set :: fd_map
  pp_poll_set :: "pollfd list"
  pp_replies :: "preply list"
  pp_calls :: "((int \<times> 16 word) list \<times> int) list"

definition new_poll_poller :: "pollfd list \<Rightarrow> preply list \<Rightarrow> poll_poller" where
  "new_poll_poller arr replies =
     \<lparr>pp_read_set = [], pp_write_set = [], pp_poll_set = arr, pp_replies = replies, pp_calls = []\<rparr>"

definition pp_set_wait_for_read :: "int \<Rightarrow> cid \<Rightarrow> (poll_poller, unit) op" where
  "pp_set_wait_for_read fd c pp = (Val (), pp\<lparr>pp_read_set := map_assign fd c (pp_read_set pp)\<rparr>)"

definition pp_set_wait_for_write :: "int \<Rightarrow> cid \<Rightarrow> (poll_poller, unit) op" where
  "pp_set_wait_for_write fd c pp = (Val (), pp\<lparr>pp_write_set := map_assign fd c (pp_write_set pp)\<rparr>)"

text \<open>The two loops that fill the array from the back; \<open>None\<close> is a write past its end.\<close>

fun fill_slots :: "16 word \<Rightarrow> fd_map \<Rightarrow> nat \<Rightarrow> pollfd list \<Rightarrow> (nat \<times> pollfd list) option" where
  "fill_slots b [] j arr = Some (j, arr)"
| "fill_slots b ((fd, c) # m) j arr =
     (let j' = j - 1 in
      if j' < length arr
      then fill_slots b m j'
             (arr[j' := (arr ! j')\<lparr>pfd_fd := fd, pfd_events := pfd_events (arr ! j') OR b\<rparr>])
      else None)"

definition pp_count :: "poll_poller \<Rightarrow> nat" where
  "pp_count pp = length (pp_read_set pp) + length (pp_write_set pp)"

definition pp_fill :: "poll_poller \<Rightarrow> pollfd list option" where
  "pp_fill pp =
     (case fill_slots POLLIN (pp_read_set pp) (pp_count pp) (pp_poll_set pp) of
        None \<Rightarrow> None
      | Some (j, arr) \<Rightarrow> map_option snd (fill_slots POLLOUT (pp_write_set pp) j arr))"

text \<open>What the kernel writes: the \<open>revents\<close> of the first \<open>count\<close> entries; and what it returns.\<close>

fun set_revents :: "nat \<Rightarrow> 16 word list \<Rightarrow> pollfd list \<Rightarrow> pollfd list" where
  "set_revents 0 revs arr = arr"
| "set_revents (Suc n) revs [] = []"
| "set_revents (Suc n) [] (p # arr) = p\<lparr>pfd_revents := 0\<rparr> # set_revents n [] arr"
| "set_revents (Suc n) (r # revs) (p # arr) = p\<lparr>pfd_revents := r\<rparr> # set_revents n revs arr"

definition ready_count :: "pollfd list \<Rightarrow> nat" where
  "ready_count ps = length (filter (\<lambda>p. pfd_revents p \<noteq> 0) ps)"

definition upd_pp :: "(poll_poller \<Rightarrow> poll_poller) \<Rightarrow> ('s, poll_poller) world \<Rightarrow> ('s, poll_poller) world" where
  "upd_pp f w = w\<lparr>w_poller := f (w_poller w)\<rparr>"

text \<open>The body of the last loop, for one entry of the array.\<close>

definition pp_wake :: "pollfd \<Rightarrow> (('s, poll_poller) world, unit) op" where
  "pp_wake p w =
     (if pfd_revents p AND POLLIN \<noteq> 0 then
        (case map_of (pp_read_set (w_poller w)) (pfd_fd p) of
           Some c \<Rightarrow> bindS (schedule c 0)
             (\<lambda>_ w'. (Val (), upd_pp (\<lambda>pp. pp\<lparr>pp_read_set := map_erase (pfd_fd p) (pp_read_set pp)\<rparr>) w')) w
         | None \<Rightarrow> (Val (), w))
      else if pfd_revents p AND POLLOUT \<noteq> 0 then
        (case map_of (pp_write_set (w_poller w)) (pfd_fd p) of
           Some c \<Rightarrow> bindS (schedule c 0)
             (\<lambda>_ w'. (Val (), upd_pp (\<lambda>pp. pp\<lparr>pp_write_set := map_erase (pfd_fd p) (pp_write_set pp)\<rparr>) w')) w
         | None \<Rightarrow> (Val (), w))
      else (Val (), w))"

text \<open>\<open>for (j = 0; ((j < count) && poll_result--); j++)\<close>\<close>

fun pp_wake_loop :: "pollfd list \<Rightarrow> nat \<Rightarrow> (('s, poll_poller) world, unit) op" where
  "pp_wake_loop [] poll_result = ret ()"
| "pp_wake_loop (p # ps) 0 = ret ()"
| "pp_wake_loop (p # ps) (Suc n) = bindS (pp_wake p) (\<lambda>_. pp_wake_loop ps n)"

definition pp_poll :: "int \<Rightarrow> (('s, poll_poller) world, unit) op" where
  "pp_poll timeout w =
     (let pp = w_poller w; count = pp_count pp in
      case pp_fill pp of
        None \<Rightarrow> (Raise (Undef Out_Of_Bounds), w)
      | Some arr \<Rightarrow>
          (case pp_replies pp of
             [] \<Rightarrow> (Stuck, upd_pp (\<lambda>pp. pp\<lparr>pp_poll_set := arr\<rparr>) w)
           | r # rs \<Rightarrow>
               (let call = (map (\<lambda>p. (pfd_fd p, pfd_events p)) (take count arr), timeout sdiv 1000);
                    logged = (\<lambda>arr pp. pp\<lparr>pp_poll_set := arr, pp_replies := rs,
                                pp_calls := pp_calls pp @ [call]\<rparr>)
                in case r of
                     P_Failed \<Rightarrow> (Val (), upd_pp (logged arr) w)
                   | P_Ready revs \<Rightarrow>
                       (let arr' = set_revents count revs arr; ps = take count arr'
                        in pp_wake_loop ps (ready_count ps) (upd_pp (logged arr') w)))))"

definition pp_vtable :: "('s, poll_poller) vtable" where
  "pp_vtable = \<lparr>vt_set_read = pp_set_wait_for_read, vt_set_write = pp_set_wait_for_write,
     vt_resumed = (\<lambda>fn v. None), vt_poll = pp_poll\<rparr>"

subsection \<open>It is a poller\<close>

lemma upd_pp_only: "only_schedules w w' \<Longrightarrow> only_schedules w (upd_pp f w')"
  unfolding only_schedules_def upd_pp_def
proof (elim exE conjE)
  fix es p
  assume "w' = w\<lparr>w_pending := w_pending w @ es, w_poller := p\<rparr>"
    and e: "\<forall>e \<in> set es. valid_cid w (fst e) \<and> \<not> is_dead w (fst e)"
  then have "w'\<lparr>w_poller := f (w_poller w')\<rparr> = w\<lparr>w_pending := w_pending w @ es, w_poller := f p\<rparr>" by simp
  with e show "\<exists>es p. w'\<lparr>w_poller := f (w_poller w')\<rparr> = w\<lparr>w_pending := w_pending w @ es, w_poller := p\<rparr>
      \<and> (\<forall>e \<in> set es. valid_cid w (fst e) \<and> \<not> is_dead w (fst e))"
    by blast
qed

lemma only_upd_pp: "only_schedules (upd_pp f w) w' \<Longrightarrow> only_schedules w w'"
  unfolding upd_pp_def by (rule only_schedules_poller)

lemma pp_wake_only: "pp_wake p w = (x, w') \<Longrightarrow> only_schedules w w'"
  by (auto simp: pp_wake_def bindS_def only_schedules_refl split: if_splits option.splits prod.splits
      outcome.splits dest!: only_schedules_schedule intro: upd_pp_only)

lemma pp_wake_loop_only: "pp_wake_loop ps n w = (x, w') \<Longrightarrow> only_schedules w w'"
proof (induction ps n arbitrary: w rule: pp_wake_loop.induct)
  case (3 p ps n)
  obtain y w1 where k: "pp_wake p w = (y, w1)" by (rule prod.exhaust)
  show ?case
  proof (cases y)
    case (Val a)
    then show ?thesis using "3.prems" "3.IH" [of w1] pp_wake_only [OF k] k only_schedules_trans
      by (simp add: bindS_def) blast
  qed (use "3.prems" pp_wake_only [OF k] k in \<open>simp_all add: bindS_def\<close>)
qed (simp_all add: only_schedules_refl)

lemma strip_upd_pp [simp]: "upd_pp f (strip w) = strip (upd_pp f w)"
  by (simp add: upd_pp_def strip_update_fields)

lemma blind_pp_wake: "blind (pp_wake p)"
proof (rule blindI)
  fix w :: "('a, poll_poller) world"
  have b: "blind (bindS (schedule c 0) (\<lambda>_ w'. (Val (), upd_pp f w')))" for c and f :: "poll_poller \<Rightarrow> poll_poller"
    by (intro blind_bindS blind_basic) (simp add: blind_def)
  show "pp_wake p (strip w) = strip_out (pp_wake p w)"
    by (simp add: pp_wake_def blindD [OF b] split: option.split)
qed

lemma blind_pp_wake_loop: "blind (pp_wake_loop ps n)"
  by (induction ps n rule: pp_wake_loop.induct) (auto simp: ret_def [abs_def] blind_def [where m = "Pair _"] intro!: blind_bindS blind_pp_wake)

interpretation pp: poller pp_vtable
proof unfold_locales
  fix t and w w' :: "('a, poll_poller) world" and x
  assume "vt_poll pp_vtable t w = (x, w')"
  then show "only_schedules w w'"
    by (auto simp: pp_vtable_def pp_poll_def Let_def only_schedules_refl
        split: option.splits list.splits preply.splits intro: upd_pp_only
        dest!: pp_wake_loop_only only_upd_pp)
next
  fix t
  show "blind (vt_poll (pp_vtable :: ('a, poll_poller) vtable) t)"
    by (rule blindI)
      (simp add: pp_vtable_def pp_poll_def Let_def blindD [OF blind_pp_wake_loop]
        split: option.split list.split preply.split)
qed

subsection \<open>Filling the array\<close>

lemma fill_slots_Some:
  "length m \<le> j \<Longrightarrow> j \<le> length arr \<Longrightarrow>
   \<exists>arr'. fill_slots b m j arr = Some (j - length m, arr') \<and> length arr' = length arr
     \<and> (\<forall>i < length m. arr' ! (j - 1 - i) =
          (arr ! (j - 1 - i))\<lparr>pfd_fd := fst (m ! i), pfd_events := pfd_events (arr ! (j - 1 - i)) OR b\<rparr>)
     \<and> (\<forall>i < length arr. i < j - length m \<or> j \<le> i \<longrightarrow> arr' ! i = arr ! i)"
proof (induction m arbitrary: j arr)
  case Nil
  then show ?case by simp
next
  case (Cons e m)
  obtain fd c where e: "e = (fd, c)" by (rule prod.exhaust)
  let ?p = "(arr ! (j - 1))\<lparr>pfd_fd := fd, pfd_events := pfd_events (arr ! (j - 1)) OR b\<rparr>"
  let ?arr = "arr[j - 1 := ?p]"
  have j: "0 < j" "j - 1 < length arr" "length m \<le> j - 1" "j - 1 \<le> length ?arr"
    using Cons.prems by auto
  obtain arr' where a: "fill_slots b m (j - 1) ?arr = Some (j - 1 - length m, arr')"
      "length arr' = length ?arr"
      "\<forall>i < length m. arr' ! (j - 1 - 1 - i) =
          (?arr ! (j - 1 - 1 - i))\<lparr>pfd_fd := fst (m ! i), pfd_events := pfd_events (?arr ! (j - 1 - 1 - i)) OR b\<rparr>"
      "\<forall>i < length ?arr. i < j - 1 - length m \<or> j - 1 \<le> i \<longrightarrow> arr' ! i = ?arr ! i"
    using Cons.IH [OF j(3,4)] by blast
  have slots: "arr' ! (j - 1 - i) =
      (arr ! (j - 1 - i))\<lparr>pfd_fd := fst ((e # m) ! i), pfd_events := pfd_events (arr ! (j - 1 - i)) OR b\<rparr>"
    if "i < length (e # m)" for i
  proof (cases i)
    case 0
    then show ?thesis using a(4) j by (simp add: e)
  next
    case (Suc k)
    then have "j - 1 - i = j - 1 - 1 - k" "j - 1 - 1 - k \<noteq> j - 1" using that Cons.prems(1) by auto
    then show ?thesis using a(3) Suc that by simp
  qed
  have "fill_slots b (e # m) j arr = Some (j - length (e # m), arr')" using a(1) j by (simp add: e Let_def)
  moreover have "\<forall>i < length arr. i < j - length (e # m) \<or> j \<le> i \<longrightarrow> arr' ! i = arr ! i"
    using a(4) j by (auto simp: nth_list_update)
  ultimately show ?case using slots a(2) by auto
qed

lemma fill_slots_None: "m \<noteq> [] \<Longrightarrow> length arr < j \<Longrightarrow> fill_slots b m j arr = None"
  by (cases m) (auto simp: Let_def)

lemma pp_fill_Some:
  assumes "pp_count pp \<le> length (pp_poll_set pp)"
  shows "\<exists>arr. pp_fill pp = Some arr \<and> length arr = length (pp_poll_set pp)
    \<and> (\<forall>i < length (pp_read_set pp). let k = pp_count pp - 1 - i in
          arr ! k = (pp_poll_set pp ! k)\<lparr>pfd_fd := fst (pp_read_set pp ! i),
                        pfd_events := pfd_events (pp_poll_set pp ! k) OR POLLIN\<rparr>)
    \<and> (\<forall>i < length (pp_write_set pp). let k = length (pp_write_set pp) - 1 - i in
          arr ! k = (pp_poll_set pp ! k)\<lparr>pfd_fd := fst (pp_write_set pp ! i),
                        pfd_events := pfd_events (pp_poll_set pp ! k) OR POLLOUT\<rparr>)"
proof -
  let ?r = "pp_read_set pp" and ?w = "pp_write_set pp" and ?c = "pp_count pp" and ?s = "pp_poll_set pp"
  have c: "?c = length ?r + length ?w" by (simp add: pp_count_def)
  obtain a1 where a1: "fill_slots POLLIN ?r ?c ?s = Some (?c - length ?r, a1)" "length a1 = length ?s"
      "\<forall>i < length ?r. a1 ! (?c - 1 - i) =
        (?s ! (?c - 1 - i))\<lparr>pfd_fd := fst (?r ! i), pfd_events := pfd_events (?s ! (?c - 1 - i)) OR POLLIN\<rparr>"
      "\<forall>i < length ?s. i < ?c - length ?r \<or> ?c \<le> i \<longrightarrow> a1 ! i = ?s ! i"
    using fill_slots_Some [OF _ assms, of ?r POLLIN] by (auto simp: c)
  have le: "length ?w \<le> length a1" using a1(2) assms c by simp
  obtain a2 where a2: "fill_slots POLLOUT ?w (length ?w) a1 = Some (length ?w - length ?w, a2)" "length a2 = length a1"
      "\<forall>i < length ?w. a2 ! (length ?w - 1 - i) =
        (a1 ! (length ?w - 1 - i))\<lparr>pfd_fd := fst (?w ! i), pfd_events := pfd_events (a1 ! (length ?w - 1 - i)) OR POLLOUT\<rparr>"
      "\<forall>i < length a1. i < length ?w - length ?w \<or> length ?w \<le> i \<longrightarrow> a2 ! i = a1 ! i"
    using fill_slots_Some [OF order_refl le, of POLLOUT] by blast
  have "pp_fill pp = Some a2" using a1(1) a2(1) by (simp add: pp_fill_def c)
  moreover have "a2 ! (?c - 1 - i) = a1 ! (?c - 1 - i)" if "i < length ?r" for i
    using a2(4) that le c a1(2) assms by simp
  moreover have "a1 ! (length ?w - 1 - i) = ?s ! (length ?w - 1 - i)" if "i < length ?w" for i
    using a1(4) that c assms by simp
  ultimately show ?thesis using a1(2,3) a2(2,3) by (simp add: Let_def)
qed

text \<open>
  \<open>poll\<close> gives every waiting descriptor an entry of the array of its own, the readers behind
  the writers, and asks for \<open>POLLIN\<close> or \<open>POLLOUT\<close> on it, as long as the array has a place for each;
  with one waiter more it writes past the end.  The requested events are added to whatever the entry
  asked for in earlier calls, as nothing ever clears \<open>events\<close>.
\<close>

theorem poll_set_layout:
  "(pp_fill pp = None \<longleftrightarrow> length (pp_poll_set pp) < pp_count pp)
   \<and> (\<forall>arr i. pp_fill pp = Some arr \<longrightarrow> i < length (pp_read_set pp) \<longrightarrow>
        (let k = pp_count pp - 1 - i in
         pfd_fd (arr ! k) = fst (pp_read_set pp ! i)
         \<and> pfd_events (arr ! k) = pfd_events (pp_poll_set pp ! k) OR POLLIN))
   \<and> (\<forall>arr i. pp_fill pp = Some arr \<longrightarrow> i < length (pp_write_set pp) \<longrightarrow>
        (let k = length (pp_write_set pp) - 1 - i in
         pfd_fd (arr ! k) = fst (pp_write_set pp ! i)
         \<and> pfd_events (arr ! k) = pfd_events (pp_poll_set pp ! k) OR POLLOUT))"
proof (cases "pp_count pp \<le> length (pp_poll_set pp)")
  case True
  then show ?thesis using pp_fill_Some [OF True] by (auto simp: Let_def)
next
  case False
  have "pp_fill pp = None"
  proof (cases "pp_read_set pp = []")
    case True
    then have "fill_slots POLLOUT (pp_write_set pp) (pp_count pp) (pp_poll_set pp) = None"
      using False by (intro fill_slots_None) (auto simp: pp_count_def)
    with True show ?thesis by (simp add: pp_fill_def)
  next
    case r: False
    then have "fill_slots POLLIN (pp_read_set pp) (pp_count pp) (pp_poll_set pp) = None"
      using False by (intro fill_slots_None) auto
    then show ?thesis by (simp add: pp_fill_def)
  qed
  then show ?thesis using False by simp
qed

theorem poll_set_layout_witness:
  "map pfd_fd (the (pp_fill \<lparr>pp_read_set = [(3, 0)], pp_write_set = [(5, 1)],
      pp_poll_set = replicate 4 \<lparr>pfd_fd = 0, pfd_events = 0, pfd_revents = 0\<rparr>, pp_replies = [], pp_calls = []\<rparr>)) ! 1 = 3"
proof -
  let ?pp = "\<lparr>pp_read_set = [(3, 0)], pp_write_set = [(5, 1)],
      pp_poll_set = replicate 4 \<lparr>pfd_fd = 0, pfd_events = 0, pfd_revents = 0\<rparr>, pp_replies = [], pp_calls = []\<rparr>"
  have "pp_fill ?pp \<noteq> None" using poll_set_layout [of ?pp] by (simp add: pp_count_def)
  then obtain arr where arr: "pp_fill ?pp = Some arr" by auto
  then have "pfd_fd (arr ! 1) = 3" using poll_set_layout [of ?pp] by (simp add: pp_count_def Let_def)
  moreover have "length arr = 4" using pp_fill_Some [of ?pp] arr by (simp add: pp_count_def)
  ultimately show ?thesis using arr by simp
qed

text \<open>A poller with an array of four entries, in which coroutine 0 waits to read from 3 and coroutine 1 to write to 5.\<close>

definition ex_pp :: "preply list \<Rightarrow> poll_poller" where
  "ex_pp replies = \<lparr>pp_read_set = [(3, 0)], pp_write_set = [(5, 1)],
     pp_poll_set = replicate 4 \<lparr>pfd_fd = 0, pfd_events = 0, pfd_revents = 0\<rparr>, pp_replies = replies, pp_calls = []\<rparr>"

lemma ex_pp_fields [simp]:
  "pp_read_set (ex_pp rs) = [(3, 0)]" "pp_write_set (ex_pp rs) = [(5, 1)]" "pp_replies (ex_pp rs) = rs"
  "length (pp_poll_set (ex_pp rs)) = 4" "pp_count (ex_pp rs) = 2"
  by (simp_all add: ex_pp_def pp_count_def)

subsection \<open>Waking\<close>

definition waiting :: "poll_poller \<Rightarrow> cid multiset" where
  "waiting pp = mset (map snd (pp_read_set pp)) + mset (map snd (pp_write_set pp))"

definition maps_ok :: "poll_poller \<Rightarrow> bool" where
  "maps_ok pp \<longleftrightarrow> map_ok (pp_read_set pp) \<and> map_ok (pp_write_set pp)"

definition moves_waiters :: "('s, poll_poller) world \<Rightarrow> ('s, poll_poller) world \<Rightarrow> bool" where
  "moves_waiters w w' \<longleftrightarrow> maps_ok (w_poller w') \<and>
     (\<exists>cs. w_pending w' = w_pending w @ map (\<lambda>c. (c, 0)) cs
        \<and> waiting (w_poller w) = mset cs + waiting (w_poller w'))"

lemma moves_waiters_refl: "maps_ok (w_poller w) \<Longrightarrow> moves_waiters w w"
  by (auto simp: moves_waiters_def intro: exI [of _ "[]"])

lemma moves_waiters_trans:
  assumes "moves_waiters w w1" "moves_waiters w1 w2"
  shows "moves_waiters w w2"
proof -
  obtain cs ds where "w_pending w1 = w_pending w @ map (\<lambda>c. (c, 0)) cs"
    "waiting (w_poller w) = mset cs + waiting (w_poller w1)"
    "w_pending w2 = w_pending w1 @ map (\<lambda>c. (c, 0)) ds"
    "waiting (w_poller w1) = mset ds + waiting (w_poller w2)"
    using assms by (auto simp: moves_waiters_def)
  then have "w_pending w2 = w_pending w @ map (\<lambda>c. (c, 0)) (cs @ ds)
      \<and> waiting (w_poller w) = mset (cs @ ds) + waiting (w_poller w2)"
    by (simp add: ac_simps)
  then show ?thesis using assms(2) unfolding moves_waiters_def by blast
qed

lemma pp_wake_moves:
  assumes "pp_wake p w = (Val (), w')" "maps_ok (w_poller w)"
  shows "moves_waiters w w'"
proof -
  note erase = fdm.vals_erase [of _ "pfd_fd p"]
  show ?thesis
    using assms erase [of "pp_read_set (w_poller w)"] erase [of "pp_write_set (w_poller w)"]
    by (auto simp: pp_wake_def bindS_def schedule_def moves_waiters_refl upd_pp_def moves_waiters_def
        waiting_def maps_ok_def map_ok_erase simp del: mset_map split: if_splits option.splits
        intro!: exI [of _ "[_]"])
qed

lemma pp_wake_loop_moves:
  "pp_wake_loop ps n w = (Val (), w') \<Longrightarrow> maps_ok (w_poller w) \<Longrightarrow> moves_waiters w w'"
proof (induction ps n arbitrary: w rule: pp_wake_loop.induct)
  case (3 p ps n)
  then obtain w1 where k: "pp_wake p w = (Val (), w1)" and l: "pp_wake_loop ps n w1 = (Val (), w')"
    by (auto simp: bindS_iffs)
  note m = pp_wake_moves [OF k "3.prems"(2)]
  then have "maps_ok (w_poller w1)" by (simp add: moves_waiters_def)
  from moves_waiters_trans [OF m "3.IH" [OF l this]] show ?case .
qed (simp_all add: moves_waiters_refl)

lemma pp_poll_moves:
  assumes "maps_ok (w_poller w)" "pp_poll t w = (Val (), w')"
  shows "moves_waiters w w'"
proof -
  have upd: "moves_waiters w w'" if "moves_waiters (upd_pp f w) w'"
    "waiting (f (w_poller w)) = waiting (w_poller w)" for f
    using that by (simp add: moves_waiters_def upd_pp_def)
  have refl: "moves_waiters w (upd_pp f w)" if "waiting (f (w_poller w)) = waiting (w_poller w)"
    "maps_ok (f (w_poller w))" for f
    using that by (auto simp: moves_waiters_def upd_pp_def intro: exI [of _ "[]"])
  show ?thesis
    using assms
    by (auto simp: pp_poll_def Let_def waiting_def maps_ok_def upd_pp_def [where w = w]
        split: option.splits list.splits preply.splits
        intro!: refl [unfolded upd_pp_def] upd [unfolded upd_pp_def] dest!: pp_wake_loop_moves)
qed

text \<open>
  C19: whatever \<open>poll (2)\<close> reports, each coroutine that waits is afterwards either pending, exactly
  once for each of its waits, or still waiting: no wait is dropped and none wakes twice.
\<close>

theorem poll_wakes_or_keeps_each_waiter:
  assumes "maps_ok (w_poller w)" "pp_poll t w = (Val (), w')"
  shows "maps_ok (w_poller w') \<and>
     (\<exists>cs. w_pending w' = w_pending w @ map (\<lambda>c. (c, 0)) cs
        \<and> waiting (w_poller w) = mset cs + waiting (w_poller w'))"
  using pp_poll_moves [OF assms] by (simp add: moves_waiters_def)

theorem poll_wakes_or_keeps_each_waiter_witness:
  "maps_ok (w_poller (snd (pp_poll 0 (ex_world (ex_pp [P_Ready [POLLOUT, 0]])))))
   \<and> w_pending (snd (pp_poll 0 (ex_world (ex_pp [P_Ready [POLLOUT, 0]])))) = [(0, 0), (1, 0), (1, 0)]"
proof
  let ?w = "ex_world (ex_pp [P_Ready [POLLOUT, 0]])"
  have "fst (pp_poll 0 ?w) = Val ()" by code_simp
  then have "pp_poll 0 ?w = (Val (), snd (pp_poll 0 ?w))" by (metis prod.collapse)
  moreover have "maps_ok (w_poller ?w)" by (simp add: maps_ok_def map_ok_def)
  ultimately show "maps_ok (w_poller (snd (pp_poll 0 ?w)))"
    using poll_wakes_or_keeps_each_waiter by blast
  show "w_pending (snd (pp_poll 0 ?w)) = [(0, 0), (1, 0), (1, 0)]" by code_simp
qed

subsection \<open>It wakes each waiter once\<close>

definition live_waiters :: "('s, poll_poller) world \<Rightarrow> bool" where
  "live_waiters w \<longleftrightarrow> (\<forall>c \<in># waiting (w_poller w). valid_cid w c \<and> \<not> is_dead w c)"

lemma waiting_map_of:
  "map_of (pp_read_set pp) fd = Some c \<Longrightarrow> c \<in># waiting pp"
  "map_of (pp_write_set pp) fd = Some c \<Longrightarrow> c \<in># waiting pp"
  by (auto simp: waiting_def dest!: map_of_SomeD intro: rev_image_eqI)

lemma pp_wake_returns: "live_waiters w \<Longrightarrow> \<exists>w'. pp_wake p w = (Val (), w')"
  using waiting_map_of [of "w_poller w" "pfd_fd p"]
  by (fastforce simp: pp_wake_def live_waiters_def bindS_def schedule_def split: option.split)

lemma moves_live:
  assumes "moves_waiters w w'" "only_schedules w w'" "live_waiters w"
  shows "live_waiters w'"
proof -
  have "w_coros w' = w_coros w" using assms(2) by (auto simp: only_schedules_def)
  moreover have "waiting (w_poller w') \<subseteq># waiting (w_poller w)"
    using assms(1) by (auto simp: moves_waiters_def)
  ultimately show ?thesis
    using assms(3) by (auto simp: live_waiters_def valid_cid_def is_dead_def dest: mset_subset_eqD)
qed

lemma pp_wake_loop_returns:
  "live_waiters w \<Longrightarrow> maps_ok (w_poller w) \<Longrightarrow> \<exists>w'. pp_wake_loop ps n w = (Val (), w')"
proof (induction ps n arbitrary: w rule: pp_wake_loop.induct)
  case (3 p ps n)
  obtain w1 where w1: "pp_wake p w = (Val (), w1)" using pp_wake_returns [OF "3.prems"(1)] by blast
  note m = pp_wake_moves [OF w1 "3.prems"(2)]
  have "live_waiters w1" using moves_live [OF m pp_wake_only [OF w1] "3.prems"(1)] .
  moreover have "maps_ok (w_poller w1)" using m by (simp add: moves_waiters_def)
  ultimately show ?case using "3.IH" w1 by (simp add: bindS_def)
qed simp_all

lemma pp_poll_faults:
  assumes "pp_poll t w = (Raise e, w')" "maps_ok (w_poller w)" "live_waiters w"
  shows "e = Undef Out_Of_Bounds"
proof -
  have "live_waiters (upd_pp f w)" "maps_ok (w_poller (upd_pp f w))"
    if "pp_read_set (f (w_poller w)) = pp_read_set (w_poller w)" "pp_write_set (f (w_poller w)) = pp_write_set (w_poller w)" for f
    using that assms(2,3) by (simp_all add: live_waiters_def waiting_def maps_ok_def upd_pp_def valid_cid_def is_dead_def)
  then have "fst (pp_wake_loop ps n (upd_pp f w)) = Val ()"
    if "pp_read_set (f (w_poller w)) = pp_read_set (w_poller w)" "pp_write_set (f (w_poller w)) = pp_write_set (w_poller w)" for f ps n
    using that pp_wake_loop_returns by (metis fst_conv)
  then have "fst (pp_poll t w) = Raise (Undef Out_Of_Bounds) \<or> (\<forall>e. fst (pp_poll t w) \<noteq> Raise e)"
    by (auto simp: pp_poll_def Let_def split: option.split list.split preply.split)
  then show ?thesis using assms(1) by auto
qed

interpretation pp: waking_poller pp_vtable waiting maps_ok "{Undef Out_Of_Bounds}"
proof unfold_locales
  fix fd c and p p' :: poll_poller
  note le = fdm.vals_assign_le [of _ fd c, unfolded mset_map]
  show "maps_ok p' \<and> waiting p' \<subseteq># add_mset c (waiting p)"
    if "vt_set_read (pp_vtable :: ('a, poll_poller) vtable) fd c p = (Val (), p')" "maps_ok p"
    using that le [of "pp_read_set p"]
    by (auto simp: pp_vtable_def pp_set_wait_for_read_def maps_ok_def waiting_def map_ok_assign
        dest: subset_mset.add_right_mono)
  show "maps_ok p' \<and> waiting p' \<subseteq># add_mset c (waiting p)"
    if "vt_set_write (pp_vtable :: ('a, poll_poller) vtable) fd c p = (Val (), p')" "maps_ok p"
    using that le [of "pp_write_set p"]
    by (auto simp: pp_vtable_def pp_set_wait_for_write_def maps_ok_def waiting_def map_ok_assign
        dest: subset_mset.add_left_mono)
next
  fix fd c e and p p' :: poll_poller
  assume "vt_set_read (pp_vtable :: ('a, poll_poller) vtable) fd c p = (Raise e, p')
      \<or> vt_set_write (pp_vtable :: ('a, poll_poller) vtable) fd c p = (Raise e, p')"
  then show "e \<in> {Undef Out_Of_Bounds}"
    by (simp add: pp_vtable_def pp_set_wait_for_read_def pp_set_wait_for_write_def)
next
  fix t and w w' :: "('a, poll_poller) world"
  assume "vt_poll pp_vtable t w = (Val (), w')" "maps_ok (w_poller w)"
  then have "moves_waiters w w'" by (intro pp_poll_moves) (simp_all add: pp_vtable_def)
  then obtain cs where m: "maps_ok (w_poller w')" "w_pending w' = w_pending w @ map (\<lambda>c. (c, 0)) cs"
    "waiting (w_poller w) = mset cs + waiting (w_poller w')"
    by (auto simp: moves_waiters_def)
  have "entries (map (\<lambda>c. (c, 0)) cs) = mset cs" by (induction cs) simp_all
  then show "maps_ok (w_poller w') \<and>
      entries (w_pending w') + waiting (w_poller w') \<subseteq># entries (w_pending w) + waiting (w_poller w)"
    using m by (simp add: ac_simps)
next
  fix t e and w w' :: "('a, poll_poller) world"
  assume "vt_poll pp_vtable t w = (Raise e, w')" "maps_ok (w_poller w)"
    "\<And>c. c \<in># waiting (w_poller w) \<Longrightarrow> valid_cid w c \<and> \<not> is_dead w c"
  then show "e \<in> {Undef Out_Of_Bounds}" using pp_poll_faults [of t w e w'] by (simp add: pp_vtable_def live_waiters_def)
qed

text \<open>
  the event loop on this poller never resumes a coroutine that has ended, and follows no wild pointer, if
  the threads are tidy: if each schedules a coroutine only right after it has created it.  All that it can throw is
  that there is no memory for a stack or no place in the array of \<open>poll\<close>; and when it returns, every living
  coroutine has at most one wake-up and a dead one none, as it was before.
\<close>

lemma poll_loop_resumes_no_dead:
  assumes "tidy P code" "wf_world w" "quiet P waiting maps_ok {#} w" "w_staging w = []"
    and "event_loop l r n pp_vtable code w = (x, w')"
  shows "(\<forall>e. x = Raise e \<longrightarrow> e = no_memory \<or> e = Undef Out_Of_Bounds)
    \<and> (x = Val () \<longrightarrow> wf_world w' \<and> quiet P waiting maps_ok {#} w' \<and> w_staging w' = [])"
  using pp.event_loop_orderly [OF assms(1), of w l r n] assms(2-5) by (auto simp: pp.idle_def pp.orderly_def)

subsection \<open>What it misses\<close>

lemma length_set_revents [simp]: "length (set_revents n revs arr) = length arr"
  by (induction n revs arr rule: set_revents.induct) auto

lemma revents_slots:
  "n \<le> length arr \<Longrightarrow> map pfd_revents (take n (set_revents n revs arr)) = take n (revs @ replicate n 0)"
proof (induction n revs arr rule: set_revents.induct)
  case (3 n p arr)
  then show ?case by simp
next
  case (4 n r revs p arr)
  then show ?case by (simp add: replicate_app_Cons_same flip: replicate_Suc)
qed auto

lemma fds_slots: "map pfd_fd (set_revents n revs arr) = map pfd_fd arr"
  by (induction n revs arr rule: set_revents.induct) auto

lemma pp_wake_none: "pfd_revents p = 0 \<Longrightarrow> pp_wake p w = (Val (), w)"
  by (simp add: pp_wake_def)

text \<open>
  C36: the last loop of \<open>poll\<close> counts \<open>poll_result\<close> down at every entry it looks at, and not at every
  ready one.  When one descriptor is ready and its entry is not the first, nobody is woken, and the
  coroutine that waits for it stays in its map.
\<close>

theorem poll_misses_ready_descriptor:
  assumes "pp_count (w_poller w) \<le> length (pp_poll_set (w_poller w))"
    and "pp_replies (w_poller w) = P_Ready (replicate m 0 @ [r]) # rs"
    and "0 < m" "m < pp_count (w_poller w)" "r \<noteq> 0"
  shows "\<exists>pp. pp_poll t w = (Val (), w\<lparr>w_poller := pp\<rparr>)
    \<and> pp_read_set pp = pp_read_set (w_poller w) \<and> pp_write_set pp = pp_write_set (w_poller w)"
proof -
  let ?c = "pp_count (w_poller w)" and ?revs = "replicate m 0 @ [r]"
  obtain arr where arr: "pp_fill (w_poller w) = Some arr" "length arr = length (pp_poll_set (w_poller w))"
    using pp_fill_Some [OF assms(1)] by blast
  let ?arr = "set_revents ?c ?revs arr"
  let ?ps = "take ?c ?arr"
  have revs: "map pfd_revents ?ps = take ?c (?revs @ replicate ?c 0)"
    using revents_slots [of ?c arr ?revs] arr(2) assms(1) by simp
  have "ready_count ?ps = length (filter (\<lambda>x. x \<noteq> 0) (map pfd_revents ?ps))"
    by (simp add: ready_count_def filter_map o_def)
  also have "take ?c (?revs @ replicate ?c 0) = ?revs @ replicate (?c - Suc m) 0"
    using less_imp_Suc_add [OF assms(4)] by (auto simp: min_def simp flip: replicate_Suc)
  then have "length (filter (\<lambda>x. x \<noteq> 0) (map pfd_revents ?ps)) = 1" using revs assms(5) by simp
  finally have rc: "ready_count ?ps = Suc 0" by simp
  obtain p ps where ps: "?ps = p # ps"
    using rc by (cases ?ps) (auto simp: ready_count_def)
  have "pfd_revents p = hd (map pfd_revents ?ps)" by (simp add: ps)
  also have "\<dots> = 0" using revs assms(3,4) by (simp add: hd_append hd_replicate)
  finally have "pp_wake_loop ?ps 1 v = (Val (), v)" for v :: "('a, poll_poller) world"
    by (cases ps) (simp_all add: ps bindS_def pp_wake_none)
  then show ?thesis using arr(1) assms(2) rc
    by (simp add: pp_poll_def Let_def upd_pp_def) (rule exI, rule conjI [OF refl], simp)
qed

theorem poll_misses_ready_descriptor_witness:
  "\<exists>pp. pp_poll 5000 (ex_world (ex_pp [P_Ready [0, POLLIN]])) =
      (Val (), (ex_world (ex_pp [P_Ready [0, POLLIN]]))\<lparr>w_poller := pp\<rparr>)
    \<and> pp_read_set pp = [(3, 0)] \<and> pp_write_set pp = [(5, 1)]"
  using poll_misses_ready_descriptor [of "ex_world (ex_pp [P_Ready [0, POLLIN]])" 1 POLLIN "[]" 5000]
  by (simp add: POLLIN_def)

text \<open>
  since \<open>events\<close> is never cleared, an entry that once asked for \<open>POLLOUT\<close> asks for it again when it
  serves a reader.  A socket is nearly always writable, so \<open>poll (2)\<close> returns at once; the reader is not
  in the write map, and \<open>poll\<close> goes back to its caller without having woken anybody or waited.
\<close>

theorem stale_events_defeat_poll:
  assumes "pp_read_set (w_poller w) = [(fd, c)]" "pp_write_set (w_poller w) = []"
    and "pp_poll_set (w_poller w) = p # arr" "pfd_events p AND POLLOUT = POLLOUT"
    and "pp_replies (w_poller w) = P_Ready [POLLOUT] # rs"
  shows "\<exists>pp. pp_poll t w = (Val (), w\<lparr>w_poller := pp\<rparr>)
    \<and> pp_read_set pp = [(fd, c)]
    \<and> last (pp_calls pp) = ([(fd, pfd_events p OR POLLIN)], t sdiv 1000)
    \<and> (pfd_events p OR POLLIN) AND POLLOUT = POLLOUT"
proof -
  let ?pp = "w_poller w"
  let ?p = "p\<lparr>pfd_fd := fd, pfd_events := pfd_events p OR POLLIN\<rparr>"
  let ?q = "?p\<lparr>pfd_revents := POLLOUT\<rparr>"
  let ?fin = "?pp\<lparr>pp_poll_set := ?q # arr, pp_replies := rs,
      pp_calls := pp_calls ?pp @ [([(fd, pfd_events p OR POLLIN)], t sdiv 1000)]\<rparr>"
  have bits: "POLLOUT AND POLLIN = (0 :: 16 word)" "POLLOUT AND POLLOUT \<noteq> (0 :: 16 word)" "POLLOUT \<noteq> (0 :: 16 word)"
    by (simp_all add: POLLIN_def POLLOUT_def)
  have count: "pp_count ?pp = Suc 0" using assms(1,2) by (simp add: pp_count_def)
  have fill: "pp_fill ?pp = Some (?p # arr)" using assms(1-3) by (simp add: pp_fill_def pp_count_def)
  have wake: "pp_wake ?q (w\<lparr>w_poller := ?fin\<rparr>) = (Val (), w\<lparr>w_poller := ?fin\<rparr>)"
    using assms(2) bits by (simp add: pp_wake_def)
  have "pp_poll t w = (Val (), w\<lparr>w_poller := ?fin\<rparr>)"
    using wake bits by (simp add: pp_poll_def Let_def count fill assms(5) upd_pp_def ready_count_def bindS_def)
  moreover have "(pfd_events p OR POLLIN) AND POLLOUT = POLLOUT"
    using assms(4) bits(1) by (simp add: bit.conj_disj_distrib and.commute)
  ultimately show ?thesis using assms(1) by (intro exI [of _ ?fin]) simp
qed

theorem stale_events_defeat_poll_witness:
  "let pp = (ex_pp [P_Ready [POLLOUT]])\<lparr>pp_write_set := [],
      pp_poll_set := [\<lparr>pfd_fd = 5, pfd_events = POLLOUT, pfd_revents = 0\<rparr>]\<rparr>
   in \<exists>qp. pp_poll 5000 (ex_world pp) = (Val (), (ex_world pp)\<lparr>w_poller := qp\<rparr>) \<and> pp_read_set qp = [(3, 0)]"
  using stale_events_defeat_poll [of "ex_world ((ex_pp [P_Ready [POLLOUT]])\<lparr>pp_write_set := [],
      pp_poll_set := [\<lparr>pfd_fd = 5, pfd_events = POLLOUT, pfd_revents = 0\<rparr>]\<rparr>)" 3 0 _ "[]" "[]" 5000]
  by (auto simp: Let_def)

subsection \<open>Everybody ready\<close>

definition wake_entry :: "int \<times> cid \<Rightarrow> pending_entry" where
  "wake_entry e = (snd e, 0)"

definition live_map :: "('s, poll_poller) world \<Rightarrow> fd_map \<Rightarrow> bool" where
  "live_map w m \<longleftrightarrow> (\<forall>e \<in> set m. valid_cid w (snd e) \<and> \<not> is_dead w (snd e))"

lemma map_of_last: "map_ok (m @ [(k, v)]) \<Longrightarrow> map_of (m @ [(k, v)]) k = Some v"
  by (induction m) (auto simp: map_ok_def)

lemma map_erase_last: "map_ok (m @ [(k, v)]) \<Longrightarrow> map_erase k (m @ [(k, v)]) = m"
  using map_erase_absent [of k m] by (auto simp: map_ok_def map_erase_def sorted_wrt_append)

definition wake_all_pp :: "fd_map \<Rightarrow> (poll_poller \<Rightarrow> poll_poller) \<Rightarrow> ('s, poll_poller) world \<Rightarrow> ('s, poll_poller) world" where
  "wake_all_pp m f w = upd_pp f (w\<lparr>w_pending := w_pending w @ map wake_entry (rev m)\<rparr>)"

lemma clear_empty:
  "pp_read_set pp = [] \<Longrightarrow> pp\<lparr>pp_read_set := []\<rparr> = pp"
  "pp_write_set pp = [] \<Longrightarrow> pp\<lparr>pp_write_set := []\<rparr> = pp"
  by (cases pp, simp)+

lemma readers_loop:
  assumes "map_ok m" "pp_read_set (w_poller w) = m" "live_map w m"
    and "map pfd_fd ps = map fst (rev m)" "\<forall>p \<in> set ps. pfd_revents p AND POLLIN \<noteq> 0"
  shows "pp_wake_loop (ps @ qs) (length m + k) w =
    pp_wake_loop qs k (wake_all_pp m (\<lambda>pp. pp\<lparr>pp_read_set := []\<rparr>) w)"
  using assms
proof (induction m arbitrary: ps w rule: rev_induct)
  case Nil
  then show ?case by (simp add: wake_all_pp_def upd_pp_def clear_empty)
next
  case (snoc e m)
  obtain fd c where e: "e = (fd, c)" by (rule prod.exhaust)
  obtain p ps' where ps: "ps = p # ps'" "pfd_fd p = fd" "map pfd_fd ps' = map fst (rev m)"
    using snoc.prems(4) by (auto simp: e map_eq_Cons_conv)
  let ?w = "upd_pp (\<lambda>pp. pp\<lparr>pp_read_set := m\<rparr>) (w\<lparr>w_pending := w_pending w @ [(c, 0)]\<rparr>)"
  have m: "map_ok m" using snoc.prems(1) by (simp add: map_ok_def sorted_wrt_append)
  have live: "valid_cid w c" "\<not> is_dead w c" using snoc.prems(3) by (auto simp: live_map_def e)
  have "pp_wake p w = (Val (), ?w)"
    using snoc.prems(1,2,5) ps(1,2) live map_of_last [of m fd c] map_erase_last [of m fd c]
    by (simp add: pp_wake_def e bindS_def schedule_def upd_pp_def)
  moreover have "live_map ?w m" using snoc.prems(3) by (auto simp: live_map_def valid_cid_def is_dead_def upd_pp_def)
  then have "pp_wake_loop (ps' @ qs) (length m + k) ?w =
      pp_wake_loop qs k (wake_all_pp m (\<lambda>pp. pp\<lparr>pp_read_set := []\<rparr>) ?w)"
    using snoc.prems(5) ps by (intro snoc.IH m) (auto simp: upd_pp_def)
  moreover have "wake_all_pp m (\<lambda>pp. pp\<lparr>pp_read_set := []\<rparr>) ?w
      = wake_all_pp (m @ [e]) (\<lambda>pp. pp\<lparr>pp_read_set := []\<rparr>) w"
    by (simp add: wake_all_pp_def upd_pp_def e wake_entry_def)
  ultimately show ?case by (simp add: ps(1) bindS_def)
qed

lemma writers_loop:
  assumes "map_ok m" "pp_write_set (w_poller w) = m" "live_map w m"
    and "map pfd_fd ps = map fst (rev m)"
    and "\<forall>p \<in> set ps. pfd_revents p AND POLLIN = 0 \<and> pfd_revents p AND POLLOUT \<noteq> 0"
  shows "pp_wake_loop (ps @ qs) (length m + k) w =
    pp_wake_loop qs k (wake_all_pp m (\<lambda>pp. pp\<lparr>pp_write_set := []\<rparr>) w)"
  using assms
proof (induction m arbitrary: ps w rule: rev_induct)
  case Nil
  then show ?case by (simp add: wake_all_pp_def upd_pp_def clear_empty)
next
  case (snoc e m)
  obtain fd c where e: "e = (fd, c)" by (rule prod.exhaust)
  obtain p ps' where ps: "ps = p # ps'" "pfd_fd p = fd" "map pfd_fd ps' = map fst (rev m)"
    using snoc.prems(4) by (auto simp: e map_eq_Cons_conv)
  let ?w = "upd_pp (\<lambda>pp. pp\<lparr>pp_write_set := m\<rparr>) (w\<lparr>w_pending := w_pending w @ [(c, 0)]\<rparr>)"
  have m: "map_ok m" using snoc.prems(1) by (simp add: map_ok_def sorted_wrt_append)
  have live: "valid_cid w c" "\<not> is_dead w c" using snoc.prems(3) by (auto simp: live_map_def e)
  have "pp_wake p w = (Val (), ?w)"
    using snoc.prems(1,2,5) ps(1,2) live map_of_last [of m fd c] map_erase_last [of m fd c]
    by (simp add: pp_wake_def e bindS_def schedule_def upd_pp_def)
  moreover have "live_map ?w m" using snoc.prems(3) by (auto simp: live_map_def valid_cid_def is_dead_def upd_pp_def)
  then have "pp_wake_loop (ps' @ qs) (length m + k) ?w =
      pp_wake_loop qs k (wake_all_pp m (\<lambda>pp. pp\<lparr>pp_write_set := []\<rparr>) ?w)"
    using snoc.prems(5) ps by (intro snoc.IH m) (auto simp: upd_pp_def)
  moreover have "wake_all_pp m (\<lambda>pp. pp\<lparr>pp_write_set := []\<rparr>) ?w
      = wake_all_pp (m @ [e]) (\<lambda>pp. pp\<lparr>pp_write_set := []\<rparr>) w"
    by (simp add: wake_all_pp_def upd_pp_def e wake_entry_def)
  ultimately show ?case by (simp add: ps(1) bindS_def)
qed

lemma map_fds_fill:
  assumes "pp_fill pp = Some arr" "pp_count pp \<le> length (pp_poll_set pp)"
  shows "map pfd_fd (take (pp_count pp) arr) = map fst (rev (pp_write_set pp)) @ map fst (rev (pp_read_set pp))"
    and "length arr = length (pp_poll_set pp)"
proof -
  let ?r = "pp_read_set pp" and ?w = "pp_write_set pp" and ?c = "pp_count pp"
  have c: "?c = length ?r + length ?w" by (simp add: pp_count_def)
  note f = pp_fill_Some [OF assms(2)]
  show len: "length arr = length (pp_poll_set pp)" using f assms(1) by auto
  have r: "pfd_fd (arr ! (?c - 1 - i)) = fst (?r ! i)" if "i < length ?r" for i
    using f assms(1) that by (auto simp: Let_def)
  have w: "pfd_fd (arr ! (length ?w - 1 - i)) = fst (?w ! i)" if "i < length ?w" for i
    using f assms(1) that by (auto simp: Let_def)
  show "map pfd_fd (take ?c arr) = map fst (rev ?w) @ map fst (rev ?r)"
  proof (rule nth_equalityI)
    show "length (map pfd_fd (take ?c arr)) = length (map fst (rev ?w) @ map fst (rev ?r))"
      using len assms(2) c by simp
  next
    fix i assume "i < length (map pfd_fd (take ?c arr))"
    then have i: "i < ?c" "i < length arr" by auto
    show "map pfd_fd (take ?c arr) ! i = (map fst (rev ?w) @ map fst (rev ?r)) ! i"
    proof (cases "i < length ?w")
      case True
      then have "length ?w - 1 - i < length ?w" "length ?w - 1 - (length ?w - 1 - i) = i" by auto
      then show ?thesis using w [of "length ?w - 1 - i"] True i by (simp add: nth_append rev_nth)
    next
      case False
      then have "?c - 1 - i < length ?r" "?c - 1 - (?c - 1 - i) = i"
        "length ?r - Suc (i - length ?w) = ?c - 1 - i" using i c by auto
      then show ?thesis using r [of "?c - 1 - i"] False i c by (simp add: nth_append rev_nth)
    qed
  qed
qed

lemma slots_split:
  assumes "map pfd_fd ps = xs @ ys"
  shows "map pfd_fd (take (length xs) ps) = xs" "map pfd_fd (drop (length xs) ps) = ys"
  using assms by (simp_all flip: take_map drop_map)

text \<open>
  when every descriptor that is waited for is ready, \<open>poll\<close> schedules every waiting coroutine once
  for each of its waits, the writers before the readers, and empties both maps.
\<close>

theorem poll_wakes_all_when_all_ready:
  assumes "pp_count (w_poller w) \<le> length (pp_poll_set (w_poller w))" "maps_ok (w_poller w)"
    and "live_map w (pp_read_set (w_poller w))" "live_map w (pp_write_set (w_poller w))"
    and "pp_replies (w_poller w) =
      P_Ready (replicate (length (pp_write_set (w_poller w))) POLLOUT
        @ replicate (length (pp_read_set (w_poller w))) POLLIN) # rs"
  shows "\<exists>w'. pp_poll t w = (Val (), w')
    \<and> w_pending w' = w_pending w @ map wake_entry (rev (pp_write_set (w_poller w)))
        @ map wake_entry (rev (pp_read_set (w_poller w)))
    \<and> pp_read_set (w_poller w') = [] \<and> pp_write_set (w_poller w') = []"
proof -
  let ?pp = "w_poller w"
  let ?R = "pp_read_set ?pp" and ?W = "pp_write_set ?pp" and ?c = "pp_count ?pp"
  let ?revs = "replicate (length ?W) POLLOUT @ replicate (length ?R) POLLIN"
  have bits: "POLLOUT AND POLLIN = (0 :: 16 word)" "POLLOUT AND POLLOUT \<noteq> (0 :: 16 word)"
    "POLLIN AND POLLIN \<noteq> (0 :: 16 word)" "POLLIN \<noteq> (0 :: 16 word)" "POLLOUT \<noteq> (0 :: 16 word)"
    by (simp_all add: POLLIN_def POLLOUT_def)
  have c: "?c = length ?W + length ?R" by (simp add: pp_count_def)
  obtain arr where arr: "pp_fill ?pp = Some arr" using pp_fill_Some [OF assms(1)] by blast
  note fds = map_fds_fill [OF arr assms(1)]
  define ps where "ps = take ?c (set_revents ?c ?revs arr)"
  have pfds: "map pfd_fd ps = map fst (rev ?W) @ map fst (rev ?R)"
    using fds(1) by (simp add: ps_def fds_slots flip: take_map)
  have previ: "map pfd_revents ps = ?revs"
    using revents_slots [of ?c arr ?revs] fds(2) assms(1) c by (simp add: ps_def)
  let ?p1 = "take (length ?W) ps" and ?p2 = "drop (length ?W) ps"
  have f1: "map pfd_fd ?p1 = map fst (rev ?W)" and f2: "map pfd_fd ?p2 = map fst (rev ?R)"
    using slots_split [OF pfds] by simp_all
  have "map pfd_revents ?p1 = replicate (length ?W) POLLOUT" "map pfd_revents ?p2 = replicate (length ?R) POLLIN"
    using previ by (simp_all flip: take_map drop_map)
  then have r1: "\<forall>p \<in> set ?p1. pfd_revents p = POLLOUT" and r2: "\<forall>p \<in> set ?p2. pfd_revents p = POLLIN"
    by (metis image_eqI in_set_replicate list.set_map)+
  have rc: "ready_count ps = length ?W + (length ?R + 0)"
  proof -
    have "ready_count ps = length (filter (\<lambda>x. x \<noteq> 0) (map pfd_revents ps))"
      by (simp add: ready_count_def filter_map o_def)
    then show ?thesis using previ bits by (simp add: filter_replicate)
  qed
  obtain f where f: "pp_poll t w = pp_wake_loop ps (ready_count ps) (upd_pp f w)"
    and fs: "pp_read_set (f ?pp) = ?R" "pp_write_set (f ?pp) = ?W"
    using assms(5) arr by (simp add: pp_poll_def Let_def ps_def)
  let ?w1 = "wake_all_pp ?W (\<lambda>pp. pp\<lparr>pp_write_set := []\<rparr>) (upd_pp f w)"
  let ?w2 = "wake_all_pp ?R (\<lambda>pp. pp\<lparr>pp_read_set := []\<rparr>) ?w1"
  have "pp_wake_loop (?p1 @ ?p2) (length ?W + (length ?R + 0)) (upd_pp f w)
      = pp_wake_loop ?p2 (length ?R + 0) ?w1"
    using assms(2,4) f1 r1 bits fs
    by (intro writers_loop) (auto simp: maps_ok_def upd_pp_def live_map_def valid_cid_def is_dead_def)
  also have "\<dots> = pp_wake_loop (?p2 @ []) (length ?R + 0) ?w1" by simp
  also have "\<dots> = pp_wake_loop [] 0 ?w2"
    using assms(2,3) f2 r2 bits fs
    by (intro readers_loop) (auto simp: maps_ok_def upd_pp_def live_map_def valid_cid_def is_dead_def wake_all_pp_def)
  finally have "pp_poll t w = (Val (), ?w2)" using f rc by simp
  then show ?thesis using fs by (simp add: wake_all_pp_def upd_pp_def)
qed

theorem poll_wakes_all_when_all_ready_witness:
  "\<exists>w'. pp_poll 5000 (ex_world (ex_pp [P_Ready [POLLOUT, POLLIN]])) = (Val (), w')
    \<and> w_pending w' = [(0, 0), (1, 0), (1, 0), (0, 0)] \<and> pp_read_set (w_poller w') = []"
  using poll_wakes_all_when_all_ready [of "ex_world (ex_pp [P_Ready [POLLOUT, POLLIN]])" "[]" 5000]
  by (auto simp: maps_ok_def map_ok_def live_map_def wake_entry_def ex_world_coros
      ex_world_coros [unfolded One_nat_def])



end
