(* ===== verification/Kqueue_Kernel.thy ===== *)
theory Kqueue_Kernel
  imports Poller_Kqueue Wakeups
begin

section \<open>The kqueue back end on a kernel that keeps to its documentation\<close>

text \<open>
  In theory \<open>Poller_Kqueue\<close> the kernel may answer anything.  Here it is a kernel as \<open>kqueue (2)\<close> documents it: it keeps
  a list of registered events, a change for a registered identifier and filter replaces the old registration,
  what it reports are registered events with flags and data of its choice, at most as many as there is room
  for, and an event that was registered with \<open>EV_ONESHOT\<close>, as all are here, is deleted when it is reported.  Which events it
  reports in each call is the parameter \<open>hk_choices\<close>, a list of positions in its list; \<open>None\<close> is a call that
  fails.  The poller itself is \<open>kq_poll\<close>, as it stands.
\<close>

subsection \<open>The kernel\<close>

type_synonym selection = "(nat \<times> 16 word \<times> 32 word \<times> int) list"

record kernel_kqueue =
  hk_poller :: kqueue
  hk_notes :: "kevent list"
  hk_choices :: "selection option list"

definition apply_change :: "kevent \<Rightarrow> kevent list \<Rightarrow> kevent list" where
  "apply_change ke ns = filter (\<lambda>n. \<not> (ke_ident n = ke_ident ke \<and> ke_filter n = ke_filter ke)) ns @ [ke]"

fun deliver :: "selection \<Rightarrow> kevent list \<Rightarrow> kevent list \<times> kevent list" where
  "deliver [] ns = ([], ns)"
| "deliver ((i, flags, fflags, data) # sel) ns =
     (if i < length ns then
        (case deliver sel (take i ns @ drop (Suc i) ns) of (evs, rest) \<Rightarrow>
           ((ns ! i)\<lparr>ke_flags := flags, ke_fflags := fflags, ke_data := data\<rparr> # evs, rest))
      else deliver sel ns)"

definition with_poller :: "'q \<Rightarrow> ('s, 'p) world \<Rightarrow> ('s, 'q) world" where
  "with_poller q w =
     \<lparr>w_coros = w_coros w, w_pending = w_pending w, w_staging = w_staging w, w_current = w_current w, w_exit = w_exit w,
      w_events = w_events w, w_id_counter = w_id_counter w, w_stack = w_stack w, w_main_value = w_main_value w,
      w_clock = w_clock w, w_ticks = w_ticks w, w_malloc = w_malloc w, w_allocs = w_allocs w, w_poller = q\<rparr>"

definition hk_reply :: "kernel_kqueue \<Rightarrow> selection option \<Rightarrow> kreply \<times> kevent list" where
  "hk_reply s ch =
     (let ns = fold apply_change (kq_changes (hk_poller s)) (hk_notes s) in
      case ch of
        None \<Rightarrow> (K_Failed, ns)
      | Some sel \<Rightarrow> (case deliver (take (kq_output_max (hk_poller s)) sel) ns of (evs, rest) \<Rightarrow> (K_Events evs, rest)))"

definition hk_poll :: "int \<Rightarrow> (('s, kernel_kqueue) world, unit) op" where
  "hk_poll timeout w =
     (let s = w_poller w in
      case hk_choices s of
        [] \<Rightarrow> (Stuck, w)
      | ch # chs \<Rightarrow>
          (case hk_reply s ch of (reply, rest) \<Rightarrow>
             (case kq_poll timeout (with_poller ((hk_poller s)\<lparr>kq_replies := [reply]\<rparr>) w) of
                (r, w') \<Rightarrow> (r, with_poller \<lparr>hk_poller = w_poller w', hk_notes = rest, hk_choices = chs\<rparr> w'))))"

definition hk_set :: "(int \<Rightarrow> cid \<Rightarrow> (kqueue, unit) op) \<Rightarrow> int \<Rightarrow> cid \<Rightarrow> (kernel_kqueue, unit) op" where
  "hk_set reg fd c s = (case reg fd c (hk_poller s) of (r, kq) \<Rightarrow> (r, s\<lparr>hk_poller := kq\<rparr>))"

definition hk_vtable :: "('s, kernel_kqueue) vtable" where
  "hk_vtable = \<lparr>vt_set_read = hk_set kq_set_wait_for_read, vt_set_write = hk_set kq_set_wait_for_write,
     vt_resumed = kq_resumed, vt_poll = hk_poll\<rparr>"

definition new_kernel_kqueue :: "nat \<Rightarrow> nat \<Rightarrow> selection option list \<Rightarrow> kernel_kqueue" where
  "new_kernel_kqueue input_max output_max choices =
     \<lparr>hk_poller = kqueue_poller input_max output_max [], hk_notes = [], hk_choices = choices\<rparr>"

subsection \<open>Who is registered\<close>

definition cid_of :: "kevent \<Rightarrow> cid" where
  "cid_of ke = (case ke_udata ke of U_Coro c \<Rightarrow> c | U_Handler _ \<Rightarrow> 0)"

definition cids :: "kevent list \<Rightarrow> cid multiset" where
  "cids kes = mset (map cid_of kes)"

lemma cids_simps [simp]: "cids [] = {#}" "cids (ke # kes) = add_mset (cid_of ke) (cids kes)" "cids (xs @ ys) = cids xs + cids ys"
  by (simp_all add: cids_def)

lemma coro_udata_simps [simp]:
  "coro_udata []" "coro_udata (ke # kes) \<longleftrightarrow> (\<exists>c. ke_udata ke = U_Coro c) \<and> coro_udata kes"
  "coro_udata (xs @ ys) \<longleftrightarrow> coro_udata xs \<and> coro_udata ys"
  by (auto simp: coro_udata_def)

lemma cids_filter: "cids (filter Q kes) \<subseteq># cids kes"
  by (induction kes) (auto intro: subset_mset.order_trans [OF _ mset_subset_eq_add_right [of _ "{#_#}"], simplified])

lemma apply_change_cids: "cids (apply_change ke ns) \<subseteq># add_mset (cid_of ke) (cids ns)"
  using cids_filter by (simp add: apply_change_def)

lemma apply_change_typed: "coro_udata (ke # ns) \<Longrightarrow> coro_udata (apply_change ke ns)"
  by (auto simp: apply_change_def coro_udata_def)

lemma apply_changes:
  "coro_udata (kes @ ns) \<Longrightarrow>
   coro_udata (fold apply_change kes ns) \<and> cids (fold apply_change kes ns) \<subseteq># cids kes + cids ns"
proof (induction kes arbitrary: ns)
  case (Cons ke kes)
  have "coro_udata (kes @ apply_change ke ns)" using Cons.prems apply_change_typed [of ke ns] by simp
  note ih = Cons.IH [OF this]
  moreover have "cids kes + cids (apply_change ke ns) \<subseteq># cids kes + add_mset (cid_of ke) (cids ns)"
    by (rule subset_mset.add_left_mono [OF apply_change_cids])
  ultimately have "cids (fold apply_change kes (apply_change ke ns)) \<subseteq># cids kes + add_mset (cid_of ke) (cids ns)"
    by (blast intro: subset_mset.order_trans)
  then show ?case using ih by simp
qed simp

lemma deliver_cids:
  "coro_udata ns \<Longrightarrow> deliver sel ns = (evs, rest) \<Longrightarrow>
   coro_udata evs \<and> coro_udata rest \<and> cids ns = cids evs + cids rest"
proof (induction sel ns arbitrary: evs rest rule: deliver.induct)
  case (2 i flags fflags data sel ns)
  show ?case
  proof (cases "i < length ns")
    case True
    let ?ns = "take i ns @ drop (Suc i) ns"
    obtain evs' where d: "deliver sel ?ns = (evs', rest)"
      and evs: "evs = (ns ! i)\<lparr>ke_flags := flags, ke_fflags := fflags, ke_data := data\<rparr> # evs'"
      using "2.prems"(2) True by (auto split: prod.splits)
    have ns: "ns = take i ns @ (ns ! i) # drop (Suc i) ns" using True by (simp add: id_take_nth_drop)
    have u: "coro_udata ?ns" "\<exists>c. ke_udata (ns ! i) = U_Coro c"
      using "2.prems"(1) ns by (metis coro_udata_simps(2,3))+
    have "cids ns = add_mset (cid_of (ns ! i)) (cids ?ns)" by (subst ns) simp
    then show ?thesis using "2.IH" (1) [OF True u(1) d] u(2) evs by (simp add: cid_of_def)
  qed (use 2 in simp)
qed simp

lemma kq_wake_all_Val: "kq_wake_all kes w = (Val (), w') \<Longrightarrow> w_pending w' = w_pending w @ map kq_entry kes"
proof (induction kes arbitrary: w)
  case (Cons ke kes)
  then obtain w1 where k: "kq_wake ke w = (Val (), w1)" and r: "kq_wake_all kes w1 = (Val (), w')" by (auto simp: bindS_iffs)
  have "w_pending w1 = w_pending w @ [kq_entry ke]"
    using k by (auto simp: kq_wake_def schedule_def kq_entry_def split: udata.splits if_splits)
  then show ?case using Cons.IH [OF r] by simp
qed simp

lemma entries_kq_entry: "entries (map kq_entry kes) = cids kes"
  by (induction kes) (simp_all add: kq_entry_def cid_of_def)

subsection \<open>It is a poller\<close>

lemma with_poller_sel [simp]:
  "w_coros (with_poller q w) = w_coros w" "w_pending (with_poller q w) = w_pending w"
  "w_events (with_poller q w) = w_events w" "w_poller (with_poller q w) = q"
  "valid_cid (with_poller q w) c = valid_cid w c" "is_dead (with_poller q w) c = is_dead w c"
  by (simp_all add: with_poller_def valid_cid_def is_dead_def)

lemma only_schedules_with_poller:
  assumes "only_schedules (with_poller p w) w'"
  shows "only_schedules w (with_poller q w')"
proof -
  obtain es p' where "w' = (with_poller p w)\<lparr>w_pending := w_pending w @ es, w_poller := p'\<rparr>"
    "\<forall>e \<in> set es. valid_cid w (fst e) \<and> \<not> is_dead w (fst e)"
    using assms by (auto simp: only_schedules_def)
  then show ?thesis unfolding only_schedules_def by (intro exI [of _ es] exI [of _ q]) (simp add: with_poller_def)
qed

lemma strip_with_poller: "with_poller q (strip w) = strip (with_poller q w)"
  by (simp add: with_poller_def strip_def)

lemma hk_poll_Cons:
  "hk_choices (w_poller w) = ch # chs \<Longrightarrow> hk_reply (w_poller w) ch = (reply, rest) \<Longrightarrow>
   kq_poll t (with_poller ((hk_poller (w_poller w))\<lparr>kq_replies := [reply]\<rparr>) w) = (x, w1) \<Longrightarrow>
   hk_poll t w = (x, with_poller \<lparr>hk_poller = w_poller w1, hk_notes = rest, hk_choices = chs\<rparr> w1)"
  by (simp add: hk_poll_def Let_def)

lemma hk_poll_ends:
  assumes "hk_poll t w = (x, w')"
  obtains "hk_choices (w_poller w) = []" "x = Stuck" "w' = w"
  | ch chs reply rest w1 where "hk_reply (w_poller w) ch = (reply, rest)"
    "kq_poll t (with_poller ((hk_poller (w_poller w))\<lparr>kq_replies := [reply]\<rparr>) w) = (x, w1)"
    "w' = with_poller \<lparr>hk_poller = w_poller w1, hk_notes = rest, hk_choices = chs\<rparr> w1"
  using assms by (cases "hk_choices (w_poller w)") (auto simp: hk_poll_def Let_def split: prod.splits)

text \<open>\<open>kq_poll\<close> on one reply of the kernel.\<close>

lemma kq_poll_reply:
  assumes "kq_poll t (with_poller (kq\<lparr>kq_replies := [reply]\<rparr>) w) = (x, w1)"
  obtains kq' where "kq_changes kq' = []"
    "(case reply of K_Events kes \<Rightarrow> kq_wake_all kes (with_poller kq' w) | K_Failed \<Rightarrow> (Raise (OS_Error ''kevent'' (-1)), with_poller kq' w)) = (x, w1)"
proof
  let ?kq = "asked t (kq\<lparr>kq_replies := [reply]\<rparr>)"
  show "kq_changes ?kq = []" by (simp add: asked_def Let_def)
  have "(with_poller (kq\<lparr>kq_replies := [reply]\<rparr>) w)\<lparr>w_poller := ?kq\<rparr> = with_poller ?kq w" by (simp add: with_poller_def)
  then show "(case reply of K_Events kes \<Rightarrow> kq_wake_all kes (with_poller ?kq w)
      | K_Failed \<Rightarrow> (Raise (OS_Error ''kevent'' (-1)), with_poller ?kq w)) = (x, w1)"
    using assms by (cases reply) (auto simp: kq_poll_def bindS_def kevent_call_def asked_def Let_def)
qed

definition hk_events :: "kernel_kqueue \<Rightarrow> kevent list" where
  "hk_events s = hk_notes s @ kq_changes (hk_poller s)"

definition hk_waits :: "kernel_kqueue \<Rightarrow> cid multiset" where
  "hk_waits s = cids (hk_events s)"

definition hk_ok :: "kernel_kqueue \<Rightarrow> bool" where
  "hk_ok s \<longleftrightarrow> coro_udata (hk_events s)"

lemma hk_reply_waits:
  assumes "hk_ok s" "hk_reply s ch = (reply, rest)"
  shows "coro_udata rest"
    and "reply = K_Failed \<Longrightarrow> cids rest \<subseteq># hk_waits s"
    and "reply = K_Events kes \<Longrightarrow> coro_udata kes \<and> cids kes + cids rest \<subseteq># hk_waits s"
proof -
  let ?ns = "fold apply_change (kq_changes (hk_poller s)) (hk_notes s)"
  have "coro_udata (kq_changes (hk_poller s) @ hk_notes s)" using assms(1) by (simp add: hk_ok_def hk_events_def)
  from apply_changes [OF this] have ns: "coro_udata ?ns" "cids ?ns \<subseteq># hk_waits s"
    by (simp_all add: hk_waits_def hk_events_def ac_simps)
  show "coro_udata rest" "reply = K_Failed \<Longrightarrow> cids rest \<subseteq># hk_waits s"
    "reply = K_Events kes \<Longrightarrow> coro_udata kes \<and> cids kes + cids rest \<subseteq># hk_waits s"
    using assms(2) ns deliver_cids [OF ns(1)]
    by (fastforce simp: hk_reply_def Let_def split: option.splits prod.splits)+
qed

interpretation hk: poller hk_vtable
proof unfold_locales
  fix t and w w' :: "('a, kernel_kqueue) world" and x
  assume "vt_poll hk_vtable t w = (x, w')"
  then have "hk_poll t w = (x, w')" by (simp add: hk_vtable_def)
  then show "only_schedules w w'"
    by (rule hk_poll_ends)
      (auto simp: only_schedules_refl kq_vtable_def intro!: only_schedules_with_poller kq.poll_only_schedules)
next
  fix t
  show "blind (vt_poll (hk_vtable :: ('a, kernel_kqueue) vtable) t)"
  proof (rule blindI)
    fix w :: "('a, kernel_kqueue) world"
    have b: "blind (kq_poll t :: (('a, kqueue) world, unit) op)" using kq.poll_blind [of t] by (simp add: kq_vtable_def)
    show "vt_poll hk_vtable t (strip w) = strip_out (vt_poll hk_vtable t w)"
      by (simp add: hk_vtable_def hk_poll_def Let_def strip_with_poller blindD [OF b] strip_out_def split: list.split prod.split)
  qed
qed

lemma hk_set_waits:
  assumes "kq_set_wait_for fd c filt (hk_poller s) = (Val (), kq)" "hk_ok s" "kq_changes kq' = kq_changes kq"
  shows "hk_ok (s\<lparr>hk_poller := kq'\<rparr>) \<and> hk_waits (s\<lparr>hk_poller := kq'\<rparr>) \<subseteq># add_mset c (hk_waits s)"
  using assms
  by (auto simp: kq_set_wait_for_def add_change_def hk_ok_def hk_waits_def hk_events_def wait_change_def cid_of_def split: if_splits)

lemma hk_set_vtable:
  "vt_set_read hk_vtable fd c s = (r, s') \<Longrightarrow>
   \<exists>kq kq'. kq_set_wait_for fd c EVFILT_READ (hk_poller s) = (r, kq) \<and> s' = s\<lparr>hk_poller := kq'\<rparr> \<and> kq_changes kq' = kq_changes kq"
  "vt_set_write hk_vtable fd c s = (r, s') \<Longrightarrow>
   \<exists>kq kq'. kq_set_wait_for fd c EVFILT_WRITE (hk_poller s) = (r, kq) \<and> s' = s\<lparr>hk_poller := kq'\<rparr> \<and> kq_changes kq' = kq_changes kq"
  by (auto simp: hk_vtable_def hk_set_def kq_set_wait_for_read_def kq_set_wait_for_write_def bindS_def
      split: prod.splits outcome.splits)

text \<open>
  Every coroutine the kernel holds a registration of, or that is in the array of changes, is counted; no other
  wake-up comes out of \<open>poll\<close>.
\<close>

interpretation hk: waking_poller hk_vtable hk_waits hk_ok "{Undef Out_Of_Bounds, OS_Error ''kevent'' (-1)}"
proof unfold_locales
  fix fd c and s s' :: kernel_kqueue
  show "hk_ok s' \<and> hk_waits s' \<subseteq># add_mset c (hk_waits s)"
    if "vt_set_read (hk_vtable :: ('a, kernel_kqueue) vtable) fd c s = (Val (), s')" "hk_ok s"
    using hk_set_vtable(1) [OF that(1)] hk_set_waits [OF _ that(2)] by blast
  show "hk_ok s' \<and> hk_waits s' \<subseteq># add_mset c (hk_waits s)"
    if "vt_set_write (hk_vtable :: ('a, kernel_kqueue) vtable) fd c s = (Val (), s')" "hk_ok s"
    using hk_set_vtable(2) [OF that(1)] hk_set_waits [OF _ that(2)] by blast
next
  fix fd c e and s s' :: kernel_kqueue
  assume "vt_set_read (hk_vtable :: ('a, kernel_kqueue) vtable) fd c s = (Raise e, s')
      \<or> vt_set_write (hk_vtable :: ('a, kernel_kqueue) vtable) fd c s = (Raise e, s')"
  then obtain filt kq where "kq_set_wait_for fd c filt (hk_poller s) = (Raise e, kq)"
    using hk_set_vtable(1) [of fd c s "Raise e" s'] hk_set_vtable(2) [of fd c s "Raise e" s'] by blast
  then show "e \<in> {Undef Out_Of_Bounds, OS_Error ''kevent'' (-1)}"
    by (auto simp: kq_set_wait_for_def add_change_def split: if_splits)
next
  fix t and w w' :: "('a, kernel_kqueue) world"
  assume p: "vt_poll hk_vtable t w = (Val (), w')" and ok: "hk_ok (w_poller w)"
  then have "hk_poll t w = (Val (), w')" by (simp add: hk_vtable_def)
  then show "hk_ok (w_poller w') \<and>
      entries (w_pending w') + hk_waits (w_poller w') \<subseteq># entries (w_pending w) + hk_waits (w_poller w)"
  proof (rule hk_poll_ends)
    fix ch chs reply rest w1
    assume reply: "hk_reply (w_poller w) ch = (reply, rest)"
      and poll: "kq_poll t (with_poller ((hk_poller (w_poller w))\<lparr>kq_replies := [reply]\<rparr>) w) = (Val (), w1)"
      and w': "w' = with_poller \<lparr>hk_poller = w_poller w1, hk_notes = rest, hk_choices = chs\<rparr> w1"
    obtain kq' where kq': "kq_changes kq' = []"
      "(case reply of K_Events kes \<Rightarrow> kq_wake_all kes (with_poller kq' w)
        | K_Failed \<Rightarrow> (Raise (OS_Error ''kevent'' (-1)), with_poller kq' w)) = (Val (), w1)"
      using poll by (rule kq_poll_reply)
    then obtain kes where r: "reply = K_Events kes" and k: "kq_wake_all kes (with_poller kq' w) = (Val (), w1)"
      by (cases reply) auto
    have p1: "w_poller w1 = kq'" and pend: "entries (w_pending w1) = entries (w_pending w) + cids kes"
      using kq_wake_all_frame [OF k] kq_wake_all_Val [OF k] entries_kq_entry [of kes] by (simp_all add: entries_def)
    have "hk_ok (w_poller w')" "hk_waits (w_poller w') = cids rest"
      using hk_reply_waits(1) [OF ok reply] p1 kq'(1) by (simp_all add: w' hk_ok_def hk_waits_def hk_events_def)
    moreover have "cids kes + cids rest \<subseteq># hk_waits (w_poller w)" using hk_reply_waits(3) [OF ok reply r] by simp
    ultimately show ?thesis
      using subset_mset.add_left_mono [of "cids kes + cids rest" "hk_waits (w_poller w)" "entries (w_pending w)"] pend w'
      by (simp add: ac_simps)
  qed simp
next
  fix t e and w w' :: "('a, kernel_kqueue) world"
  assume p: "vt_poll hk_vtable t w = (Raise e, w')" and ok: "hk_ok (w_poller w)"
    and live: "\<And>c. c \<in># hk_waits (w_poller w) \<Longrightarrow> valid_cid w c \<and> \<not> is_dead w c"
  then have "hk_poll t w = (Raise e, w')" by (simp add: hk_vtable_def)
  then show "e \<in> {Undef Out_Of_Bounds, OS_Error ''kevent'' (-1)}"
  proof (rule hk_poll_ends)
    fix ch chs reply rest w1
    assume reply: "hk_reply (w_poller w) ch = (reply, rest)"
      and poll: "kq_poll t (with_poller ((hk_poller (w_poller w))\<lparr>kq_replies := [reply]\<rparr>) w) = (Raise e, w1)"
    obtain kq' where kq':
      "(case reply of K_Events kes \<Rightarrow> kq_wake_all kes (with_poller kq' w)
        | K_Failed \<Rightarrow> (Raise (OS_Error ''kevent'' (-1)), with_poller kq' w)) = (Raise e, w1)"
      using poll by (rule kq_poll_reply)
    show ?thesis
    proof (cases reply)
      case (K_Events kes)
      have r: "coro_udata kes" "cids kes + cids rest \<subseteq># hk_waits (w_poller w)"
        using hk_reply_waits(3) [OF ok reply K_Events] by simp_all
      have "kq_live (with_poller kq' w) ke" if ke: "ke \<in> set kes" for ke
      proof -
        obtain c where c: "ke_udata ke = U_Coro c" using r(1) ke by (auto simp: coro_udata_def)
        have "cid_of ke \<in># cids kes" using ke by (simp add: cids_def)
        then have "c \<in># hk_waits (w_poller w)" using r(2) c by (auto simp: cid_of_def dest: mset_subset_eqD)
        from live [OF this] show ?thesis using c by (simp add: kq_live_def)
      qed
      then show ?thesis using kq' kq_wake_all_live [of kes "with_poller kq' w"] K_Events by simp
    qed (use kq' in simp)
  qed simp
qed

lemma idle_kernel_kqueue: "hk_ok (new_kernel_kqueue input_max output_max choices)"
  "hk_waits (new_kernel_kqueue input_max output_max choices) = {#}"
  by (simp_all add: new_kernel_kqueue_def hk_ok_def hk_waits_def hk_events_def kqueue_poller_def)

end
