(* ===== verification/Demo_Mains.thy ===== *)
theory Demo_Mains
  imports Poller_Poll Poller_Select Kqueue_Kernel
begin

section \<open>The programs as a whole\<close>

text \<open>
  The \<open>main\<close> functions of \<open>demo/echo_server.cc\<close>, \<open>demo/echo_client.cc\<close> and \<open>demo/smtp_server.cc\<close> create and
  schedule the first coroutines and call the event loop; \<open>class thing\<close> of the echo server is a member
  function as a thread.  The poller is an argument of each: on Linux the client and the SMTP server take \<open>poll_poller (2500)\<close>, elsewhere
  \<open>kqueue_poller (2500, 2500)\<close>; the echo server chooses by its options.  The code of the servers and of the client is a
  parameter here, as it is in theory \<open>Coro\<close>; addresses and what is printed before and after the loop are left out.
\<close>

subsection \<open>The options of the echo server\<close>

datatype backend = Kqueue_Poller | Select_Poller | Poll_Poller

text \<open>
  The argument \<open>linux\<close> is whether \<open>__linux__\<close> is defined.  The list is what \<open>getopt\<close> returns before -1; \<open>None\<close> is the exit
  with the usage message, and an option that is not known is returned as a question mark.
\<close>

definition default_ksp :: "bool \<Rightarrow> int" where
  "default_ksp linux = (if linux then 2 else 0)"

fun parse_options :: "string \<Rightarrow> int \<Rightarrow> int option" where
  "parse_options [] ksp = Some ksp"
| "parse_options (ch # chs) ksp =
     (if ch = CHR ''k'' then parse_options chs 0
      else if ch = CHR ''s'' then parse_options chs 1
      else if ch = CHR ''p'' then parse_options chs 2
      else None)"

text \<open>\<open>None\<close> is the pointer \<open>p\<close> left at 0.\<close>

definition choose_poller :: "bool \<Rightarrow> int \<Rightarrow> backend option" where
  "choose_poller linux ksp =
     (if ksp = 0 \<and> \<not> linux then Some Kqueue_Poller
      else if ksp = 1 then Some Select_Poller
      else if ksp = 2 then Some Poll_Poller
      else None)"

text \<open>The calls of the virtual functions of \<open>poller\<close> when \<open>coro::_poller\<close> is that pointer.\<close>

definition null_vtable :: "('s, unit) vtable" where
  "null_vtable = \<lparr>vt_set_read = \<lambda>_ _ p. (Raise (Undef Wild_Pointer), p), vt_set_write = \<lambda>_ _ p. (Raise (Undef Wild_Pointer), p),
     vt_resumed = \<lambda>_ _. None, vt_poll = \<lambda>_ w. (Raise (Undef Wild_Pointer), w)\<rparr>"

subsection \<open>Starting coroutines\<close>

definition start_coro :: "'s \<Rightarrow> (('s, 'p) world, unit) op" where
  "start_coro s = bindS (new_coro s) (\<lambda>c. schedule c 0)"

text \<open>The loop of \<open>main\<close> in \<open>echo_client.cc\<close>, with the global \<open>counter\<close>, an \<open>int\<close>.\<close>

fun spawn_clients :: "nat \<Rightarrow> 's \<Rightarrow> 32 word \<times> ('s, 'p) world \<Rightarrow> unit outcome \<times> 32 word \<times> ('s, 'p) world" where
  "spawn_clients 0 client_start (counter, w) = (Val (), counter, w)"
| "spawn_clients (Suc k) client_start (counter, w) =
     (case start_coro client_start w of
        (Val _, w1) \<Rightarrow> spawn_clients k client_start (counter + 1, w1)
      | (r, w1) \<Rightarrow> (r, counter, w1))"

text \<open>
  The handlers around the event loop in the echo programs: \<open>catch (...)\<close> ends every exception, also that of \<open>preserve\<close>,
  which is a \<open>const char *\<close> and not the \<open>char *\<close> of the handler before; it cannot end undefined behaviour.  The result
  is the exception that was caught.
\<close>

definition catch_all :: "('w, unit) op \<Rightarrow> ('w, exn option) op" where
  "catch_all m w =
     (case m w of
        (Val _, w') \<Rightarrow> (Val None, w')
      | (Raise e, w') \<Rightarrow> (case e of Undef u \<Rightarrow> (Raise e, w') | _ \<Rightarrow> (Val (Some e), w'))
      | (Stuck, w') \<Rightarrow> (Stuck, w'))"

definition client_main ::
    "('s, 'p) vtable \<Rightarrow> int \<Rightarrow> nat \<Rightarrow> nat \<Rightarrow> nat \<Rightarrow> ('s \<Rightarrow> 's action) \<Rightarrow> 's
      \<Rightarrow> 32 word \<times> ('s, 'p) world \<Rightarrow> exn option outcome \<times> 32 word \<times> ('s, 'p) world" where
  "client_main vt nc l r n code client_start s =
     (case spawn_clients (nat nc) client_start s of
        (Val _, counter, w) \<Rightarrow> (case catch_all (event_loop l r n vt code) w of (x, w') \<Rightarrow> (x, counter, w'))
      | (Raise e, counter, w) \<Rightarrow> (Raise e, counter, w)
      | (Stuck, counter, w) \<Rightarrow> (Stuck, counter, w))"

definition smtp_main ::
    "('s, 'p) vtable \<Rightarrow> nat \<Rightarrow> nat \<Rightarrow> nat \<Rightarrow> ('s \<Rightarrow> 's action) \<Rightarrow> 's \<Rightarrow> (('s, 'p) world, unit) op" where
  "smtp_main vt l r n code server_start =
     bindS (start_coro server_start) (\<lambda>_. event_loop l r n vt code)"

subsection \<open>class thing\<close>

text \<open>
  A point in \<open>thing_thread\<close>: before its first line, or at the head of the loop, with the member \<open>_x\<close> and the local
  variable \<open>i\<close>.
\<close>

datatype thing = Thing_Begin int | Thing_Loop int int

fun thing_thread :: "thing \<Rightarrow> thing action" where
  "thing_thread (Thing_Begin x) = Current (\<lambda>me. Thing_Loop x 0)"
| "thing_thread (Thing_Loop x i) = Sleep 5000 (\<lambda>_. Thing_Loop x (i + 1))"

text \<open>The threads of the echo server: those of the server and \<open>thing\<close>.\<close>

definition server_code :: "('s \<Rightarrow> 's action) \<Rightarrow> 's + thing \<Rightarrow> ('s + thing) action" where
  "server_code code p = (case p of Inl s \<Rightarrow> map_action Inl (code s) | Inr t \<Rightarrow> map_action Inr (thing_thread t))"

definition server_main ::
    "('s + thing, 'p) vtable \<Rightarrow> nat \<Rightarrow> nat \<Rightarrow> nat \<Rightarrow> ('s \<Rightarrow> 's action) \<Rightarrow> 's
      \<Rightarrow> (('s + thing, 'p) world, exn option) op" where
  "server_main vt l r n code server_start =
     bindS (start_coro (Inl server_start)) (\<lambda>_. bindS (start_coro (Inr (Thing_Begin 99))) (\<lambda>_.
       catch_all (event_loop l r n vt (server_code code))))"

subsection \<open>What main leaves to the event loop\<close>

lemma start_coro_spawned: "start_coro s w = (Val (), spawned s 0 w)"
  by (simp add: start_coro_def bindS_Val [OF new_then_schedule(1)] new_then_schedule(2))

lemma spawned_wf: "wf_world w \<Longrightarrow> wf_world (spawned s v w)"
  by (auto simp: wf_world_def base_ok_def entries_ok_def ids_ok_def stacks_ok_def idle_ok_def spawned_def Let_def
      new_coro_def nth_append less_Suc_eq elim!: list.pred_mono_strong)

lemma spawned_staging [simp]: "w_staging (spawned s v w) = w_staging w" "w_exit (spawned s v w) = w_exit w"
  by (simp_all add: spawned_def Let_def new_coro_def)

context waking_poller
begin

lemma idle_spawned: "idle P w \<Longrightarrow> P s \<Longrightarrow> idle P (spawned s v w)"
  by (simp add: idle_def spawned_wf quiet_spawned)

lemma idle_init: "ok p \<Longrightarrow> waits p = {#} \<Longrightarrow> idle P (init_world clock malloc p)"
  unfolding idle_def
  by (intro conjI wf_init_world) (simp_all add: quiet_def points_ok_def single_def wakeups_def init_world_def)

lemma spawn_clients_idle:
  "idle P w \<Longrightarrow> P s \<Longrightarrow>
   \<exists>w'. spawn_clients k s (counter, w) = (Val (), counter + of_nat k, w') \<and> idle P w'
     \<and> w_pending w' = w_pending w @ map (\<lambda>i. (length (w_coros w) + i, 0)) [0..<k]
     \<and> length (w_coros w') = length (w_coros w) + k"
proof (induction k arbitrary: counter w)
  case 0
  then show ?case by simp
next
  case (Suc k)
  have p: "w_pending (spawned s 0 w) = w_pending w @ [(length (w_coros w), 0)]"
    "length (w_coros (spawned s 0 w)) = Suc (length (w_coros w))"
    by (simp_all add: spawned_def Let_def new_coro_def)
  from Suc.IH [OF idle_spawned [OF Suc.prems, of 0] Suc.prems(2), of "counter + 1"] p
  obtain w' where w': "spawn_clients k s (counter + 1, spawned s 0 w) = (Val (), counter + 1 + of_nat k, w')" "idle P w'"
    "w_pending w' = w_pending w @ (length (w_coros w), 0) # map (\<lambda>i. (Suc (length (w_coros w) + i), 0)) [0..<k]"
    "length (w_coros w') = Suc (length (w_coros w) + k)"
    by auto
  have "map (\<lambda>i. (length (w_coros w) + i, 0 :: pval)) [0..<Suc k]
      = (length (w_coros w), 0) # map (\<lambda>i. (Suc (length (w_coros w) + i), 0)) [0..<k]"
    by (simp add: map_Suc_upt [symmetric] upt_conv_Cons del: upt_Suc)
  then show ?case using w' by (intro exI [of _ w']) (simp add: start_coro_spawned ac_simps)
qed

lemma caught:
  assumes "tidy P code" "idle P w" "fst (catch_all (event_loop l r n vt code) w) = x"
  shows "x = Raise e \<Longrightarrow> e \<in> faults \<inter> range Undef" "x = Val (Some e) \<Longrightarrow> e \<in> insert no_memory faults - range Undef"
  using event_loop_orderly [OF assms(1,2), of l r n] assms(3)
  by (auto simp: orderly_def catch_all_def no_memory_def split: prod.splits outcome.splits exn.splits)

end

lemma schedules_new_map:
  "schedules_new P c a \<Longrightarrow> (\<And>s. Q (f s) = P s) \<Longrightarrow> schedules_new Q c (map_action f a)"
  by (cases a) (simp_all add: schedules_new_def)

lemma tidy_map_action:
  assumes "tidy_at P code s" "\<And>s. Q (f s) = P s" "\<And>s. code' (f s) = map_action f (code s)"
  shows "tidy_at Q code' (f s)"
  using assms(1) schedules_new_map [of P _ _ Q f, OF _ assms(2)]
  by (cases "code s") (simp_all add: tidy_at_def assms(2,3))

lemma tidy_server_code:
  assumes "tidy P code"
  shows "tidy (case_sum P (\<lambda>_. True)) (server_code code)"
  unfolding tidy_def
proof (intro allI impI)
  fix p :: "'a + thing" assume p: "case_sum P (\<lambda>_. True) p"
  show "tidy_at (case_sum P (\<lambda>_. True)) (server_code code) p"
  proof (cases p)
    case (Inl s)
    have "tidy_at P code s" using assms p Inl by (simp add: tidy_def)
    then show ?thesis unfolding Inl
      by (rule tidy_map_action) (simp_all add: server_code_def)
  next
    case (Inr t)
    then show ?thesis by (cases t) (simp_all add: tidy_at_def server_code_def)
  qed
qed

subsection \<open>What the programs do\<close>

text \<open>
  What ends a \<open>main\<close>: the first set holds the exceptions that its handlers catch, the second what is not caught.
\<close>

definition ends_with :: "exn option outcome \<Rightarrow> exn set \<Rightarrow> exn set \<Rightarrow> bool" where
  "ends_with x caught escaping \<longleftrightarrow>
     (case x of Val (Some e) \<Rightarrow> e \<in> caught | Raise e \<Rightarrow> e \<in> escaping | _ \<Rightarrow> True)"

definition throws_only :: "unit outcome \<Rightarrow> exn set \<Rightarrow> bool" where
  "throws_only x E \<longleftrightarrow> (case x of Raise e \<Rightarrow> e \<in> E | _ \<Rightarrow> True)"

definition out_of_bounds :: exn where "out_of_bounds = Undef Out_Of_Bounds"

definition kevent_failed :: exn where "kevent_failed = OS_Error ''kevent'' (-1)"

text \<open>The three programs on any poller that keeps the contract of theory \<open>Wakeups\<close>.\<close>

context waking_poller
begin

lemma smtp_main_ends:
  assumes "ok p" "waits p = {#}" "tidy P code" "P start"
  shows "throws_only (fst (smtp_main vt l r n code start (init_world clock malloc p))) (insert no_memory faults)"
proof -
  have "idle P (spawned start 0 (init_world clock malloc p))" using assms by (intro idle_spawned idle_init) simp_all
  from event_loop_orderly [OF assms(3) this, of l r n] show ?thesis
    by (auto simp: smtp_main_def bindS_def start_coro_spawned orderly_def throws_only_def split: outcome.split)
qed

lemma caught_ends:
  "tidy P code \<Longrightarrow> idle P w \<Longrightarrow>
   ends_with (fst (catch_all (event_loop l r n vt code) w)) (insert no_memory faults - range Undef) (faults \<inter> range Undef)"
  using caught [OF _ _ refl, of P code w l r n] by (simp add: ends_with_def split: outcome.split option.split)

lemma client_main_ends:
  assumes "ok p" "waits p = {#}" "tidy P code" "P start"
  shows "ends_with (fst (client_main vt nc l r n code start (0, init_world clock malloc p)))
    (insert no_memory faults - range Undef) (faults \<inter> range Undef)"
proof -
  let ?w = "init_world clock malloc p"
  obtain w' where w': "spawn_clients (nat nc) start (0, ?w) = (Val (), 0 + of_nat (nat nc), w')" "idle P w'"
    using spawn_clients_idle [where P = P and w = ?w and s = start and k = "nat nc" and counter = 0, OF idle_init assms(4)] assms(1,2)
    by blast
  then have "fst (client_main vt nc l r n code start (0, ?w)) = fst (catch_all (event_loop l r n vt code) w')"
    by (simp add: client_main_def split: prod.split)
  then show ?thesis using caught_ends [OF assms(3) w'(2)] by simp
qed

end

lemma server_main_ends:
  assumes "waking_poller vt waits ok faults" "ok p" "waits p = {#}" "tidy P code" "P start"
  shows "ends_with (fst (server_main vt l r n code start (init_world clock malloc p)))
    (insert no_memory faults - range Undef) (faults \<inter> range Undef)"
proof -
  let ?Q = "case_sum P (\<lambda>_ :: thing. True)"
    and ?w = "spawned (Inr (Thing_Begin 99)) 0 (spawned (Inl start) 0 (init_world clock malloc p))"
  note wp = waking_poller.idle_spawned [OF assms(1)] waking_poller.idle_init [where waits = waits and ok = ok, OF assms(1)]
  have "waking_poller.idle waits ok ?Q ?w" using assms(2,3,5) by (intro wp) simp_all
  from waking_poller.caught_ends [OF assms(1) tidy_server_code [OF assms(4)] this] show ?thesis
    by (simp add: server_main_def bindS_def start_coro_spawned)
qed

lemma fault_sets:
  "insert no_memory {Undef Out_Of_Bounds} = {no_memory, out_of_bounds}"
  "{no_memory, out_of_bounds} - range Undef = {no_memory}" "{Undef Out_Of_Bounds} \<inter> range Undef = {out_of_bounds}"
  "insert no_memory {Undef Out_Of_Bounds, Undef Erased_Iterator} - range Undef = {no_memory}"
  "{Undef Out_Of_Bounds, Undef Erased_Iterator} \<inter> range Undef = {out_of_bounds, Undef Erased_Iterator}"
  "insert no_memory {Undef Out_Of_Bounds, OS_Error ''kevent'' (-1)} = {no_memory, kevent_failed, out_of_bounds}"
  "{no_memory, kevent_failed, out_of_bounds} - range Undef = {no_memory, kevent_failed}"
  "{Undef Out_Of_Bounds, OS_Error ''kevent'' (-1)} \<inter> range Undef = {out_of_bounds}"
  by (auto simp: out_of_bounds_def kevent_failed_def no_memory_def)

text \<open>
  C8: the three programs, from the start of \<open>main\<close>, never resume a coroutine that has ended and never follow a wild
  pointer, on each poller they can be run with, whatever the kernel and the clock do, however long they run, and whatever the threads do as long
  as they schedule a coroutine only right after they have created it.  What can end the event loop is that \<open>malloc\<close> or \<open>kevent\<close>
  has failed, which the echo programs catch and the SMTP server does not; the only undefined
  behaviour of the scheduler is that more waits are registered than an array or a descriptor set has places, and with \<open>select\<close>
  the step from an erased entry.  For \<open>kqueue\<close> the kernel reports only what was registered.
\<close>

theorem programs_resume_no_dead:
  assumes "tidy P code" "P start"
  shows "throws_only (fst (smtp_main pp_vtable l r n code start (init_world clock malloc (new_poll_poller arr replies)))) {no_memory, out_of_bounds}
    \<and> throws_only (fst (smtp_main hk_vtable l r n code start (init_world clock malloc (new_kernel_kqueue im om choices))))
        {no_memory, kevent_failed, out_of_bounds}
    \<and> ends_with (fst (client_main pp_vtable nc l r n code start (0, init_world clock malloc (new_poll_poller arr replies))))
        {no_memory} {out_of_bounds}
    \<and> ends_with (fst (client_main hk_vtable nc l r n code start (0, init_world clock malloc (new_kernel_kqueue im om choices))))
        {no_memory, kevent_failed} {out_of_bounds}
    \<and> ends_with (fst (server_main pp_vtable l r n code start (init_world clock malloc (new_poll_poller arr replies))))
        {no_memory} {out_of_bounds}
    \<and> ends_with (fst (server_main sp_vtable l r n code start (init_world clock malloc (new_select_poller answers))))
        {no_memory} {out_of_bounds, Undef Erased_Iterator}
    \<and> ends_with (fst (server_main hk_vtable l r n code start (init_world clock malloc (new_kernel_kqueue im om choices))))
        {no_memory, kevent_failed} {out_of_bounds}"
proof -
  have pp: "maps_ok (new_poll_poller arr replies)" "waiting (new_poll_poller arr replies) = {#}"
    by (simp_all add: new_poll_poller_def waiting_def maps_ok_def map_ok_def)
  have sp: "sp_maps_ok (new_select_poller answers)" "sp_waiting (new_select_poller answers) = {#}"
    by (simp_all add: new_select_poller_def sp_waiting_def sp_maps_ok_def map_ok_def)
  note hk = idle_kernel_kqueue [of im om choices]
  note ends = pp.smtp_main_ends [OF pp assms] hk.smtp_main_ends [OF hk assms] pp.client_main_ends [OF pp assms]
    hk.client_main_ends [OF hk assms] server_main_ends [OF pp.waking_poller_axioms pp assms]
    server_main_ends [OF sp.waking_poller_axioms sp assms] server_main_ends [OF hk.waking_poller_axioms hk assms]
  show ?thesis by (intro conjI ends [unfolded fault_sets])
qed

text \<open>
  A server that waits for connections on descriptor 3 and starts a session for each, and sessions that wait
  once and end.
\<close>

datatype ex_point = Ex_Accept | Ex_Started cid | Ex_Session | Ex_Over

fun ex_program :: "ex_point \<Rightarrow> ex_point action" where
  "ex_program Ex_Accept = Wait_Read 3 Ex_Accept (\<lambda>_. Ex_Over)"
| "ex_program Ex_Session = Wait_Read 7 Ex_Over (\<lambda>_. Ex_Over)"
| "ex_program (Ex_Started c) = Schedule c 0 Ex_Accept (\<lambda>_. Ex_Over)"
| "ex_program Ex_Over = Spawn Ex_Session Ex_Started"

theorem programs_resume_no_dead_witness:
  "let w = init_world ex_clock (\<lambda>_. True) (new_poll_poller [] [])
   in fst (smtp_main pp_vtable 3 3 3 ex_program Ex_Over w) = Raise out_of_bounds
    \<and> throws_only (fst (smtp_main pp_vtable 3 3 3 ex_program Ex_Over w)) {no_memory, out_of_bounds}"
proof -
  have "tidy (\<lambda>p. \<forall>c. p \<noteq> Ex_Started c) ex_program"
    unfolding tidy_def
  proof (intro allI impI)
    fix p :: ex_point assume "\<forall>c. p \<noteq> Ex_Started c"
    then show "tidy_at (\<lambda>p. \<forall>c. p \<noteq> Ex_Started c) ex_program p"
      by (cases p) (simp_all add: tidy_at_def schedules_new_def)
  qed
  moreover have "fst (smtp_main pp_vtable 3 3 3 ex_program Ex_Over (init_world ex_clock (\<lambda>_. True) (new_poll_poller [] []))) = Raise out_of_bounds"
    by code_simp
  ultimately show ?thesis
    using programs_resume_no_dead [of "\<lambda>p. \<forall>c. p \<noteq> Ex_Started c" ex_program Ex_Over 3 3 3 ex_clock "\<lambda>_. True" "[]" "[]"]
    unfolding Let_def by blast
qed

text \<open>
  \<open>main\<close> of the echo client starts every client once: each of the \<open>nc\<close> coroutines is pending exactly once, in the
  order of its creation, \<open>counter\<close> is their number, and the first round of the event loop can run.
\<close>

theorem clients_all_start:
  "\<exists>w. spawn_clients nc start (0, init_world clock malloc (new_poll_poller arr replies)) = (Val (), of_nat nc, w)
    \<and> w_pending w = map (\<lambda>c. (c, 0)) [0..<nc] \<and> wf_world w \<and> distinct (map fst (w_pending w))
    \<and> (\<forall>e \<in> set (w_pending w). valid_cid w (fst e) \<and> \<not> is_dead w (fst e))"
proof -
  let ?w = "init_world clock malloc (new_poll_poller arr replies) :: ('a, poll_poller) world"
  obtain w where w: "spawn_clients nc start (0, ?w) = (Val (), 0 + of_nat nc, w)" "pp.idle (\<lambda>_. True) w"
    "w_pending w = w_pending ?w @ map (\<lambda>i. (length (w_coros ?w) + i, 0)) [0..<nc]"
    using pp.spawn_clients_idle [where P = "\<lambda>_. True" and w = ?w and s = start and k = nc and counter = 0, OF pp.idle_init]
    by (auto simp: new_poll_poller_def waiting_def maps_ok_def map_ok_def)
  then have p: "w_pending w = map (\<lambda>c. (c, 0)) [0..<nc]" by (simp add: init_world_def)
  have s: "single (wakeups waiting w) w" using w(2) by (simp add: pp.idle_def quiet_def)
  have "valid_cid w (fst e) \<and> \<not> is_dead w (fst e)" if "e \<in> set (w_pending w)" for e
    using singleD [OF s, of "fst e"] that by (auto simp: wakeups_def entries_def)
  moreover have "distinct (map fst (w_pending w))" by (simp add: p o_def)
  ultimately show ?thesis using w p by (auto simp: pp.idle_def)
qed

lemma time_to_next_event_Val: "\<exists>t w'. time_to_next_event w = (Val t, w')"
  by (auto simp: time_to_next_event_def bindS_def gettimeofday_def Let_def)

text \<open>
  C38: the options of the echo server.  The options it accepts always leave it with a poller, except for \<open>-k\<close> as the last of
  them on Linux: the usage message names it there too, but the case that creates the poller is not compiled.  The
  server is then started on a null pointer, and when the first threads have run \<open>main\<close> ends in a virtual call on it,
  which no handler can catch.
\<close>

theorem k_option_needs_kqueue:
  "(parse_options chs (default_ksp linux) = Some ksp \<longrightarrow>
      (choose_poller linux ksp = None \<longleftrightarrow> linux \<and> chs \<noteq> [] \<and> last chs = CHR ''k''))
    \<and> (run_pending r n null_vtable (server_code code)
          (spawned (Inr (Thing_Begin 99)) 0 (spawned (Inl start) 0 (init_world clock malloc ()))) = (Val (), w1) \<and> \<not> w_exit w1
        \<longrightarrow> fst (server_main null_vtable (Suc l) r n code start (init_world clock malloc ())) = Raise (Undef Wild_Pointer))"
proof (intro conjI impI)
  have last: "choose_poller linux k = None \<longleftrightarrow>
      (if chs = [] then choose_poller linux ksp = None else linux \<and> last chs = CHR ''k'')"
    if "parse_options chs ksp = Some k" for k ksp
    using that
    by (induction chs ksp rule: parse_options.induct) (auto simp: choose_poller_def split: if_splits)
  show "choose_poller linux ksp = None \<longleftrightarrow> linux \<and> chs \<noteq> [] \<and> last chs = CHR ''k''"
    if "parse_options chs (default_ksp linux) = Some ksp"
    using last [OF that] by (auto simp: choose_poller_def default_ksp_def)
next
  let ?w = "spawned (Inr (Thing_Begin 99)) 0 (spawned (Inl start) 0 (init_world clock malloc ()))"
  assume r: "run_pending r n null_vtable (server_code code) ?w = (Val (), w1) \<and> \<not> w_exit w1"
  obtain t w2 where t: "time_to_next_event w1 = (Val t, w2)" using time_to_next_event_Val by blast
  have "\<not> w_exit ?w" by (simp add: init_world_def)
  then obtain w3 where "event_loop (Suc l) r n null_vtable (server_code code) ?w = (Raise (Undef Wild_Pointer), w3)"
    using r t by (simp add: bindS_def null_vtable_def)
  then show "fst (server_main null_vtable (Suc l) r n code start (init_world clock malloc ())) = Raise (Undef Wild_Pointer)"
    by (simp add: server_main_def bindS_Val [OF start_coro_spawned] catch_all_def del: event_loop.simps)
qed

theorem k_option_needs_kqueue_witness:
  "parse_options ''k'' (default_ksp True) = Some 0 \<and> choose_poller True 0 = None
    \<and> fst (server_main null_vtable 1 3 3 (\<lambda>s. Finish) () (init_world ex_clock (\<lambda>_. True) ())) = Raise (Undef Wild_Pointer)"
proof -
  have "parse_options ''k'' (default_ksp True) = Some 0" by simp
  moreover from this have "choose_poller True 0 = None"
    using k_option_needs_kqueue [of "''k''" True 0, THEN conjunct1] by simp
  moreover have "fst (server_main null_vtable 1 3 3 (\<lambda>s. Finish) () (init_world ex_clock (\<lambda>_. True) ())) = Raise (Undef Wild_Pointer)"
    by code_simp
  ultimately show ?thesis by blast
qed

text \<open>
  a turn of \<open>thing\<close> at the head of its loop suspends it again with \<open>i\<close> counted up, and leaves exactly one wake-up for
  it: an event five seconds after the time of the turn, to the microsecond.
\<close>

theorem thing_sleeps_five_seconds:
  assumes "wf_world w" "valid_cid w c" "\<not> is_dead w c" "malloc_ok w"
    and "frames_of (w_coros w ! c) v = Thing_Loop x i" "tv_norm (w_clock w (w_ticks w))"
  shows "\<exists>w' t. turn (Suc n) vt thing_thread c v w = (Val (), w')
    \<and> frames_of (w_coros w' ! c) = (\<lambda>_. Thing_Loop x (i + 1))
    \<and> usecs t = usecs (w_clock w (w_ticks w)) + 5000000
    \<and> mset (w_events w') = add_mset \<lparr>ev_t = t, ev_args = 0, ev_coro = c\<rparr> (mset (w_events w))
    \<and> w_pending w' = w_pending w"
proof -
  let ?k = "\<lambda>_ :: pval. Thing_Loop x (i + 1)" and ?w = "enter c v w"
  have e: "w_current ?w = Some c" "w_clock ?w = w_clock w" "w_ticks ?w = w_ticks w" "w_events ?w = w_events w"
    "w_pending ?w = w_pending w"
    by (simp_all add: enter_def)
  obtain w1 t where w1: "sleep 5000 ?k ?w = (Val (Suspended ?k), w1)" "usecs t = usecs (w_clock w (w_ticks w)) + 5000000"
    "mset (w_events w1) = add_mset \<lparr>ev_t = t, ev_args = 0, ev_coro = c\<rparr> (mset (w_events w))" "w_pending w1 = w_pending w"
    using sleep_adds_event [of ?w c 5000 ?k] e assms(6) by auto
  have seg: "run_seg (Suc n) vt thing_thread (frames_of (w_coros w ! c) v) ?w = (Val (Suspended ?k), w1)"
    using w1(1) by (simp add: assms(5))
  have "turn (Suc n) vt thing_thread c v w = (Val (), suspend_as c ?k w1)"
    using turn_alive [OF assms(1-3), of "Suc n" vt thing_thread v] seg assms(4) by (simp add: malloc_ok_def)
  moreover have "frames_of (w_coros (suspend_as c ?k w1) ! c) = ?k"
    using seg_after(3) [OF assms(1-3) seg] by (simp add: suspend_as_def nth_upd_coro frames_of_def)
  ultimately show ?thesis using w1(2-4) by (intro exI [of _ "suspend_as c ?k w1"] exI [of _ t]) (simp add: suspend_as_def)
qed

theorem thing_sleeps_five_seconds_witness:
  "let w = spawned (Thing_Loop 99 4) 0 (init_world ex_clock (\<lambda>_. True) (new_poll_poller [] []))
   in \<exists>w' t. turn 1 pp_vtable thing_thread 0 0 w = (Val (), w')
     \<and> frames_of (w_coros w' ! 0) = (\<lambda>_. Thing_Loop 99 5) \<and> usecs t = 5000000
     \<and> mset (w_events w') = {#\<lparr>ev_t = t, ev_args = 0, ev_coro = 0\<rparr>#}"
proof -
  let ?w = "spawned (Thing_Loop 99 4) 0 (init_world ex_clock (\<lambda>_. True) (new_poll_poller [] []))"
  have wf: "wf_world ?w" by (intro spawned_wf wf_init_world)
  have c: "valid_cid ?w 0" "\<not> is_dead ?w 0" "malloc_ok ?w" "frames_of (w_coros ?w ! 0) 0 = Thing_Loop 99 4"
    "tv_norm (w_clock ?w (w_ticks ?w))" "usecs (w_clock ?w (w_ticks ?w)) = 0" "w_events ?w = []"
    by (simp_all add: spawned_def Let_def new_coro_def init_world_def valid_cid_def is_dead_def malloc_ok_def frames_of_def
        ex_clock_def tv_norm_def usecs_def)
  from thing_sleeps_five_seconds [OF wf c(1-5), of 0 pp_vtable] c(6,7) show ?thesis by (auto simp: Let_def)
qed

end
