(* ===== verification/Machine.thy ===== *)
theory Machine
  imports Prelude
begin

unbundle bit_operations_syntax

section \<open>Memory and machine words\<close>

text \<open>
  The machine below the coroutines: a memory of bytes, words stored in it with the low byte first (as
  x86 does), the registers, and the few instructions the assembly of \<open>swap.h\<close> is made of.  Everything
  is generic in the width of a word; \<open>load_w\<close> and \<open>store_w\<close> move one machine word.

  What the proofs about the assembly need of the memory is the locale \<open>word_memory\<close>; the byte memory
  is an interpretation of it at 64 bits (x86_64) and at 32 bits (i386).
\<close>

type_synonym 'w mem = "'w word \<Rightarrow> byte"

subsection \<open>Bytes\<close>

fun load_bytes :: "'w::len mem \<Rightarrow> 'w word \<Rightarrow> nat \<Rightarrow> byte list" where
  "load_bytes m a 0 = []"
| "load_bytes m a (Suc n) = m a # load_bytes m (a + 1) n"

definition store_bytes :: "'w::len mem \<Rightarrow> 'w word \<Rightarrow> byte list \<Rightarrow> 'w mem" where
  "store_bytes m a bs x = (if unat (x - a) < length bs then bs ! unat (x - a) else m x)"

fun word_of_bytes :: "byte list \<Rightarrow> 'w::len word" where
  "word_of_bytes [] = 0"
| "word_of_bytes (b # bs) = ucast b OR push_bit 8 (word_of_bytes bs)"

fun bytes_of_word :: "nat \<Rightarrow> 'w::len word \<Rightarrow> byte list" where
  "bytes_of_word 0 w = []"
| "bytes_of_word (Suc n) w = ucast w # bytes_of_word n (drop_bit 8 w)"

lemma length_load_bytes [simp]: "length (load_bytes m a n) = n"
  by (induction n arbitrary: a) auto

lemma length_bytes_of_word [simp]: "length (bytes_of_word n w) = n"
  by (induction n arbitrary: w) auto

lemma nth_load_bytes: "i < n \<Longrightarrow> load_bytes m a n ! i = m (a + of_nat i)"
proof (induction n arbitrary: a i)
  case (Suc n)
  then show ?case by (cases i) (simp_all add: ac_simps)
qed simp

lemma word_of_bytes_of_word: "word_of_bytes (bytes_of_word n w) = take_bit (8 * n) (w :: 'w::len word)"
proof (induction n arbitrary: w)
  case 0
  then show ?case by simp
next
  case (Suc n)
  show ?case
    by (rule bit_word_eqI) (auto simp: Suc.IH bit_simps)
qed

lemma load_store_same:
  assumes "length bs \<le> 2 ^ LENGTH('w)"
  shows "load_bytes (store_bytes m (a :: 'w::len word) bs) a (length bs) = bs"
proof (rule nth_equalityI)
  fix i assume "i < length (load_bytes (store_bytes m a bs) a (length bs))"
  then have i: "i < length bs" by simp
  then have "unat (of_nat i :: 'w word) = i" using assms by (simp add: unat_of_nat)
  then show "load_bytes (store_bytes m a bs) a (length bs) ! i = bs ! i"
    using i by (simp add: nth_load_bytes store_bytes_def)
qed simp

text \<open>Two ranges of bytes are apart when each starts at or beyond the end of the other, going up.\<close>

definition apart :: "'w::len word \<Rightarrow> nat \<Rightarrow> 'w word \<Rightarrow> nat \<Rightarrow> bool" where
  "apart a n b k \<longleftrightarrow> n \<le> unat (b - a) \<and> k \<le> unat (a - b)"

lemma apart_sym: "apart a n b k \<Longrightarrow> apart b k a n"
  by (simp add: apart_def)

lemma apart_outside:
  fixes a b :: "'w::len word"
  assumes "apart a n b k" "i < k"
  shows "n \<le> unat (b + of_nat i - a)"
proof -
  let ?d = "unat (b - a)" and ?e = "unat (a - b)"
  have "?e < 2 ^ LENGTH('w)" by (rule unsigned_less)
  then have "i < 2 ^ LENGTH('w)" using assms unfolding apart_def by linarith
  then have i: "unat (of_nat i :: 'w word) = i" by (simp add: unat_of_nat)
  have d: "?d < 2 ^ LENGTH('w)" by (rule unsigned_less)
  have e: "?e < 2 ^ LENGTH('w)" by (rule unsigned_less)
  have "unat (b - a + (a - b)) = (?d + ?e) mod 2 ^ LENGTH('w)" by (rule unat_word_ariths(1))
  then have "(?d + ?e) mod 2 ^ LENGTH('w) = 0" by simp
  then obtain q where q: "?d + ?e = 2 ^ LENGTH('w) * q" by auto
  have "q < 2"
  proof (rule ccontr)
    assume "\<not> q < 2"
    then have "2 ^ LENGTH('w) * 2 \<le> 2 ^ LENGTH('w) * q" by (intro mult_le_mono2) simp
    then show False using d e q by linarith
  qed
  then have "?d + ?e \<le> 2 ^ LENGTH('w)" unfolding q by (auto simp: less_Suc_eq numeral_2_eq_2)
  then have "?d + i < 2 ^ LENGTH('w)" using assms unfolding apart_def by linarith
  then have "unat (b - a + of_nat i) = ?d + i" by (subst unat_word_ariths) (simp add: i)
  then show ?thesis using assms(1) by (simp add: apart_def algebra_simps)
qed

lemma load_store_apart:
  assumes "apart a (length bs) b k"
  shows "load_bytes (store_bytes m a bs) b k = load_bytes m b k"
proof (rule nth_equalityI)
  fix i assume "i < length (load_bytes (store_bytes m a bs) b k)"
  then have i: "i < k" by simp
  from apart_outside [OF assms i] i show "load_bytes (store_bytes m a bs) b k ! i = load_bytes m b k ! i"
    by (simp add: nth_load_bytes store_bytes_def)
qed simp

subsection \<open>Words\<close>

definition wbytes :: "'w::len itself \<Rightarrow> nat" where
  "wbytes t = LENGTH('w) div 8"

definition load_w :: "'w::len mem \<Rightarrow> 'w word \<Rightarrow> 'w word" where
  "load_w m a = word_of_bytes (load_bytes m a (wbytes TYPE('w)))"

definition store_w :: "'w::len mem \<Rightarrow> 'w word \<Rightarrow> 'w word \<Rightarrow> 'w mem" where
  "store_w m a v = store_bytes m a (bytes_of_word (wbytes TYPE('w)) v)"

locale word_memory =
  fixes ld :: "'m \<Rightarrow> 'w::len word \<Rightarrow> 'w word"
    and st :: "'m \<Rightarrow> 'w word \<Rightarrow> 'w word \<Rightarrow> 'm"
    and sz :: nat
  assumes ld_same: "ld (st m a v) a = v"
    and ld_apart: "apart a sz b sz \<Longrightarrow> ld (st m a v) b = ld m b"
begin

lemma ld_st: "ld (st m a v) b = (if b = a then v else if apart a sz b sz then ld m b else ld (st m a v) b)"
  by (simp add: ld_same ld_apart)

lemma ld_last: "ld (st (st m a u) a v) a = v"
  by (rule ld_same)

lemma ld_swap:
  assumes "apart a sz b sz"
  shows "ld (st (st m a u) b v) a = u"
  using ld_apart [OF apart_sym [OF assms]] ld_same by simp

end

lemma word_memory_bytes:
  assumes "LENGTH('w::len) = 8 * n"
  shows "word_memory (load_w :: 'w mem \<Rightarrow> _) store_w (wbytes TYPE('w))"
proof unfold_locales
  have n: "wbytes TYPE('w) = n" using assms by (simp add: wbytes_def)
  have small: "n \<le> 2 ^ LENGTH('w)"
    using assms less_exp [of "LENGTH('w)"] by linarith
  fix m :: "'w mem" and a b v :: "'w word"
  have "load_bytes (store_bytes m a (bytes_of_word n v)) a n = bytes_of_word n v"
    using load_store_same [of "bytes_of_word n v" m a] small by simp
  then show "load_w (store_w m a v) a = v"
    unfolding load_w_def store_w_def n
    by (simp add: word_of_bytes_of_word assms [symmetric] take_bit_length_eq)
  show "apart a (wbytes TYPE('w)) b (wbytes TYPE('w)) \<Longrightarrow> load_w (store_w m a v) b = load_w m b"
    by (simp add: load_w_def store_w_def load_store_apart)
qed

lemma wbytes_widths [simp]: "wbytes TYPE(64) = 8" "wbytes TYPE(32) = 4"
  by (simp_all add: wbytes_def)

interpretation m64: word_memory "load_w :: 64 mem \<Rightarrow> _" store_w 8
  using word_memory_bytes [where 'w = 64 and n = 8] by simp

interpretation m32: word_memory "load_w :: 32 mem \<Rightarrow> _" store_w 4
  using word_memory_bytes [where 'w = 32 and n = 4] by simp

subsection \<open>Registers and instructions\<close>

text \<open>
  The registers the assembly names.  \<open>St src off base\<close> is a \<open>mov\<close> of a register to memory,
  \<open>Ld off base dst\<close> a \<open>mov\<close> from memory, and \<open>Ret\<close> pops the instruction pointer.
\<close>

datatype reg = AX | BX | DX | SI | DI | SP | BP | R12 | R13 | R14 | R15

datatype instr = St reg nat reg | Ld nat reg reg | Ret

record (overloaded) 'w machine =
  m_reg :: "reg \<Rightarrow> 'w::len word"
  m_mem :: "'w word \<Rightarrow> byte"
  m_pc :: "'w word"

fun exec_instr :: "instr \<Rightarrow> 'w::len machine \<Rightarrow> 'w machine" where
  "exec_instr (St src off base) s =
     s\<lparr>m_mem := store_w (m_mem s) (m_reg s base + of_nat off) (m_reg s src)\<rparr>"
| "exec_instr (Ld off base dst) s =
     s\<lparr>m_reg := (m_reg s)(dst := load_w (m_mem s) (m_reg s base + of_nat off))\<rparr>"
| "exec_instr Ret s =
     s\<lparr>m_pc := load_w (m_mem s) (m_reg s SP),
       m_reg := (m_reg s)(SP := m_reg s SP + of_nat (wbytes TYPE('w)))\<rparr>"

fun exec :: "instr list \<Rightarrow> 'w::len machine \<Rightarrow> 'w machine" where
  "exec [] s = s"
| "exec (i # is) s = exec is (exec_instr i s)"

text \<open>
  \<open>read_timestamp_counter\<close>: \<open>rdtsc\<close> leaves the halves of the counter in two registers, whose values are the arguments.
\<close>

definition read_timestamp_counter :: "32 word \<Rightarrow> 32 word \<Rightarrow> 64 word" where
  "read_timestamp_counter d a = push_bit 32 (ucast d) OR ucast a"

lemma read_timestamp_counter_value: "unat (read_timestamp_counter d a) = unat d * 2 ^ 32 + unat a"
proof -
  have "push_bit 32 (ucast d :: 64 word) AND ucast a = 0"
  proof (rule bit_word_eqI)
    fix n assume "n < LENGTH(64)"
    have "\<not> bit a n" if "32 \<le> n" using that by (simp add: impossible_bit)
    then show "bit (push_bit 32 (ucast d :: 64 word) AND ucast a) n \<longleftrightarrow> bit (0 :: 64 word) n" by (auto simp: bit_simps)
  qed
  then have e: "read_timestamp_counter d a = push_bit 32 (ucast d) + ucast a"
    by (simp add: read_timestamp_counter_def disjunctive_add_eq_or)
  have d: "unat d < 2 ^ 32" and a: "unat a < 2 ^ 32" using unsigned_less [of d] unsigned_less [of a] by simp_all
  have p: "unat (push_bit 32 (ucast d) :: 64 word) = unat d * 2 ^ 32"
    using d by (simp add: push_bit_eq_mult unat_word_ariths unsigned_ucast_eq take_bit_nat_eq_self)
  have "unat (ucast a :: 64 word) = unat a" using a by (simp add: unsigned_ucast_eq take_bit_nat_eq_self)
  then show ?thesis using d a unfolding e by (simp add: unat_word_ariths p)
qed

end
