(* ===== verification/Swap.thy ===== *)
theory Swap
  imports Machine
begin

section \<open>__swap\<close>

text \<open>
  The assembly of \<open>swap.h\<close>, instruction by instruction, for both architectures, and what it does: it
  fills the \<open>machine_state\<close> of the coroutine that stops with the callee-saved registers, the stack
  pointer and the return address, and continues where the \<open>machine_state\<close> of the other one points.
\<close>

record machine_state =
  stack_pointer :: "64 word"
  frame_pointer :: "64 word"
  insn_pointer :: "64 word"
  ms_ebx :: "64 word"
  ms_r12 :: "64 word"
  ms_r13 :: "64 word"
  ms_r14 :: "64 word"
  ms_r15 :: "64 word"

record machine_state32 =
  stack_pointer32 :: "32 word"
  frame_pointer32 :: "32 word"
  insn_pointer32 :: "32 word"
  ms32_ebx :: "32 word"
  ms32_esi :: "32 word"
  ms32_edi :: "32 word"

definition swap_x86_64 :: "instr list" where
  "swap_x86_64 =
    [St SP 0 SI, St BP 8 SI, Ld 0 SP AX, St AX 16 SI,
     St BX 24 SI, St R12 32 SI, St R13 40 SI, St R14 48 SI, St R15 56 SI,
     Ld 56 DI R15, Ld 48 DI R14, Ld 40 DI R13, Ld 32 DI R12, Ld 24 DI BX,
     Ld 8 DI BP, Ld 0 DI SP, Ld 16 DI AX, St AX 0 SP, Ret]"

definition swap_i386 :: "instr list" where
  "swap_i386 =
    [Ld 8 SP DX, St SP 0 DX, St BP 4 DX, Ld 0 SP AX, St AX 8 DX,
     St BX 12 DX, St SI 16 DX, St DI 20 DX,
     Ld 4 SP DX, Ld 20 DX DI, Ld 16 DX SI, Ld 12 DX BX,
     Ld 4 DX BP, Ld 0 DX SP, Ld 8 DX AX, St AX 0 SP, Ret]"

subsection \<open>The structure in memory\<close>

definition read_state :: "64 mem \<Rightarrow> 64 word \<Rightarrow> machine_state" where
  "read_state m a =
     \<lparr>stack_pointer = load_w m a, frame_pointer = load_w m (a + 8), insn_pointer = load_w m (a + 16),
      ms_ebx = load_w m (a + 24), ms_r12 = load_w m (a + 32), ms_r13 = load_w m (a + 40),
      ms_r14 = load_w m (a + 48), ms_r15 = load_w m (a + 56)\<rparr>"

definition write_state :: "64 mem \<Rightarrow> 64 word \<Rightarrow> machine_state \<Rightarrow> 64 mem" where
  "write_state m a t =
     store_w (store_w (store_w (store_w (store_w (store_w (store_w (store_w m
       a (stack_pointer t)) (a + 8) (frame_pointer t)) (a + 16) (insn_pointer t))
       (a + 24) (ms_ebx t)) (a + 32) (ms_r12 t)) (a + 40) (ms_r13 t)) (a + 48) (ms_r14 t)) (a + 56) (ms_r15 t)"

definition read_state32 :: "32 mem \<Rightarrow> 32 word \<Rightarrow> machine_state32" where
  "read_state32 m a =
     \<lparr>stack_pointer32 = load_w m a, frame_pointer32 = load_w m (a + 4), insn_pointer32 = load_w m (a + 8),
      ms32_ebx = load_w m (a + 12), ms32_esi = load_w m (a + 16), ms32_edi = load_w m (a + 20)\<rparr>"

definition write_state32 :: "32 mem \<Rightarrow> 32 word \<Rightarrow> machine_state32 \<Rightarrow> 32 mem" where
  "write_state32 m a t =
     store_w (store_w (store_w (store_w (store_w (store_w m
       a (stack_pointer32 t)) (a + 4) (frame_pointer32 t)) (a + 8) (insn_pointer32 t))
       (a + 12) (ms32_ebx t)) (a + 16) (ms32_esi t)) (a + 20) (ms32_edi t)"

lemma apart_sub:
  fixes a b :: "'w::len word"
  assumes "apart a n b k" "i + n' \<le> n" "j + k' \<le> k" "0 < n'" "0 < k'"
  shows "apart (a + of_nat i) n' (b + of_nat j) k'"
proof -
  have outside: "n' \<le> unat (b + of_nat j - (a + of_nat i))"
    if "apart a n b k" "i + n' \<le> n" "j + k' \<le> k" "0 < k'" "0 < n'" for a b :: "'w word" and n k i j n' k'
  proof -
    have o: "n \<le> unat (b + of_nat j - a)" using that by (intro apart_outside [OF that(1)]) simp
    have lt: "unat (b + of_nat j - a) < 2 ^ LENGTH('w)" by (rule unsigned_less)
    then have "i < 2 ^ LENGTH('w)" using that(2,5) o by linarith
    then have i: "unat (of_nat i :: 'w word) = i" by (simp add: unat_of_nat)
    have e: "b + of_nat j - (a + of_nat i) = b + of_nat j - a - of_nat i" by simp
    have "unat (b + of_nat j - (a + of_nat i)) = unat (b + of_nat j - a) - i"
      unfolding e using o that(2) i by (subst unat_sub) (simp_all add: word_le_nat_alt)
    then show ?thesis using o that(2) by linarith
  qed
  show ?thesis
    unfolding apart_def
    using outside [OF assms(1-3,5,4)] outside [OF apart_sym [OF assms(1)] assms(3,2,4,5)] by blast
qed

lemma apart_fields:
  assumes "apart a n b k" "unat i + n' \<le> n" "unat j + k' \<le> k" "0 < n'" "0 < k'"
  shows "apart (a + i) n' (b + j) k'"
  using apart_sub [OF assms(1), of "unat i" n' "unat j" k'] assms(2-) by simp

lemma apart_field_left: "apart a n b k \<Longrightarrow> unat i + n' \<le> n \<Longrightarrow> 0 < n' \<Longrightarrow> 0 < k \<Longrightarrow> apart (a + i) n' b k"
  using apart_fields [of a n b k i n' 0 k] by simp

lemma apart_field_right: "apart a n b k \<Longrightarrow> unat j + k' \<le> k \<Longrightarrow> 0 < k' \<Longrightarrow> 0 < n \<Longrightarrow> apart a n (b + j) k'"
  using apart_fields [of a n b k 0 n j k'] by simp

lemma apart_start_right: "apart a n b k \<Longrightarrow> k' \<le> k \<Longrightarrow> apart a n b k'"
  by (auto simp: apart_def)

lemma apart_start_left: "apart a n b k \<Longrightarrow> n' \<le> n \<Longrightarrow> apart a n' b k"
  by (auto simp: apart_def)

lemma diff_same_base [simp]: "(x :: 'w::len word) - (x + y) = - y"
  by simp

lemma apart_same [simp]:
  "apart (x + i) n (x + j) k = apart i n j k"
  "apart x n (x + j) k = apart 0 n j k"
  "apart (x + i) n x k = apart i n 0 k"
  by (simp_all add: apart_def)

lemma load_write_state:
  "apart a 64 b 8 \<Longrightarrow> load_w (write_state m a t) b = load_w m b"
  by (simp add: write_state_def m64.ld_apart apart_field_left apart_start_left)

lemma read_write_state: "read_state (write_state m a t) a = t"
  by (simp add: read_state_def write_state_def m64.ld_same m64.ld_apart apart_def)

lemma load_write_state32:
  "apart a 24 b 4 \<Longrightarrow> load_w (write_state32 m a t) b = load_w m b"
  by (simp add: write_state32_def m32.ld_apart apart_field_left apart_start_left)

lemma read_write_state32: "read_state32 (write_state32 m a t) a = t"
  by (simp add: read_state32_def write_state32_def m32.ld_same m32.ld_apart apart_def)

lemma read_state_apart: "apart a 64 b 64 \<Longrightarrow> read_state (write_state m a t) b = read_state m b"
  by (simp add: read_state_def load_write_state apart_field_right [where k = 64] apart_start_right [where k = 64])

lemma read_state32_apart: "apart a 24 b 24 \<Longrightarrow> read_state32 (write_state32 m a t) b = read_state32 m b"
  by (simp add: read_state32_def load_write_state32 apart_field_right [where k = 24] apart_start_right [where k = 24])

lemma bytes_store_w: "apart a (wbytes TYPE('w)) b k \<Longrightarrow> load_bytes (store_w m (a :: 'w::len word) v) b k = load_bytes m b k"
  by (simp add: store_w_def load_store_apart)

lemma bytes_write_state: "apart a 64 b k \<Longrightarrow> 0 < k \<Longrightarrow> load_bytes (write_state m a t) b k = load_bytes m b k"
  by (simp add: write_state_def bytes_store_w apart_field_left [where n = 64] apart_start_left [where n = 64])

subsection \<open>What the assembly does\<close>

definition stopped :: "64 machine \<Rightarrow> machine_state" where
  "stopped s =
     \<lparr>stack_pointer = m_reg s SP, frame_pointer = m_reg s BP, insn_pointer = load_w (m_mem s) (m_reg s SP),
      ms_ebx = m_reg s BX, ms_r12 = m_reg s R12, ms_r13 = m_reg s R13, ms_r14 = m_reg s R14,
      ms_r15 = m_reg s R15\<rparr>"

definition runs_as :: "64 machine \<Rightarrow> machine_state \<Rightarrow> bool" where
  "runs_as s t \<longleftrightarrow>
     m_pc s = insn_pointer t \<and> m_reg s SP = stack_pointer t + 8 \<and> m_reg s BP = frame_pointer t \<and>
     m_reg s BX = ms_ebx t \<and> m_reg s R12 = ms_r12 t \<and> m_reg s R13 = ms_r13 t \<and>
     m_reg s R14 = ms_r14 t \<and> m_reg s R15 = ms_r15 t"

lemma exec_append: "exec (xs @ ys) s = exec ys (exec xs s)"
  by (induction xs arbitrary: s) auto

lemma swap_saves:
  assumes "apart (m_reg s SI) 64 (m_reg s SP) 8"
  shows "exec (take 9 swap_x86_64) s =
    s\<lparr>m_mem := write_state (m_mem s) (m_reg s SI) (stopped s),
      m_reg := (m_reg s)(AX := load_w (m_mem s) (m_reg s SP))\<rparr>"
proof -
  have "load_w (store_w (store_w (m_mem s) (m_reg s SI) u) (m_reg s SI + 8) v) (m_reg s SP)
      = load_w (m_mem s) (m_reg s SP)" for u v
    using assms by (simp add: m64.ld_apart apart_field_left [where n = 64] apart_start_left [where n = 64])
  then show ?thesis
    by (simp add: swap_x86_64_def write_state_def stopped_def)
qed

lemma swap_loads:
  "exec (drop 9 swap_x86_64) s =
    (let t = read_state (m_mem s) (m_reg s DI) in
     s\<lparr>m_mem := store_w (m_mem s) (stack_pointer t) (insn_pointer t),
       m_pc := insn_pointer t,
       m_reg := (m_reg s)(R15 := ms_r15 t, R14 := ms_r14 t, R13 := ms_r13 t, R12 := ms_r12 t, BX := ms_ebx t,
          BP := frame_pointer t, AX := insn_pointer t, SP := stack_pointer t + 8)\<rparr>)"
  by (simp add: swap_x86_64_def read_state_def Let_def m64.ld_same fun_upd_twist)

lemma swap_x86_64_effect:
  assumes "apart (m_reg s SI) 64 (m_reg s SP) 8" "apart (m_reg s SI) 64 (m_reg s DI) 64"
    and "apart (m_reg s SI) 64 (stack_pointer (read_state (m_mem s) (m_reg s DI))) 8"
  shows "read_state (m_mem (exec swap_x86_64 s)) (m_reg s SI) = stopped s
    \<and> runs_as (exec swap_x86_64 s) (read_state (m_mem s) (m_reg s DI))
    \<and> m_reg (exec swap_x86_64 s) DI = m_reg s DI
    \<and> (\<forall>a n. 0 < n \<longrightarrow> apart (m_reg s SI) 64 a n
          \<longrightarrow> apart (stack_pointer (read_state (m_mem s) (m_reg s DI))) 8 a n
          \<longrightarrow> load_bytes (m_mem (exec swap_x86_64 s)) a n = load_bytes (m_mem s) a n)"
proof -
  let ?F = "m_reg s SI" and ?T = "m_reg s DI"
  let ?t = "read_state (m_mem s) ?T"
  let ?m = "write_state (m_mem s) ?F (stopped s)"
  have "exec swap_x86_64 s = exec (drop 9 swap_x86_64) (exec (take 9 swap_x86_64) s)"
    by (simp flip: exec_append)
  also have "\<dots> = (let s1 = s\<lparr>m_mem := ?m, m_reg := (m_reg s)(AX := load_w (m_mem s) (m_reg s SP))\<rparr> in
      s1\<lparr>m_mem := store_w ?m (stack_pointer ?t) (insn_pointer ?t), m_pc := insn_pointer ?t,
       m_reg := (m_reg s1)(R15 := ms_r15 ?t, R14 := ms_r14 ?t, R13 := ms_r13 ?t, R12 := ms_r12 ?t, BX := ms_ebx ?t,
          BP := frame_pointer ?t, AX := insn_pointer ?t, SP := stack_pointer ?t + 8)\<rparr>)"
    unfolding swap_saves [OF assms(1)] swap_loads using read_state_apart [OF assms(2)] by (simp add: Let_def)
  finally have e: "exec swap_x86_64 s = \<dots>" .
  have "read_state (store_w ?m (stack_pointer ?t) (insn_pointer ?t)) ?F = read_state ?m ?F"
    using apart_sym [OF assms(3)]
    by (simp add: read_state_def m64.ld_apart apart_field_right [where k = 64] apart_start_right [where k = 64])
  then show ?thesis
    unfolding e by (simp add: Let_def read_write_state runs_as_def bytes_store_w bytes_write_state)
qed

text \<open>
  C3: on x86_64 \<open>__swap\<close> saves the running context (stack pointer, frame pointer, return address and the
  callee-saved registers) in the structure \<open>rsi\<close> points to and continues the context in the structure
  \<open>rdi\<close> points to, as if that context had just returned from its own call of \<open>__swap\<close>.  It writes
  nothing else but the return address of the context it continues, and it leaves \<open>rdi\<close> alone, so that
  a coroutine that starts in \<open>_wrap0\<close> finds its own object in the register of the first argument.
\<close>

theorem swap_x86_64_switches:
  assumes "apart (m_reg s SI) 64 (m_reg s SP) 8" "apart (m_reg s SI) 64 (m_reg s DI) 64"
    and "apart (m_reg s SI) 64 (stack_pointer (read_state (m_mem s) (m_reg s DI))) 8"
  shows "read_state (m_mem (exec swap_x86_64 s)) (m_reg s SI) = stopped s
    \<and> runs_as (exec swap_x86_64 s) (read_state (m_mem s) (m_reg s DI))
    \<and> m_reg (exec swap_x86_64 s) DI = m_reg s DI
    \<and> (\<forall>a n. 0 < n \<longrightarrow> apart (m_reg s SI) 64 a n
          \<longrightarrow> apart (stack_pointer (read_state (m_mem s) (m_reg s DI))) 8 a n
          \<longrightarrow> load_bytes (m_mem (exec swap_x86_64 s)) a n = load_bytes (m_mem s) a n)"
  using assms by (rule swap_x86_64_effect)

text \<open>Two structures at 1000 and 2000 in an empty memory, and a stack below 5000.\<close>

definition ex_machine :: "64 machine" where
  "ex_machine = \<lparr>m_reg = (\<lambda>r. case r of SI \<Rightarrow> 1000 | DI \<Rightarrow> 2000 | SP \<Rightarrow> 5000 | BX \<Rightarrow> 77 | _ \<Rightarrow> 1), m_mem = (\<lambda>_. 0), m_pc = 0\<rparr>"

lemma load_zeros: "load_w (\<lambda>_. 0) a = 0"
proof -
  have "word_of_bytes (load_bytes (\<lambda>_. 0) a n) = (0 :: 'a word)" for n
    by (induction n arbitrary: a) simp_all
  then show ?thesis by (simp add: load_w_def)
qed

theorem swap_x86_64_switches_witness:
  "ms_ebx (read_state (m_mem (exec swap_x86_64 ex_machine)) 1000) = 77
   \<and> stack_pointer (read_state (m_mem (exec swap_x86_64 ex_machine)) 1000) = 5000
   \<and> m_reg (exec swap_x86_64 ex_machine) SP = 8"
proof -
  have "stack_pointer (read_state (m_mem ex_machine) (m_reg ex_machine DI)) = 0"
    by (simp add: read_state_def ex_machine_def load_zeros)
  then show ?thesis
    using swap_x86_64_switches [of ex_machine]
    by (simp add: ex_machine_def apart_def runs_as_def stopped_def)
qed

subsection \<open>i386\<close>

definition stopped32 :: "32 machine \<Rightarrow> machine_state32" where
  "stopped32 s =
     \<lparr>stack_pointer32 = m_reg s SP, frame_pointer32 = m_reg s BP,
      insn_pointer32 = load_w (m_mem s) (m_reg s SP),
      ms32_ebx = m_reg s BX, ms32_esi = m_reg s SI, ms32_edi = m_reg s DI\<rparr>"

definition runs_as32 :: "32 machine \<Rightarrow> machine_state32 \<Rightarrow> bool" where
  "runs_as32 s t \<longleftrightarrow>
     m_pc s = insn_pointer32 t \<and> m_reg s SP = stack_pointer32 t + 4 \<and> m_reg s BP = frame_pointer32 t \<and>
     m_reg s BX = ms32_ebx t \<and> m_reg s SI = ms32_esi t \<and> m_reg s DI = ms32_edi t"

lemma bytes_write_state32:
  "apart a 24 b k \<Longrightarrow> 0 < k \<Longrightarrow> load_bytes (write_state32 m a t) b k = load_bytes m b k"
  by (simp add: write_state32_def bytes_store_w apart_field_left [where n = 24] apart_start_left [where n = 24])

lemma swap32_saves:
  assumes "load_w (m_mem s) (m_reg s SP + 8) = F" "apart F 24 (m_reg s SP) 12"
  shows "exec (take 8 swap_i386) s =
    s\<lparr>m_mem := write_state32 (m_mem s) F (stopped32 s),
      m_reg := (m_reg s)(DX := F, AX := load_w (m_mem s) (m_reg s SP))\<rparr>"
proof -
  have "apart F 24 (m_reg s SP) 4" using assms(2) by (rule apart_start_right) simp
  then have "load_w (store_w (store_w (m_mem s) F u) (F + 4) v) (m_reg s SP) = load_w (m_mem s) (m_reg s SP)" for u v
    by (simp add: m32.ld_apart apart_field_left [where n = 24] apart_start_left [where n = 24])
  then show ?thesis
    using assms(1) by (simp add: swap_i386_def write_state32_def stopped32_def)
qed

lemma swap32_loads:
  "exec (drop 8 swap_i386) s =
    (let T = load_w (m_mem s) (m_reg s SP + 4); t = read_state32 (m_mem s) T in
     s\<lparr>m_mem := store_w (m_mem s) (stack_pointer32 t) (insn_pointer32 t),
       m_pc := insn_pointer32 t,
       m_reg := (m_reg s)(DX := T, DI := ms32_edi t, SI := ms32_esi t, BX := ms32_ebx t,
          BP := frame_pointer32 t, AX := insn_pointer32 t, SP := stack_pointer32 t + 4)\<rparr>)"
  by (simp add: swap_i386_def read_state32_def Let_def m32.ld_same fun_upd_twist)

lemma swap_i386_effect:
  assumes "load_w (m_mem s) (m_reg s SP + 8) = F" "load_w (m_mem s) (m_reg s SP + 4) = T"
    and "apart F 24 (m_reg s SP) 12" "apart F 24 T 24"
    and "apart F 24 (stack_pointer32 (read_state32 (m_mem s) T)) 4"
  shows "read_state32 (m_mem (exec swap_i386 s)) F = stopped32 s
    \<and> runs_as32 (exec swap_i386 s) (read_state32 (m_mem s) T)
    \<and> (\<forall>a n. 0 < n \<longrightarrow> apart F 24 a n
          \<longrightarrow> apart (stack_pointer32 (read_state32 (m_mem s) T)) 4 a n
          \<longrightarrow> load_bytes (m_mem (exec swap_i386 s)) a n = load_bytes (m_mem s) a n)"
proof -
  let ?t = "read_state32 (m_mem s) T"
  let ?m = "write_state32 (m_mem s) F (stopped32 s)"
  let ?s1 = "s\<lparr>m_mem := ?m, m_reg := (m_reg s)(DX := F, AX := load_w (m_mem s) (m_reg s SP))\<rparr>"
  have "apart F 24 (m_reg s SP + 4) 4" using assms(3) by (rule apart_field_right) simp_all
  then have T: "load_w ?m (m_reg s SP + 4) = T" using assms(2) by (simp add: load_write_state32)
  have "exec swap_i386 s = exec (drop 8 swap_i386) (exec (take 8 swap_i386) s)"
    by (simp flip: exec_append)
  also have "\<dots> = ?s1\<lparr>m_mem := store_w ?m (stack_pointer32 ?t) (insn_pointer32 ?t), m_pc := insn_pointer32 ?t,
       m_reg := (m_reg ?s1)(DX := T, DI := ms32_edi ?t, SI := ms32_esi ?t, BX := ms32_ebx ?t,
          BP := frame_pointer32 ?t, AX := insn_pointer32 ?t, SP := stack_pointer32 ?t + 4)\<rparr>"
    unfolding swap32_saves [OF assms(1,3)] swap32_loads using T read_state32_apart [OF assms(4)] by (simp add: Let_def)
  finally have e: "exec swap_i386 s = \<dots>" .
  have "read_state32 (store_w ?m (stack_pointer32 ?t) (insn_pointer32 ?t)) F = read_state32 ?m F"
    using apart_sym [OF assms(5)]
    by (simp add: read_state32_def m32.ld_apart apart_field_right [where k = 24] apart_start_right [where k = 24])
  then show ?thesis
    unfolding e by (simp add: read_write_state32 runs_as32_def bytes_store_w bytes_write_state32)
qed

text \<open>
  the same on i386, where the two structures are passed on the stack, \<open>to_state\<close> at
  \<open>4(%esp)\<close> and \<open>from_state\<close> at \<open>8(%esp)\<close>, and \<open>esi\<close> and \<open>edi\<close> are saved in place of \<open>r12\<close> to \<open>r15\<close>.
\<close>

theorem swap_i386_switches:
  assumes "load_w (m_mem s) (m_reg s SP + 8) = F" "load_w (m_mem s) (m_reg s SP + 4) = T"
    and "apart F 24 (m_reg s SP) 12" "apart F 24 T 24"
    and "apart F 24 (stack_pointer32 (read_state32 (m_mem s) T)) 4"
  shows "read_state32 (m_mem (exec swap_i386 s)) F = stopped32 s
    \<and> runs_as32 (exec swap_i386 s) (read_state32 (m_mem s) T)
    \<and> (\<forall>a n. 0 < n \<longrightarrow> apart F 24 a n
          \<longrightarrow> apart (stack_pointer32 (read_state32 (m_mem s) T)) 4 a n
          \<longrightarrow> load_bytes (m_mem (exec swap_i386 s)) a n = load_bytes (m_mem s) a n)"
  using assms by (rule swap_i386_effect)

definition ex_machine32 :: "32 machine" where
  "ex_machine32 = \<lparr>m_reg = (\<lambda>r. if r = SP then 5000 else 7),
     m_mem = store_w (store_w (\<lambda>_. 0) 5004 2000) 5008 1000, m_pc = 0\<rparr>"

theorem swap_i386_switches_witness:
  "stack_pointer32 (read_state32 (m_mem (exec swap_i386 ex_machine32)) 1000) = 5000
   \<and> ms32_edi (read_state32 (m_mem (exec swap_i386 ex_machine32)) 1000) = 7"
proof -
  let ?m = "m_mem ex_machine32"
  have sp: "m_reg ex_machine32 SP = 5000" "m_reg ex_machine32 DI = 7" by (simp_all add: ex_machine32_def)
  have "load_w ?m 5008 = 1000" "load_w ?m 5004 = 2000" "stack_pointer32 (read_state32 ?m 2000) = 0"
    by (simp_all add: ex_machine32_def m32.ld_same m32.ld_apart apart_def read_state32_def load_zeros)
  then show ?thesis
    using swap_i386_switches [of ex_machine32 1000 2000] sp by (simp add: apart_def runs_as32_def stopped32_def)
qed

end
