(* ===== verification/Stack_Copy.thy ===== *)
theory Stack_Copy
  imports Swap
begin

section \<open>create, preserve and restore on the machine\<close>

text \<open>
  The three functions of \<open>class coro\<close> that touch the coroutine stack, on the memory of the machine.
  \<open>_state\<close> is the first member of \<open>class coro\<close> and the class has no virtual functions, so the address
  of the object is the address of its \<open>machine_state\<close>.  \<open>stk_top\<close> is \<open>_stack_top\<close>; a saved stack is
  the list of bytes in the block that \<open>malloc\<close> returned.  This is what the abstract \<open>preserve\<close> and
  \<open>restore\<close> of theory \<open>Coro\<close> stand for: \<open>coroutine_continues\<close> shows that a coroutine continues with
  the registers and with the bytes of the stack it had, whatever has run on the stack in between.
\<close>

definition create64 :: "64 word \<Rightarrow> 64 word \<Rightarrow> 64 word \<Rightarrow> 64 mem \<Rightarrow> 64 mem" where
  "create64 stk_top self wrap0 m =
     (let m1 = store_w m (stk_top - 40) 0;
          m2 = store_w m1 (stk_top - 32) self;
          m3 = store_w m2 self (stk_top - 48);
          m4 = store_w m3 (self + 8) (stk_top - 40)
      in store_w m4 (self + 16) wrap0)"

definition preserve64 :: "64 word \<Rightarrow> 64 word \<Rightarrow> 64 mem \<Rightarrow> byte list" where
  "preserve64 stk_top self m =
     (let sp = stack_pointer (read_state m self) in load_bytes m sp (unat (stk_top - sp)))"

definition restore64 :: "64 word \<Rightarrow> byte list \<Rightarrow> 64 mem \<Rightarrow> 64 mem" where
  "restore64 self stack_copy m = store_bytes m (stack_pointer (read_state m self)) stack_copy"

definition create32 :: "32 word \<Rightarrow> 32 word \<Rightarrow> 32 word \<Rightarrow> 32 mem \<Rightarrow> 32 mem" where
  "create32 stk_top self wrap0 m =
     (let m1 = store_w m (stk_top - 20) 0;
          m2 = store_w m1 (stk_top - 16) self;
          m3 = store_w m2 self (stk_top - 24);
          m4 = store_w m3 (self + 4) (stk_top - 20)
      in store_w m4 (self + 8) wrap0)"

lemma load_bytes_part:
  "i + k \<le> n \<Longrightarrow> load_bytes m (a + of_nat i) k = take k (drop i (load_bytes m a n))"
  by (rule nth_equalityI) (simp_all add: nth_load_bytes add.assoc)

lemma read_state_store:
  "apart b n a 64 \<Longrightarrow> length bs = n \<Longrightarrow> 0 < n \<Longrightarrow> read_state (store_bytes m b bs) a = read_state m a"
  by (simp add: read_state_def load_w_def load_store_apart apart_field_right [where k = 64]
      apart_start_right [where k = 64])

text \<open>
  C2: stack copying is sound down to the bytes.  A coroutine calls \<open>__swap\<close> and stops with stack
  pointer \<open>sp\<close>; \<open>preserve\<close> copies the slice from \<open>sp\<close> to the top of the stack.  Whatever then happens to
  the registers and the memory, other coroutines using the same stack included, as long as the
  \<open>machine_state\<close> of the coroutine is kept: \<open>restore\<close> and \<open>__swap\<close> continue the coroutine after its
  call, with its callee-saved registers, its stack pointer and every byte of its stack.
\<close>

theorem coroutine_continues:
  fixes s s2 :: "64 machine" and stk_top self main :: "64 word"
  defines "sp \<equiv> m_reg s SP" and "n \<equiv> unat (stk_top - m_reg s SP)"
    and "copy \<equiv> preserve64 stk_top self (m_mem (exec swap_x86_64 s))"
  defines "s3 \<equiv> exec swap_x86_64 (s2\<lparr>m_mem := restore64 self copy (m_mem s2)\<rparr>)"
  assumes out: "m_reg s SI = self" "m_reg s DI = main"
    and again: "m_reg s2 SI = main" "m_reg s2 DI = self"
    and kept: "read_state (m_mem s2) self = read_state (m_mem (exec swap_x86_64 s)) self"
    and layout: "apart self 64 main 64" "apart self 64 sp n" "apart main 64 sp n" "8 \<le> n"
    and main_stack: "apart self 64 (stack_pointer (read_state (m_mem s) main)) 8"
      "apart (stack_pointer (read_state (m_mem s) main)) 8 sp n" "apart main 64 (m_reg s2 SP) 8"
  shows "runs_as s3 (stopped s)
    \<and> load_bytes (m_mem s3) (sp + 8) (n - 8) = load_bytes (m_mem s) (sp + 8) (n - 8)"
proof -
  let ?s1 = "exec swap_x86_64 s"
  have sp8: "apart self 64 sp 8" "apart main 64 sp 8"
    using layout(2-4) by (auto intro: apart_start_right)
  have sw1: "read_state (m_mem ?s1) self = stopped s"
    "load_bytes (m_mem ?s1) sp n = load_bytes (m_mem s) sp n"
    using swap_x86_64_effect [of s] out sp8(1) layout main_stack(1,2) by (simp_all add: sp_def)
  have "stack_pointer (stopped s) = sp" by (simp add: stopped_def sp_def)
  then have copy: "copy = load_bytes (m_mem s) sp n"
    using sw1 by (simp add: copy_def preserve64_def n_def sp_def Let_def)
  let ?m2 = "restore64 self copy (m_mem s2)"
  have m2: "?m2 = store_bytes (m_mem s2) sp copy"
    using kept sw1(1) \<open>stack_pointer (stopped s) = sp\<close> by (simp add: restore64_def)
  have st2: "read_state ?m2 self = stopped s"
    unfolding m2 using kept sw1(1) apart_sym [OF layout(2)] layout(4) copy by (simp add: read_state_store)
  let ?s2 = "s2\<lparr>m_mem := ?m2\<rparr>"
  have sw2: "runs_as s3 (stopped s)"
    "\<And>a k. 0 < k \<Longrightarrow> apart main 64 a k \<Longrightarrow> apart sp 8 a k \<Longrightarrow> load_bytes (m_mem s3) a k = load_bytes ?m2 a k"
    using swap_x86_64_effect [of ?s2] again st2 main_stack(3) apart_sym [OF layout(1)] sp8(2)
      \<open>stack_pointer (stopped s) = sp\<close> by (simp_all add: s3_def)
  have small: "n \<le> 2 ^ LENGTH(64)" unfolding n_def by (rule less_imp_le [OF unsigned_less])
  have part: "load_bytes m (sp + 8) (n - 8) = drop 8 (load_bytes m sp n)" for m
    using load_bytes_part [of 8 "n - 8" n m sp] layout(4) by simp
  have whole: "load_bytes ?m2 sp n = load_bytes (m_mem s) sp n"
    unfolding m2 unfolding copy
    using load_store_same [of "load_bytes (m_mem s) sp n" "m_mem s2" sp] small by simp
  have "load_bytes (m_mem s3) (sp + 8) (n - 8) = load_bytes ?m2 (sp + 8) (n - 8)"
  proof (cases "n = 8")
    case True
    then show ?thesis by simp
  next
    case False
    have "n < 2 ^ 64" unfolding n_def using unsigned_less [of "stk_top - m_reg s SP"] by simp
    then have "apart sp 8 (sp + 8) (n - 8)" by (simp add: apart_def)
    moreover have "apart main 64 (sp + 8) (n - 8)"
      using layout(3,4) False by (intro apart_field_right [OF layout(3)]) simp_all
    ultimately show ?thesis using sw2(2) False layout(4) by simp
  qed
  then show ?thesis using sw2(1) part whole by simp
qed

text \<open>
  The coroutine of \<open>ex_machine\<close> stops with 100 bytes on its stack; then the memory is overwritten
  everywhere but in its \<open>machine_state\<close>.
\<close>

definition ex_machine2 :: "64 machine" where
  "ex_machine2 = \<lparr>m_reg = (\<lambda>r. case r of SI \<Rightarrow> 2000 | DI \<Rightarrow> 1000 | SP \<Rightarrow> 8000 | _ \<Rightarrow> 3),
     m_mem = write_state (\<lambda>_. 9) 1000 (stopped ex_machine), m_pc = 0\<rparr>"

theorem coroutine_continues_witness:
  "let copy = preserve64 5100 1000 (m_mem (exec swap_x86_64 ex_machine));
       s3 = exec swap_x86_64 (ex_machine2\<lparr>m_mem := restore64 1000 copy (m_mem ex_machine2)\<rparr>)
   in m_reg s3 BX = 77 \<and> m_reg s3 SP = 5008 \<and> load_bytes (m_mem s3) 5008 92 = load_bytes (m_mem ex_machine) 5008 92"
proof -
  let ?s = ex_machine and ?s2 = ex_machine2
  have reg: "m_reg ?s SI = 1000" "m_reg ?s DI = 2000" "m_reg ?s SP = 5000" "m_reg ?s BX = 77"
    "m_reg ?s2 SI = 2000" "m_reg ?s2 DI = 1000" "m_reg ?s2 SP = 8000" "m_mem ?s = (\<lambda>_. 0)"
    by (simp_all add: ex_machine_def ex_machine2_def)
  have main: "stack_pointer (read_state (m_mem ?s) 2000) = 0" by (simp add: read_state_def reg load_zeros)
  have "read_state (m_mem (exec swap_x86_64 ?s)) 1000 = stopped ?s"
    using swap_x86_64_effect [of ?s] main by (simp add: reg apart_def)
  then have kept: "read_state (m_mem ?s2) 1000 = read_state (m_mem (exec swap_x86_64 ?s)) 1000"
    by (simp add: ex_machine2_def read_write_state)
  show ?thesis
    using coroutine_continues [OF reg(1,2,5,6) kept, of 5100] main
    by (simp add: Let_def reg apart_def runs_as_def stopped_def)
qed

text \<open>
  the first switch to a coroutine set up by \<open>create\<close> enters \<open>_wrap0\<close> on an otherwise empty stack
  with the coroutine object as its argument: in \<open>rdi\<close>, where \<open>__swap\<close> happens to have it, and
  with a return address of 0 below it.
\<close>

theorem create_enters_wrap0:
  fixes s :: "64 machine" and stk_top self main wrap0 :: "64 word"
  assumes "m_reg s SI = main" "m_reg s DI = self"
    and "apart self 64 main 64" "apart self 64 (stk_top - 48) 48" "apart main 64 (stk_top - 48) 48"
    and "apart main 64 (m_reg s SP) 8"
  defines "s' \<equiv> exec swap_x86_64 (s\<lparr>m_mem := create64 stk_top self wrap0 (m_mem s)\<rparr>)"
  shows "m_pc s' = wrap0 \<and> m_reg s' DI = self \<and> m_reg s' SP = stk_top - 40 \<and> m_reg s' BP = stk_top - 40
    \<and> load_w (m_mem s') (stk_top - 40) = 0 \<and> load_w (m_mem s') (stk_top - 32) = self"
proof -
  let ?m = "create64 stk_top self wrap0 (m_mem s)"
  have a: "apart self 64 (stk_top - 40) 8" "apart self 64 (stk_top - 32) 8"
    "apart main 64 (stk_top - 40) 8" "apart main 64 (stk_top - 32) 8" "apart main 64 (stk_top - 48) 8"
  proof -
    have "apart self 64 (stk_top - 48 + 8) 8" "apart self 64 (stk_top - 48 + 16) 8"
      by (rule apart_field_right [OF assms(4)]; simp)+
    moreover have "apart main 64 (stk_top - 48 + 8) 8" "apart main 64 (stk_top - 48 + 16) 8"
      by (rule apart_field_right [OF assms(5)]; simp)+
    moreover have "apart main 64 (stk_top - 48) 8" by (rule apart_start_right [OF assms(5)]) simp_all
    ultimately show "apart self 64 (stk_top - 40) 8" "apart self 64 (stk_top - 32) 8"
      "apart main 64 (stk_top - 40) 8" "apart main 64 (stk_top - 32) 8" "apart main 64 (stk_top - 48) 8"
      by (simp_all add: algebra_simps)
  qed
  have st: "stack_pointer (read_state ?m self) = stk_top - 48" "frame_pointer (read_state ?m self) = stk_top - 40"
    "insn_pointer (read_state ?m self) = wrap0"
    by (simp_all add: create64_def Let_def read_state_def m64.ld_same m64.ld_apart apart_def)
  have "apart (stk_top - 40) 8 (stk_top - 32) 8" "apart (stk_top - 48) 8 (stk_top - 40) 8" "apart (stk_top - 48) 8 (stk_top - 32) 8"
    by (simp_all add: apart_def)
  note slots = this this [THEN apart_sym]
  have mem: "load_w ?m (stk_top - 40) = 0" "load_w ?m (stk_top - 32) = self"
    using a(1,2) slots
    by (simp_all add: create64_def Let_def m64.ld_same m64.ld_apart apart_field_left [where n = 64]
        apart_start_left [where n = 64])
  let ?s = "s\<lparr>m_mem := ?m\<rparr>"
  have sw: "runs_as s' (read_state ?m self)" "m_reg s' DI = self"
    "\<And>b k. 0 < k \<Longrightarrow> apart main 64 b k \<Longrightarrow> apart (stk_top - 48) 8 b k \<Longrightarrow> load_bytes (m_mem s') b k = load_bytes ?m b k"
    using swap_x86_64_effect [of ?s] assms(1,2,6) apart_sym [OF assms(3)] a(5) st(1)
    by (simp_all add: s'_def)
  have "load_w (m_mem s') (stk_top - 40) = load_w ?m (stk_top - 40)" "load_w (m_mem s') (stk_top - 32) = load_w ?m (stk_top - 32)"
    using sw(3) a(3,4) slots by (simp_all add: load_w_def)
  then show ?thesis using sw(1,2) st mem by (simp add: runs_as_def)
qed

theorem create_enters_wrap0_witness:
  "let s' = exec swap_x86_64 (ex_machine2\<lparr>m_mem := create64 5100 1000 4242 (m_mem ex_machine2)\<rparr>)
   in m_pc s' = 4242 \<and> m_reg s' DI = 1000"
  using create_enters_wrap0 [of ex_machine2 2000 1000 5100 4242]
  by (simp add: Let_def ex_machine2_def apart_def)

text \<open>
  on i386 the same set-up gives \<open>_wrap0\<close> its argument on the stack: above the return address 0 lies
  the coroutine object.
\<close>

theorem create_enters_wrap0_i386:
  fixes s :: "32 machine" and stk_top self main wrap0 :: "32 word"
  defines "m \<equiv> create32 stk_top self wrap0 (m_mem s)"
  defines "s' \<equiv> exec swap_i386 (s\<lparr>m_mem := m\<rparr>)"
  assumes "load_w m (m_reg s SP + 8) = main" "load_w m (m_reg s SP + 4) = self"
    and "apart self 24 main 24" "apart self 24 (stk_top - 24) 24" "apart main 24 (stk_top - 24) 24"
    and "apart main 24 (m_reg s SP) 12"
  shows "m_pc s' = wrap0 \<and> m_reg s' SP = stk_top - 20 \<and> m_reg s' BP = stk_top - 20
    \<and> load_w (m_mem s') (m_reg s' SP) = 0 \<and> load_w (m_mem s') (m_reg s' SP + 4) = self"
proof -
  have a: "apart self 24 (stk_top - 20) 4" "apart self 24 (stk_top - 16) 4"
    "apart main 24 (stk_top - 20) 4" "apart main 24 (stk_top - 16) 4" "apart main 24 (stk_top - 24) 4"
  proof -
    have "apart self 24 (stk_top - 24 + 4) 4" "apart self 24 (stk_top - 24 + 8) 4"
      by (rule apart_field_right [OF assms(6)]; simp)+
    moreover have "apart main 24 (stk_top - 24 + 4) 4" "apart main 24 (stk_top - 24 + 8) 4"
      by (rule apart_field_right [OF assms(7)]; simp)+
    moreover have "apart main 24 (stk_top - 24) 4" by (rule apart_start_right [OF assms(7)]) simp_all
    ultimately show "apart self 24 (stk_top - 20) 4" "apart self 24 (stk_top - 16) 4"
      "apart main 24 (stk_top - 20) 4" "apart main 24 (stk_top - 16) 4" "apart main 24 (stk_top - 24) 4"
      by (simp_all add: algebra_simps)
  qed
  have st: "stack_pointer32 (read_state32 m self) = stk_top - 24" "frame_pointer32 (read_state32 m self) = stk_top - 20"
    "insn_pointer32 (read_state32 m self) = wrap0"
    by (simp_all add: m_def create32_def Let_def read_state32_def m32.ld_same m32.ld_apart apart_def)
  have "apart (stk_top - 20) 4 (stk_top - 16) 4" "apart (stk_top - 24) 4 (stk_top - 20) 4" "apart (stk_top - 24) 4 (stk_top - 16) 4"
    by (simp_all add: apart_def)
  note slots = this this [THEN apart_sym]
  have mem: "load_w m (stk_top - 20) = 0" "load_w m (stk_top - 16) = self"
    using a(1,2) slots
    by (simp_all add: m_def create32_def Let_def m32.ld_same m32.ld_apart apart_field_left [where n = 24]
        apart_start_left [where n = 24])
  have sw: "runs_as32 s' (read_state32 m self)"
    "\<And>b k. 0 < k \<Longrightarrow> apart main 24 b k \<Longrightarrow> apart (stk_top - 24) 4 b k \<Longrightarrow> load_bytes (m_mem s') b k = load_bytes m b k"
    using swap_i386_effect [of "s\<lparr>m_mem := m\<rparr>" main self] assms(3,4,8) apart_sym [OF assms(5)] a(5) st(1)
    by (simp_all add: s'_def)
  have "load_w (m_mem s') (stk_top - 20) = load_w m (stk_top - 20)" "load_w (m_mem s') (stk_top - 16) = load_w m (stk_top - 16)"
    using sw(2) a(3,4) slots by (simp_all add: load_w_def)
  moreover have "stk_top - 20 + 4 = stk_top - 16" by (simp add: algebra_simps)
  moreover have "stk_top - 24 + 4 = stk_top - 20" by (simp add: algebra_simps)
  ultimately show ?thesis using sw(1) st mem by (simp add: runs_as32_def)
qed

theorem create_enters_wrap0_i386_witness:
  "let s' = exec swap_i386 (ex_machine32\<lparr>m_mem := create32 6000 2000 4242 (m_mem ex_machine32)\<rparr>)
   in m_pc s' = 4242 \<and> load_w (m_mem s') (m_reg s' SP + 4) = 2000"
proof -
  have "m_reg ex_machine32 SP = 5000" by (simp add: ex_machine32_def)
  moreover have "load_w (create32 6000 2000 4242 (m_mem ex_machine32)) 5008 = 1000"
    "load_w (create32 6000 2000 4242 (m_mem ex_machine32)) 5004 = 2000"
    by (simp_all add: create32_def ex_machine32_def Let_def m32.ld_same m32.ld_apart apart_def)
  ultimately show ?thesis
    using create_enters_wrap0_i386 [of 6000 2000 4242 ex_machine32 1000] by (auto simp: Let_def apart_def)
qed

end
