(* ===== verification/Sync.thy ===== *)
theory Sync
  imports Coro Example
begin

section \<open>Condition variables, latches and queues\<close>

text \<open>
  \<open>sync.h\<close>: \<open>class condition_variable\<close>, \<open>class latch\<close> and \<open>template class fifo\<close>, on the scheduler of theory
  \<open>Coro\<close>.  An operation works on the object and on the world.  Where it calls \<open>yield\<close>, its result is
  the \<open>ending\<close> of the calling thread's turn, and the continuation it is given is the point of the
  thread after the call.  The second part is a step relation for a \<open>fifo\<close> that any number of
  coroutines push to and pop from, scheduled in any order, with its invariant.
\<close>

subsection \<open>The operations\<close>

type_synonym coro_queue = "cid list"

record condition_variable =
  cv_waiting :: coro_queue

definition cv_wait :: "'s frames \<Rightarrow> (condition_variable \<times> ('s, 'p) world, 's ending) op" where
  "cv_wait k s =
     (case s of (cv, w) \<Rightarrow>
        (case w_current w of
           None \<Rightarrow> (Raise (Thrown ''wait() from main''), (cv, w))
         | Some c \<Rightarrow>
             (case yield 0 k w of
                (r, w') \<Rightarrow> (r, (cv\<lparr>cv_waiting := cv_waiting cv @ [c]\<rparr>, w')))))"

definition cv_wake_one :: "pval \<Rightarrow> (condition_variable \<times> ('s, 'p) world, bool) op" where
  "cv_wake_one arg s =
     (case s of (cv, w) \<Rightarrow>
        if length (cv_waiting cv) > 0 then
          (case schedule (hd (cv_waiting cv)) arg w of
             (Val _, w') \<Rightarrow> (Val True, (cv\<lparr>cv_waiting := tl (cv_waiting cv)\<rparr>, w'))
           | (Raise e, w') \<Rightarrow> (Raise e, (cv\<lparr>cv_waiting := tl (cv_waiting cv)\<rparr>, w'))
           | (Stuck, w') \<Rightarrow> (Stuck, (cv\<lparr>cv_waiting := tl (cv_waiting cv)\<rparr>, w')))
        else (Val False, (cv, w)))"

text \<open>
  \<open>wake_all\<close> is a loop over the queue whose body ends with \<open>return true\<close>.  \<open>cv_wake_loop\<close> is the loop
  with that exit written out: \<open>Some b\<close> is a \<open>return b\<close> of the body, \<open>None\<close> its normal end.
\<close>

definition cv_wake_body :: "pval \<Rightarrow> (condition_variable \<times> ('s, 'p) world, bool option) op" where
  "cv_wake_body arg s =
     (case s of (cv, w) \<Rightarrow>
        (case schedule (hd (cv_waiting cv)) arg w of
           (Val _, w') \<Rightarrow> (Val (Some True), (cv\<lparr>cv_waiting := tl (cv_waiting cv)\<rparr>, w'))
         | (Raise e, w') \<Rightarrow> (Raise e, (cv\<lparr>cv_waiting := tl (cv_waiting cv)\<rparr>, w'))
         | (Stuck, w') \<Rightarrow> (Stuck, (cv\<lparr>cv_waiting := tl (cv_waiting cv)\<rparr>, w'))))"

function cv_wake_all :: "pval \<Rightarrow> (condition_variable \<times> ('s, 'p) world, bool) op" where
  "cv_wake_all arg s =
     (if length (cv_waiting (fst s)) > 0
      then bindS (cv_wake_body arg) (\<lambda>r. case r of Some b \<Rightarrow> ret b | None \<Rightarrow> cv_wake_all arg) s
      else (Val False, s))"
  by pat_completeness auto
termination
  by (relation "measure (\<lambda>(arg, s). length (cv_waiting (fst s)))")
    (auto simp: cv_wake_body_def split: prod.splits outcome.splits)

declare cv_wake_all.simps [simp del]

record latch =
  la_cv :: condition_variable
  la_done :: bool

definition latch_new :: latch where
  "latch_new = \<lparr>la_cv = \<lparr>cv_waiting = []\<rparr>, la_done = False\<rparr>"

definition latch_wait :: "'s \<Rightarrow> (latch \<times> ('s, 'p) world, 's ending option) op" where
  "latch_wait after s =
     (case s of (l, w) \<Rightarrow>
        if \<not> la_done l then
          (case cv_wait (\<lambda>_. after) (la_cv l, w) of
             (Val r, (cv, w')) \<Rightarrow> (Val (Some r), (l\<lparr>la_cv := cv\<rparr>, w'))
           | (Raise e, (cv, w')) \<Rightarrow> (Raise e, (l\<lparr>la_cv := cv\<rparr>, w'))
           | (Stuck, (cv, w')) \<Rightarrow> (Stuck, (l\<lparr>la_cv := cv\<rparr>, w')))
        else (Val None, (l, w)))"

definition latch_wake_all :: "(latch \<times> ('s, 'p) world, unit) op" where
  "latch_wake_all s =
     (case s of (l, w) \<Rightarrow>
        (case cv_wake_all 0 (la_cv l, w) of
           (Val _, (cv, w')) \<Rightarrow> (Val (), (l\<lparr>la_done := True, la_cv := cv\<rparr>, w'))
         | (Raise e, (cv, w')) \<Rightarrow> (Raise e, (l\<lparr>la_done := True, la_cv := cv\<rparr>, w'))
         | (Stuck, (cv, w')) \<Rightarrow> (Stuck, (l\<lparr>la_done := True, la_cv := cv\<rparr>, w'))))"

record 'a fifo =
  ff_cv :: condition_variable
  ff_q :: "'a list"

definition fifo_push :: "'a \<Rightarrow> ('a fifo \<times> ('s, 'p) world, unit) op" where
  "fifo_push x s =
     (case s of (f, w) \<Rightarrow>
        (case cv_wake_one 0 (ff_cv f, w) of
           (Val _, (cv, w')) \<Rightarrow> (Val (), (f\<lparr>ff_q := ff_q f @ [x], ff_cv := cv\<rparr>, w'))
         | (Raise e, (cv, w')) \<Rightarrow> (Raise e, (f\<lparr>ff_q := ff_q f @ [x], ff_cv := cv\<rparr>, w'))
         | (Stuck, (cv, w')) \<Rightarrow> (Stuck, (f\<lparr>ff_q := ff_q f @ [x], ff_cv := cv\<rparr>, w'))))"

text \<open>
  One test of the loop of \<open>pop\<close>: \<open>Inr x\<close> is its result, \<open>Inl r\<close> the end of the turn in \<open>wait\<close>, with
  \<open>again\<close>, the test of the loop, left on the stack.
\<close>

definition fifo_pop :: "'s \<Rightarrow> ('a fifo \<times> ('s, 'p) world, 's ending + 'a) op" where
  "fifo_pop again s =
     (case s of (f, w) \<Rightarrow>
        if length (ff_q f) = 0 then
          (case cv_wait (\<lambda>_. again) (ff_cv f, w) of
             (Val r, (cv, w')) \<Rightarrow> (Val (Inl r), (f\<lparr>ff_cv := cv\<rparr>, w'))
           | (Raise e, (cv, w')) \<Rightarrow> (Raise e, (f\<lparr>ff_cv := cv\<rparr>, w'))
           | (Stuck, (cv, w')) \<Rightarrow> (Stuck, (f\<lparr>ff_cv := cv\<rparr>, w')))
        else (Val (Inr (hd (ff_q f))), (f\<lparr>ff_q := tl (ff_q f)\<rparr>, w)))"

subsection \<open>Waking\<close>

lemma schedule_live:
  "valid_cid w c \<Longrightarrow> \<not> is_dead w c \<Longrightarrow> schedule c v w = (Val (), w\<lparr>w_pending := w_pending w @ [(c, v)]\<rparr>)"
  by (simp add: schedule_def)

lemma cv_wake_all_once:
  assumes "cv_waiting cv = c # cs" "valid_cid w c" "\<not> is_dead w c"
  shows "cv_wake_all v (cv, w) =
    (Val True, (cv\<lparr>cv_waiting := cs\<rparr>, w\<lparr>w_pending := w_pending w @ [(c, v)]\<rparr>))"
  using assms by (simp add: cv_wake_all.simps bindS_def cv_wake_body_def schedule_live)

lemma cv_wake_all_is_wake_one: "cv_wake_all v s = cv_wake_one v s"
  by (auto simp: cv_wake_all.simps bindS_def cv_wake_body_def cv_wake_one_def
      split: prod.splits outcome.splits)

text \<open>
  \<open>wake_one\<close> wakes the coroutine that has waited longest, exactly once and with the given
  value, and does nothing when no coroutine waits; a coroutine that waits goes to the end of the queue and stops.
\<close>

theorem condition_variable_is_fair:
  assumes "w_current w = Some c"
    and "valid_cid w (hd (cv_waiting cv @ [c]))" "\<not> is_dead w (hd (cv_waiting cv @ [c]))"
  shows "cv_wait k (cv, w) = (Val (Suspended k), (cv\<lparr>cv_waiting := cv_waiting cv @ [c]\<rparr>, set_value c 0 w))
    \<and> cv_wake_one v (cv\<lparr>cv_waiting := cv_waiting cv @ [c]\<rparr>, w) =
        (Val True, (cv\<lparr>cv_waiting := tl (cv_waiting cv @ [c])\<rparr>,
           w\<lparr>w_pending := w_pending w @ [(hd (cv_waiting cv @ [c]), v)]\<rparr>))
    \<and> cv_wake_one v (cv\<lparr>cv_waiting := []\<rparr>, w) = (Val False, (cv\<lparr>cv_waiting := []\<rparr>, w))"
  using assms by (simp add: cv_wait_def yield_def me_def bindS_def cv_wake_one_def schedule_live)

theorem condition_variable_is_fair_witness:
  "let w = (ex_world ())\<lparr>w_current := Some 1\<rparr>; cv = \<lparr>cv_waiting = [0]\<rparr>
   in fst (cv_wake_one 5 (\<lparr>cv_waiting = [0, 1]\<rparr>, w)) = Val True
    \<and> w_pending (snd (snd (cv_wake_one 5 (\<lparr>cv_waiting = [0, 1]\<rparr>, w)))) = [(0, 0), (1, 0), (0, 5)]"
  using condition_variable_is_fair [of "(ex_world ())\<lparr>w_current := Some 1\<rparr>" 1 "\<lparr>cv_waiting = [0]\<rparr>" "\<lambda>_. 0" 5]
  by (simp add: Let_def valid_cid_def is_dead_def ex_world_def init_world_def ex_coro_def)

text \<open>
  C35: a flaw.  \<open>wake_all\<close> returns after its first coroutine, so it is \<open>wake_one\<close>.  With a latch
  it strands coroutines: after \<open>latch::wake_all\<close> the latch is done, one of the coroutines that waited is
  scheduled, and all others are still in the queue and have not been scheduled.
\<close>

theorem latch_wakes_only_one:
  fixes w :: "('s, 'p) world"
  assumes "cv_waiting (la_cv l) = c # cs" "valid_cid w c" "\<not> is_dead w c"
  shows "latch_wake_all (l, w) =
      (Val (), (l\<lparr>la_done := True, la_cv := \<lparr>cv_waiting = cs\<rparr>\<rparr>, w\<lparr>w_pending := w_pending w @ [(c, 0)]\<rparr>))
    \<and> (\<forall>v s. cv_wake_all v s = cv_wake_one v (s :: condition_variable \<times> ('s, 'p) world))"
proof -
  have "(la_cv l)\<lparr>cv_waiting := cs\<rparr> = \<lparr>cv_waiting = cs\<rparr>" by simp
  then have "latch_wake_all (l, w) =
      (Val (), (l\<lparr>la_done := True, la_cv := \<lparr>cv_waiting = cs\<rparr>\<rparr>, w\<lparr>w_pending := w_pending w @ [(c, 0)]\<rparr>))"
    by (simp add: latch_wake_all_def cv_wake_all_once [OF assms])
  then show ?thesis by (simp add: cv_wake_all_is_wake_one)
qed

theorem latch_wakes_only_one_witness:
  "la_cv (fst (snd (latch_wake_all (\<lparr>la_cv = \<lparr>cv_waiting = [0, 1]\<rparr>, la_done = False\<rparr>, ex_world ()))))
     = \<lparr>cv_waiting = [1]\<rparr>"
  using conjunct1 [OF latch_wakes_only_one [where l = "\<lparr>la_cv = \<lparr>cv_waiting = [0, 1]\<rparr>, la_done = False\<rparr>"
      and w = "ex_world ()" and c = 0 and cs = "[1]"]]
  by (simp add: ex_world_coros)

subsection \<open>A queue under any schedule\<close>

text \<open>
  \<open>fs_popping\<close> are the coroutines that are suspended in \<open>pop\<close>, \<open>fs_put\<close> and \<open>fs_got\<close> log the elements in
  the order in which they are pushed and in which \<open>pop\<close> returns them.  The position of the loop of
  \<open>run_pending\<close> is \<open>w_staging\<close>, cut down to the entries not resumed yet, so that the entries to
  come are \<open>w_staging @ w_pending\<close>.  What else a running coroutine does is the rule \<open>other\<close>: it may
  schedule every living coroutine but one that is inside \<open>pop\<close>, which only its queue wakes.
\<close>

record ('a, 's, 'p) fifo_sys =
  fs_fifo :: "'a fifo"
  fs_world :: "('s, 'p) world"
  fs_popping :: "cid set"
  fs_put :: "'a list"
  fs_got :: "'a list"

definition upcoming :: "('a, 's, 'p) fifo_sys \<Rightarrow> pending_entry list" where
  "upcoming s = w_staging (fs_world s) @ w_pending (fs_world s)"

definition pop_outcome ::
    "cid \<Rightarrow> ('a fifo \<times> ('s, 'p) world) \<Rightarrow> 's ending + 'a \<Rightarrow> ('a, 's, 'p) fifo_sys \<Rightarrow> ('a, 's, 'p) fifo_sys" where
  "pop_outcome c fw r s =
     (case r of
        Inl _ \<Rightarrow> s\<lparr>fs_fifo := fst fw, fs_world := snd fw, fs_popping := insert c (fs_popping s)\<rparr>
      | Inr x \<Rightarrow> s\<lparr>fs_fifo := fst fw, fs_world := snd fw, fs_popping := fs_popping s - {c}, fs_got := fs_got s @ [x]\<rparr>)"

inductive fifo_step :: "'s \<Rightarrow> ('a, 's, 'p) fifo_sys \<Rightarrow> ('a, 's, 'p) fifo_sys \<Rightarrow> bool"
  for again :: 's where
  push: "w_current (fs_world s) = Some c \<Longrightarrow> c \<notin> fs_popping s \<Longrightarrow>
    fifo_push x (fs_fifo s, fs_world s) = (Val (), (f, w)) \<Longrightarrow>
    fifo_step again s (s\<lparr>fs_fifo := f, fs_world := w, fs_put := fs_put s @ [x]\<rparr>)"
| pop: "w_current (fs_world s) = Some c \<Longrightarrow> c \<notin> fs_popping s \<Longrightarrow> valid_cid (fs_world s) c \<Longrightarrow>
    \<not> is_dead (fs_world s) c \<Longrightarrow> c \<notin> fst ` set (upcoming s) \<Longrightarrow>
    fifo_pop again (fs_fifo s, fs_world s) = (Val r, fw) \<Longrightarrow>
    fifo_step again s (pop_outcome c fw r s)"
| turn: "w_staging (fs_world s) = (c, v) # es \<Longrightarrow> c \<notin> fs_popping s \<Longrightarrow>
    fifo_step again s (s\<lparr>fs_world := (fs_world s)\<lparr>w_staging := es, w_current := Some c\<rparr>\<rparr>)"
| pop_again: "w_staging (fs_world s) = (c, v) # es \<Longrightarrow> c \<in> fs_popping s \<Longrightarrow>
    fifo_pop again (fs_fifo s, (fs_world s)\<lparr>w_staging := es, w_current := Some c\<rparr>) = (Val r, fw) \<Longrightarrow>
    fifo_step again s (pop_outcome c fw r s)"
| round: "w_staging (fs_world s) = [] \<Longrightarrow>
    fifo_step again s (s\<lparr>fs_world := swap_lists (fs_world s)\<rparr>)"
| other: "w_current (fs_world s) = Some c \<Longrightarrow> c \<notin> fs_popping s \<Longrightarrow> d \<notin> fs_popping s \<Longrightarrow>
    schedule d v (fs_world s) = (Val (), w) \<Longrightarrow> fifo_step again s (s\<lparr>fs_world := w\<rparr>)"
| finish: "w_current (fs_world s) = Some c \<Longrightarrow> c \<notin> fs_popping s \<Longrightarrow>
    fifo_step again s (s\<lparr>fs_world := wrap_end c (fs_world s)\<rparr>)"

inductive fifo_reach :: "'s \<Rightarrow> ('a, 's, 'p) fifo_sys \<Rightarrow> ('a, 's, 'p) fifo_sys \<Rightarrow> bool"
  for again :: 's and s0 :: "('a, 's, 'p) fifo_sys" where
  start: "fifo_reach again s0 s0"
| step: "fifo_reach again s0 s \<Longrightarrow> fifo_step again s t \<Longrightarrow> fifo_reach again s0 t"

text \<open>
  The invariant: the coroutines inside \<open>pop\<close> are those that wait and those that have been woken and
  have not run yet (\<open>woken\<close>), each once and all alive; and while a coroutine waits, every element in
  the queue has a woken coroutine on its way.
\<close>

definition woken :: "('a, 's, 'p) fifo_sys \<Rightarrow> cid list" where
  "woken s = filter (\<lambda>c. c \<in> fs_popping s) (map fst (upcoming s))"

definition fifo_inv :: "('a, 's, 'p) fifo_sys \<Rightarrow> bool" where
  "fifo_inv s \<longleftrightarrow>
     distinct (cv_waiting (ff_cv (fs_fifo s)) @ woken s)
     \<and> set (cv_waiting (ff_cv (fs_fifo s))) \<subseteq> fs_popping s
     \<and> fs_popping s \<subseteq> set (cv_waiting (ff_cv (fs_fifo s))) \<union> fst ` set (upcoming s)
     \<and> (\<forall>c \<in> fs_popping s. valid_cid (fs_world s) c \<and> \<not> is_dead (fs_world s) c)
     \<and> fs_put s = fs_got s @ ff_q (fs_fifo s)
     \<and> (cv_waiting (ff_cv (fs_fifo s)) \<noteq> [] \<longrightarrow> length (ff_q (fs_fifo s)) \<le> length (woken s))"

lemma fifo_push_cases:
  assumes "fifo_push x (f, w) = (Val (), (f', w'))"
  shows "cv_waiting (ff_cv f) = [] \<and> f' = f\<lparr>ff_q := ff_q f @ [x]\<rparr> \<and> w' = w
    \<or> (\<exists>d ds. cv_waiting (ff_cv f) = d # ds \<and> w' = w\<lparr>w_pending := w_pending w @ [(d, 0)]\<rparr>
        \<and> f' = f\<lparr>ff_q := ff_q f @ [x], ff_cv := (ff_cv f)\<lparr>cv_waiting := ds\<rparr>\<rparr>)"
  using assms
  by (cases "cv_waiting (ff_cv f)")
    (auto simp: fifo_push_def cv_wake_one_def schedule_def split: if_splits outcome.splits prod.splits)

lemma fifo_pop_cases:
  assumes "fifo_pop again (f, w) = (Val r, fw)" "w_current w = Some c"
  shows "ff_q f = [] \<and> r = Inl (Suspended (\<lambda>_. again))
      \<and> fw = (f\<lparr>ff_cv := (ff_cv f)\<lparr>cv_waiting := cv_waiting (ff_cv f) @ [c]\<rparr>\<rparr>, set_value c 0 w)
    \<or> (\<exists>x xs. ff_q f = x # xs \<and> r = Inr x \<and> fw = (f\<lparr>ff_q := xs\<rparr>, w))"
  using assms
  by (cases "ff_q f") (auto simp: fifo_pop_def cv_wait_def yield_def me_def bindS_def)

lemma set_value_fields [simp]:
  "w_pending (set_value c v w) = w_pending w" "w_staging (set_value c v w) = w_staging w"
  "valid_cid (set_value c v w) d = valid_cid w d"
  by (simp_all add: set_value_def upd_coro_def valid_cid_def)

lemma is_dead_set_value [simp]: "valid_cid w d \<Longrightarrow> is_dead (set_value c v w) d = is_dead w d"
  by (cases "c = d") (simp_all add: set_value_def upd_coro_def is_dead_def valid_cid_def)

lemma woken_new: "c \<notin> set cs \<Longrightarrow> filter (\<lambda>d. d = c \<or> d \<in> P) cs = filter (\<lambda>d. d \<in> P) cs"
  by (rule filter_cong) auto

lemma woken_without: "c \<notin> set cs \<Longrightarrow> filter (\<lambda>d. d \<in> P - {c}) cs = filter (\<lambda>d. d \<in> P) cs"
  by (rule filter_cong) auto

lemma fifo_inv_push:
  assumes "fifo_inv s" "fifo_push x (fs_fifo s, fs_world s) = (Val (), (f, w))"
  shows "fifo_inv (s\<lparr>fs_fifo := f, fs_world := w, fs_put := fs_put s @ [x]\<rparr>)"
  using fifo_push_cases [OF assms(2)]
proof (elim disjE exE conjE)
  fix d ds
  assume "cv_waiting (ff_cv (fs_fifo s)) = d # ds"
    and "w = (fs_world s)\<lparr>w_pending := w_pending (fs_world s) @ [(d, 0)]\<rparr>"
    and "f = (fs_fifo s)\<lparr>ff_q := ff_q (fs_fifo s) @ [x], ff_cv := (ff_cv (fs_fifo s))\<lparr>cv_waiting := ds\<rparr>\<rparr>"
  then show ?thesis using assms(1) by (auto simp: fifo_inv_def woken_def upcoming_def valid_cid_def is_dead_def)
qed (use assms(1) in \<open>auto simp: fifo_inv_def woken_def upcoming_def\<close>)

lemma fifo_inv_pop:
  assumes "fifo_inv s" "w_current (fs_world s) = Some c" "c \<notin> fs_popping s"
    and "valid_cid (fs_world s) c" "\<not> is_dead (fs_world s) c" "c \<notin> fst ` set (upcoming s)"
    and "fifo_pop again (fs_fifo s, fs_world s) = (Val r, fw)"
  shows "fifo_inv (pop_outcome c fw r s)"
  using fifo_pop_cases [OF assms(7) assms(2)]
proof (elim disjE exE conjE)
  assume "ff_q (fs_fifo s) = []" "r = Inl (Suspended (\<lambda>_. again))"
    "fw = ((fs_fifo s)\<lparr>ff_cv := (ff_cv (fs_fifo s))\<lparr>cv_waiting := cv_waiting (ff_cv (fs_fifo s)) @ [c]\<rparr>\<rparr>,
      set_value c 0 (fs_world s))"
  moreover have "filter (\<lambda>d. d = c \<or> d \<in> fs_popping s) (map fst (upcoming s)) = woken s"
    unfolding woken_def using assms(6) by (intro woken_new) simp
  ultimately show ?thesis using assms(1,3-6)
    by (auto simp: fifo_inv_def pop_outcome_def woken_def upcoming_def)
next
  fix x xs
  assume "ff_q (fs_fifo s) = x # xs" "r = Inr x" "fw = ((fs_fifo s)\<lparr>ff_q := xs\<rparr>, fs_world s)"
  then show ?thesis using assms(1,3) by (auto simp: fifo_inv_def pop_outcome_def woken_def upcoming_def)
qed

lemma live_at_turn:
  "valid_cid (w\<lparr>w_staging := es, w_current := x\<rparr>) d = valid_cid w d"
  "is_dead (w\<lparr>w_staging := es, w_current := x\<rparr>) d = is_dead w d"
  by (simp_all add: valid_cid_def is_dead_def)

lemma wrap_end_fields [simp]:
  "w_pending (wrap_end c w) = w_pending w" "w_staging (wrap_end c w) = w_staging w"
  "valid_cid (wrap_end c w) d = valid_cid w d"
  by (simp_all add: wrap_end_def set_value_def upd_coro_def valid_cid_def)

lemma is_dead_wrap_end: "d \<noteq> c \<Longrightarrow> is_dead (wrap_end c w) d = is_dead w d"
  by (simp add: wrap_end_def set_value_def upd_coro_def is_dead_def)

lemma fifo_inv_pop_again:
  assumes "fifo_inv s" "w_staging (fs_world s) = (c, v) # es" "c \<in> fs_popping s"
    and "fifo_pop again (fs_fifo s, (fs_world s)\<lparr>w_staging := es, w_current := Some c\<rparr>) = (Val r, fw)"
  shows "fifo_inv (pop_outcome c fw r s)"
proof -
  let ?w = "(fs_world s)\<lparr>w_staging := es, w_current := Some c\<rparr>"
  let ?rest = "map fst (es @ w_pending (fs_world s))"
  let ?wk = "filter (\<lambda>d. d \<in> fs_popping s) ?rest"
  have wk: "woken s = c # ?wk" using assms(2,3) by (simp add: woken_def upcoming_def)
  then have "c \<notin> set ?wk" "c \<notin> set (cv_waiting (ff_cv (fs_fifo s)))" using assms(1) by (auto simp: fifo_inv_def)
  then have out: "filter (\<lambda>d. d \<in> fs_popping s - {c}) ?rest = ?wk" "c \<notin> set ?rest"
    using assms(3) by (auto simp only: set_filter intro!: woken_without)
  have "w_current ?w = Some c" by simp
  from fifo_pop_cases [OF assms(4) this] show ?thesis
  proof (elim disjE exE conjE)
    assume "ff_q (fs_fifo s) = []" "r = Inl (Suspended (\<lambda>_. again))"
      "fw = ((fs_fifo s)\<lparr>ff_cv := (ff_cv (fs_fifo s))\<lparr>cv_waiting := cv_waiting (ff_cv (fs_fifo s)) @ [c]\<rparr>\<rparr>,
        set_value c 0 ?w)"
    then show ?thesis using assms(1-3) wk out
      by (auto simp: fifo_inv_def pop_outcome_def woken_def upcoming_def insert_absorb live_at_turn)
  next
    fix x xs
    assume "ff_q (fs_fifo s) = x # xs" "r = Inr x" "fw = ((fs_fifo s)\<lparr>ff_q := xs\<rparr>, ?w)"
    then show ?thesis using assms(1-3) wk out
      by (auto simp: fifo_inv_def pop_outcome_def woken_def upcoming_def valid_cid_def is_dead_def)
  qed
qed

lemma fifo_inv_step: "fifo_step again s t \<Longrightarrow> fifo_inv s \<Longrightarrow> fifo_inv t"
proof (induction rule: fifo_step.induct)
  case (turn s c v es)
  have "woken (s\<lparr>fs_world := (fs_world s)\<lparr>w_staging := es, w_current := Some c\<rparr>\<rparr>) = woken s"
    using turn.hyps by (simp add: woken_def upcoming_def)
  then show ?case using turn by (auto simp: fifo_inv_def upcoming_def live_at_turn)
next
  case (round s)
  then show ?case
    by (auto simp: fifo_inv_def woken_def upcoming_def swap_lists_def valid_cid_def is_dead_def)
next
  case (other s c d v w)
  then have w: "w = (fs_world s)\<lparr>w_pending := w_pending (fs_world s) @ [(d, v)]\<rparr>"
    by (simp add: schedule_def split: if_splits)
  have "woken (s\<lparr>fs_world := w\<rparr>) = woken s"
    using other.hyps(3) by (simp add: woken_def upcoming_def w)
  then show ?case using other.prems by (auto simp: fifo_inv_def upcoming_def w valid_cid_def is_dead_def)
next
  case (finish s c)
  have "woken (s\<lparr>fs_world := wrap_end c (fs_world s)\<rparr>) = woken s" by (simp add: woken_def upcoming_def)
  moreover have "\<forall>d \<in> fs_popping s. is_dead (wrap_end c (fs_world s)) d = is_dead (fs_world s) d"
    using finish.hyps(2) is_dead_wrap_end by metis
  ultimately show ?case using finish.prems by (simp add: fifo_inv_def upcoming_def)
next
  case (push s c x f w)
  show ?case by (rule fifo_inv_push [OF push.prems push.hyps(3)])
next
  case (pop s c r fw)
  show ?case by (rule fifo_inv_pop [OF pop.prems pop.hyps])
next
  case (pop_again s c v es r fw)
  show ?case by (rule fifo_inv_pop_again [OF pop_again.prems pop_again.hyps])
qed

lemma count_filter_kept: "P c \<Longrightarrow> count (mset (filter P xs)) c = count (mset xs) c"
  by (induction xs) auto

lemma fifo_inv_reach: "fifo_reach again s0 s \<Longrightarrow> fifo_inv s0 \<Longrightarrow> fifo_inv s"
  by (induction rule: fifo_reach.induct) (auto intro: fifo_inv_step)

text \<open>
  C6: a \<open>fifo\<close> under every schedule of its users: elements come out in the order in which they
  went in, none lost and none twice; no coroutine waits for ever while there is an
  element: when no entry is left to resume, a coroutine that still waits in \<open>pop\<close> finds the queue empty;
  and a coroutine inside \<open>pop\<close> is in the queue of the condition variable or has exactly one entry to
  be resumed with, never both.
\<close>

theorem fifo_no_lost_wakeup:
  assumes "fifo_reach again s0 s"
    and "fs_fifo s0 = \<lparr>ff_cv = \<lparr>cv_waiting = []\<rparr>, ff_q = []\<rparr>" "fs_popping s0 = {}" "fs_put s0 = []" "fs_got s0 = []"
  shows "fs_put s = fs_got s @ ff_q (fs_fifo s)
    \<and> (upcoming s = [] \<and> ff_q (fs_fifo s) \<noteq> [] \<longrightarrow> cv_waiting (ff_cv (fs_fifo s)) = [])
    \<and> (\<forall>c \<in> fs_popping s.
         count (mset (cv_waiting (ff_cv (fs_fifo s)))) c + count (mset (map fst (upcoming s))) c = 1)"
proof -
  have "fifo_inv s0" using assms(2-5) by (simp add: fifo_inv_def woken_def)
  then have inv: "fifo_inv s" by (rule fifo_inv_reach [OF assms(1)])
  have "count (mset (cv_waiting (ff_cv (fs_fifo s)))) c + count (mset (map fst (upcoming s))) c = 1"
    if "c \<in> fs_popping s" for c
  proof -
    have "count (mset (map fst (upcoming s))) c = count (mset (woken s)) c"
      using count_filter_kept [of "\<lambda>d. d \<in> fs_popping s" c] that by (simp only: woken_def)
    moreover have "count (mset (cv_waiting (ff_cv (fs_fifo s)) @ woken s)) c = 1"
    proof -
      have "distinct (cv_waiting (ff_cv (fs_fifo s)) @ woken s)" using inv by (simp add: fifo_inv_def)
      moreover have "c \<in> set (cv_waiting (ff_cv (fs_fifo s)) @ woken s)"
        using inv that by (auto simp: fifo_inv_def woken_def)
      ultimately show ?thesis by (simp only: distinct_count_atmost_1 if_True)
    qed
    ultimately show ?thesis by simp
  qed
  then show ?thesis using inv by (auto simp: fifo_inv_def woken_def)
qed

text \<open>Coroutine 0 pushes an element; then coroutine 1 runs and takes it.\<close>

definition ex_fifo_sys :: "(nat, nat, unit) fifo_sys" where
  "ex_fifo_sys = \<lparr>fs_fifo = \<lparr>ff_cv = \<lparr>cv_waiting = []\<rparr>, ff_q = []\<rparr>,
     fs_world = (ex_world ())\<lparr>w_pending := [], w_staging := [(1, 0)], w_current := Some 0\<rparr>,
     fs_popping = {}, fs_put = [], fs_got = []\<rparr>"

theorem fifo_no_lost_wakeup_witness:
  "\<exists>s. fifo_reach 0 ex_fifo_sys s \<and> fs_put s = [42] \<and> fs_got s = [] \<and> ff_q (fs_fifo s) = [42]"
proof -
  let ?s = "ex_fifo_sys\<lparr>fs_fifo := \<lparr>ff_cv = \<lparr>cv_waiting = []\<rparr>, ff_q = [42]\<rparr>, fs_world := fs_world ex_fifo_sys,
    fs_put := fs_put ex_fifo_sys @ [42]\<rparr>"
  have "fifo_step 0 ex_fifo_sys ?s"
    by (rule fifo_step.push [where c = 0]) (simp_all add: ex_fifo_sys_def fifo_push_def cv_wake_one_def)
  then have r: "fifo_reach 0 ex_fifo_sys ?s" by (rule fifo_reach.step [OF fifo_reach.start])
  have "fs_put ?s = fs_got ?s @ ff_q (fs_fifo ?s)"
    using fifo_no_lost_wakeup [OF r] by (simp add: ex_fifo_sys_def)
  moreover have "fs_put ?s = [42]" "fs_got ?s = []" by (simp_all add: ex_fifo_sys_def)
  ultimately show ?thesis using r by (intro exI [of _ ?s]) simp
qed

end
