(* ===== verification/Sys_Calls.thy ===== *)
theory Sys_Calls
  imports Prelude
begin

section \<open>The system calls of a thread\<close>

text \<open>
  What the code of one thread sees of the system, for the classes on top of the scheduler
  (\<open>coro_file.h\<close>, \<open>coro_socket.h\<close>, \<open>coro_buffer.h\<close> and the demos).  The kernel is
  not under verification: its answers are the list \<open>io_answers\<close>, one for each call in the order of the
  calls, and a call with no answer left is \<open>Stuck\<close>.  A wait of the poller is one operation here: the
  list \<open>io_wakes\<close> says how each wait ends, with \<open>None\<close> when the thread is resumed and with an exception
  where the poller throws one; what other coroutines do in between is the business of theory \<open>Coro\<close>.
  \<open>io_log\<close> is the trace of the calls with their answers.

  Documented behaviour that the sources rely on is built into the calls: \<open>read (2)\<close> and \<open>write (2)\<close>
  transfer at most what they are asked to, and never more than \<open>0x7ffff000\<close> bytes at once, so that
  the conversion of their result to \<open>int\<close> is exact.  The functions of the two TLS libraries are calls
  in the same log; theories \<open>Coro_OpenSSL\<close> and \<open>Coro_S2N\<close> say what is relied on.
\<close>

datatype answer = Fail int | Num int | Data "byte list"

text \<open>The functions of OpenSSL (on the library and on a connection) and of s2n.\<close>

datatype ctx_call =
    CTX_New
  | CTX_Certificate string
  | CTX_Key string
  | CTX_Get_Options
  | CTX_Set_Options "64 word"
  | CTX_Free
  | ERR_Get_Error
  | ERR_Clear

datatype ssl_call =
    SSL_New
  | SSL_Set_Fd
  | SSL_Set_Accept
  | SSL_Next_Proto
  | SSL_Accept
  | SSL_Read nat
  | SSL_Write "byte list"
  | SSL_Shutdown
  | SSL_Get_Error int

datatype s2n_call =
    S2N_Config_New
  | S2N_Config_Add "byte list" "byte list"
  | S2N_Config_Free
  | S2N_New
  | S2N_Set_Config
  | S2N_Set_Fd
  | S2N_Free
  | S2N_Negotiate
  | S2N_Recv nat
  | S2N_Send "byte list"
  | S2N_Shutdown
  | S2N_Blocked

datatype call =
    C_Read int nat
  | C_Write int "byte list"
  | C_Close int
  | C_Get_Flags int
  | C_Set_Flags int "32 word"
  | C_Wait_Read int
  | C_Wait_Write int
  | C_Socket int int int
  | C_Get_Reuse int
  | C_Set_Reuse int "32 word"
  | C_Bind int "byte list"
  | C_Listen int nat
  | C_Accept int
  | C_Connect int "byte list"
  | C_Shutdown int int
  | C_CTX ctx_call
  | C_SSL int ssl_call
  | C_S2N int s2n_call

record io =
  io_main :: bool
  io_answers :: "answer list"
  io_wakes :: "exn option list"
  io_errno :: int
  io_log :: "(call \<times> answer) list"

definition EWOULDBLOCK :: int where "EWOULDBLOCK = 11"
definition EINPROGRESS :: int where "EINPROGRESS = 115"
definition O_NDELAY :: "32 word" where "O_NDELAY = 2048"
definition SHUT_RDWR :: int where "SHUT_RDWR = 2"
definition max_rw :: int where "max_rw = 0x7ffff000"

text \<open>A call takes the next answer, cut down by \<open>norm\<close> to what the call can give, and sets \<open>errno\<close> when it fails.\<close>

definition ask :: "call \<Rightarrow> (answer \<Rightarrow> answer) \<Rightarrow> (io, answer) op" where
  "ask c norm e =
     (case io_answers e of
        [] \<Rightarrow> (Stuck, e)
      | a # as \<Rightarrow>
          (Val (norm a),
           e\<lparr>io_answers := as, io_log := io_log e @ [(c, norm a)],
             io_errno := (case norm a of Fail n \<Rightarrow> n | _ \<Rightarrow> io_errno e)\<rparr>))"

definition read_answer :: "nat \<Rightarrow> answer \<Rightarrow> answer" where
  "read_answer len a = (case a of Fail n \<Rightarrow> Fail n | Num n \<Rightarrow> Data [] | Data bs \<Rightarrow> Data (take (nat (min (int len) max_rw)) bs))"

definition write_answer :: "nat \<Rightarrow> answer \<Rightarrow> answer" where
  "write_answer len a =
     (case a of
        Fail n \<Rightarrow> Fail n
      | Num n \<Rightarrow> Num (min (max 0 n) (min (int len) max_rw))
      | Data bs \<Rightarrow> Num (min (int (length bs)) (min (int len) max_rw)))"

definition num_answer :: "answer \<Rightarrow> answer" where
  "num_answer a = (case a of Fail n \<Rightarrow> Fail n | Num n \<Rightarrow> Num (max 0 n) | Data bs \<Rightarrow> Num 0)"

text \<open>The C calls: \<open>-1\<close> and \<open>errno\<close> on failure.\<close>

definition sys_read :: "int \<Rightarrow> nat \<Rightarrow> (io, int \<times> byte list) op" where
  "sys_read fd len =
     bindS (ask (C_Read fd len) (read_answer len))
       (\<lambda>a. ret (case a of Data bs \<Rightarrow> (int (length bs), bs) | _ \<Rightarrow> (- 1, [])))"

definition sys_write :: "int \<Rightarrow> byte list \<Rightarrow> (io, int) op" where
  "sys_write fd bs =
     bindS (ask (C_Write fd bs) (write_answer (length bs)))
       (\<lambda>a. ret (case a of Num n \<Rightarrow> n | _ \<Rightarrow> - 1))"

definition sys_num :: "call \<Rightarrow> (io, int) op" where
  "sys_num c = bindS (ask c num_answer) (\<lambda>a. ret (case a of Num n \<Rightarrow> n | _ \<Rightarrow> - 1))"

definition errno :: "(io, int) op" where
  "errno e = (Val (io_errno e), e)"

definition throw_os :: "string \<Rightarrow> (io, 'a) op" where
  "throw_os fun = bindS errno (\<lambda>n. raise (OS_Error fun n))"

text \<open>A wait of the poller, from the registration to the return of \<open>yield\<close>.\<close>

definition sys_wait :: "call \<Rightarrow> (io, unit) op" where
  "sys_wait c e =
     (case io_wakes e of
        [] \<Rightarrow> (Stuck, e)
      | x # xs \<Rightarrow>
          (case x of None \<Rightarrow> Val () | Some ex \<Rightarrow> Raise ex,
           e\<lparr>io_wakes := xs, io_log := io_log e @ [(c, Num 0)]\<rparr>))"

text \<open>The bytes that the kernel has delivered from a descriptor, and those that it has taken.\<close>

primrec bytes_in :: "int \<Rightarrow> (call \<times> answer) list \<Rightarrow> byte list" where
  "bytes_in fd [] = []"
| "bytes_in fd (x # xs) =
     (case x of (C_Read f n, Data bs) \<Rightarrow> if f = fd then bs else [] | _ \<Rightarrow> []) @ bytes_in fd xs"

primrec bytes_out :: "int \<Rightarrow> (call \<times> answer) list \<Rightarrow> byte list" where
  "bytes_out fd [] = []"
| "bytes_out fd (x # xs) =
     (case x of (C_Write f bs, Num n) \<Rightarrow> if f = fd then take (nat n) bs else [] | _ \<Rightarrow> []) @ bytes_out fd xs"

definition received :: "int \<Rightarrow> io \<Rightarrow> byte list" where
  "received fd e = bytes_in fd (io_log e)"

definition sent :: "int \<Rightarrow> io \<Rightarrow> byte list" where
  "sent fd e = bytes_out fd (io_log e)"

lemma bytes_in_append [simp]: "bytes_in fd (xs @ ys) = bytes_in fd xs @ bytes_in fd ys"
  by (induction xs) simp_all

lemma bytes_out_append [simp]: "bytes_out fd (xs @ ys) = bytes_out fd xs @ bytes_out fd ys"
  by (induction xs) simp_all

lemma ask_less: "ask c norm e = (Val a, e') \<Longrightarrow> length (io_answers e') < length (io_answers e)"
  by (auto simp: ask_def split: list.splits)

lemma sys_read_less: "sys_read fd len e = (Val r, e') \<Longrightarrow> length (io_answers e') < length (io_answers e)"
  by (auto simp: sys_read_def bindS_iffs dest: ask_less)

lemma sys_write_less: "sys_write fd bs e = (Val r, e') \<Longrightarrow> length (io_answers e') < length (io_answers e)"
  by (auto simp: sys_write_def bindS_iffs dest: ask_less)

lemma sys_num_less: "sys_num c e = (Val r, e') \<Longrightarrow> length (io_answers e') < length (io_answers e)"
  by (auto simp: sys_num_def bindS_iffs dest: ask_less)

lemma sys_wait_answers: "sys_wait c e = (r, e') \<Longrightarrow> io_answers e' = io_answers e"
  by (auto simp: sys_wait_def split: list.splits)

subsection \<open>What a call leaves unchanged\<close>

text \<open>
  \<open>steady f m\<close>: whatever its outcome, \<open>m\<close> does not change the view \<open>f\<close> of the state.  The views are the
  bytes in and out of a descriptor and the number of times it has been closed, all read off the log.
\<close>

definition steady :: "('s \<Rightarrow> 'v) \<Rightarrow> ('s, 'a) op \<Rightarrow> bool" where
  "steady f m \<longleftrightarrow> (\<forall>e r e'. m e = (r, e') \<longrightarrow> f e' = f e)"

definition closes :: "int \<Rightarrow> io \<Rightarrow> nat" where
  "closes fd e = length (filter (\<lambda>x. fst x = C_Close fd) (io_log e))"

text \<open>Views that a call \<open>c\<close> in the log does not change.\<close>

definition ignores :: "(io \<Rightarrow> 'v) \<Rightarrow> call \<Rightarrow> bool" where
  "ignores f c \<longleftrightarrow> (\<forall>e a as ws n. f (e\<lparr>io_answers := as, io_wakes := ws, io_log := io_log e @ [(c, a)], io_errno := n\<rparr>) = f e)"

lemma ignores_views [simp]:
  "(\<And>n. c \<noteq> C_Read fd n) \<Longrightarrow> ignores (received fd) c"
  "(\<And>bs. c \<noteq> C_Write fd bs) \<Longrightarrow> ignores (sent fd) c"
  "c \<noteq> C_Close fd \<Longrightarrow> ignores (closes fd) c"
  by (auto simp: ignores_def received_def sent_def closes_def split: call.splits answer.splits)

lemma ignoresD:
  assumes "ignores f c"
  shows "f (e\<lparr>io_answers := as, io_log := io_log e @ [(c, a)], io_errno := n\<rparr>) = f e"
    "f (e\<lparr>io_wakes := ws, io_log := io_log e @ [(c, a)]\<rparr>) = f e"
proof -
  show "f (e\<lparr>io_answers := as, io_log := io_log e @ [(c, a)], io_errno := n\<rparr>) = f e"
    using assms [unfolded ignores_def, rule_format, where e = e and a = a and as = as and ws = "io_wakes e" and n = n] by simp
  show "f (e\<lparr>io_wakes := ws, io_log := io_log e @ [(c, a)]\<rparr>) = f e"
    using assms [unfolded ignores_def, rule_format, where e = e and a = a and as = "io_answers e" and ws = ws and n = "io_errno e"] by simp
qed

lemma steadyD: "steady f m \<Longrightarrow> m e = (r, e') \<Longrightarrow> f e' = f e"
  by (simp add: steady_def)

lemma steadyI: "(\<And>e. f (snd (m e)) = f e) \<Longrightarrow> steady f m"
  unfolding steady_def by (metis snd_conv)

lemma steady_bindS: "steady f m \<Longrightarrow> (\<And>a. steady f (g a)) \<Longrightarrow> steady f (bindS m g)"
  unfolding steady_def bindS_def by (force split: prod.splits outcome.splits)

lemma steady_basic [simp]: "steady f (ret a)" "steady f (raise ex)" "steady h errno"
  by (simp_all add: steady_def errno_def)

lemma steady_throw_os [simp]: "steady f (throw_os fun)"
  unfolding throw_os_def by (rule steady_bindS) simp_all

lemma steady_ask: "ignores f c \<Longrightarrow> steady f (ask c norm)"
  by (auto simp: steady_def ask_def ignoresD split: list.splits)

lemma steady_sys_num: "ignores f c \<Longrightarrow> steady f (sys_num c)"
  unfolding sys_num_def by (rule steady_bindS) (simp_all add: steady_ask)

lemma steady_sys_wait: "ignores f c \<Longrightarrow> steady f (sys_wait c)"
  by (auto simp: steady_def sys_wait_def ignoresD split: list.splits)

lemma steady_sys_read: "ignores f (C_Read fd n) \<Longrightarrow> steady f (sys_read fd n)"
  unfolding sys_read_def by (rule steady_bindS) (simp_all add: steady_ask)

lemma steady_sys_write: "ignores f (C_Write fd bs) \<Longrightarrow> steady f (sys_write fd bs)"
  unfolding sys_write_def by (rule steady_bindS) (simp_all add: steady_ask)

lemma sys_read_data:
  assumes "sys_read fd len e = (r, e')"
  shows "(\<exists>n bs. r = Val (n, bs) \<and> received fd e' = received fd e @ bs \<and> length bs \<le> len
           \<and> (n = int (length bs) \<or> n = - 1 \<and> bs = []))
    \<or> r = Stuck \<and> e' = e"
  using assms
  by (auto simp: sys_read_def bindS_def ask_def read_answer_def received_def
      split: list.splits answer.splits)

lemma sys_write_data:
  assumes "sys_write fd bs e = (r, e')"
  shows "(\<exists>n. r = Val n \<and> sent fd e' = sent fd e @ take (nat n) bs \<and> n \<le> int (length bs)) \<or> r = Stuck \<and> e' = e"
  using assms
  by (auto simp: sys_write_def bindS_def ask_def write_answer_def sent_def
      split: list.splits answer.splits)

end
