(* ===== verification/Coro_File.thy ===== *)
theory Coro_File
  imports Sys_Calls
begin

unbundle bit_operations_syntax

section \<open>coro_file\<close>

text \<open>
  \<open>coro_file.h\<close>: reading and writing a descriptor without blocking the process.  A function of the
  class takes the descriptor \<open>_fd\<close> as an argument; the two that change it (the constructors and
  \<open>close\<close>) return the new one.

  \<open>read (void *, size_t)\<close> is virtual, and \<open>read (std::string &, size_t)\<close> and the three \<open>read_exact\<close> call
  it through the object.  They take it as a parameter \<open>rd\<close>, and what they need of it is the locale
  \<open>byte_source\<close>: what it returns is what it has taken from the input, and at most as much as it was
  asked for.  \<open>coro_file::read\<close> is an interpretation of it.

  The loops of \<open>read\<close> and \<open>write\<close> end because each pass uses an answer of the kernel.  The loops of
  \<open>read_exact\<close> may run for ever, so they take fuel; the theorems say which fuel is enough and when none is.
\<close>

subsection \<open>Operations\<close>

definition wait_for_read :: "int \<Rightarrow> (io, unit) op" where
  "wait_for_read fd e = (if io_main e then (Raise Yield_From_Main, e) else sys_wait (C_Wait_Read fd) e)"

definition wait_for_write :: "int \<Rightarrow> (io, unit) op" where
  "wait_for_write fd e = (if io_main e then (Raise Yield_From_Main, e) else sys_wait (C_Wait_Write fd) e)"

definition cf_close :: "int \<Rightarrow> (io, int) op" where
  "cf_close fd = bindS (sys_num (C_Close fd)) (\<lambda>_. ret (- 1))"

definition cf_destroy :: "int \<Rightarrow> (io, int) op" where
  "cf_destroy fd = (if fd \<noteq> - 1 then cf_close fd else ret fd)"

text \<open>The calls of a destructor throw nothing.\<close>

lemma sys_num_no_raise: "sys_num c e \<noteq> (Raise ex, e')"
  by (auto simp: sys_num_def bindS_def ask_def split: list.splits)

lemma cf_destroy_no_raise: "cf_destroy fd e \<noteq> (Raise ex, e')"
  using sys_num_no_raise by (auto simp: cf_destroy_def cf_close_def bindS_iffs split: if_splits)

definition set_blocking :: "int \<Rightarrow> bool \<Rightarrow> (io, unit) op" where
  "set_blocking fd blocking =
     bindS (sys_num (C_Get_Flags fd)) (\<lambda>n.
       let flag = (word_of_int n :: 32 word);
           flag' = (if blocking then flag AND NOT O_NDELAY else flag OR O_NDELAY)
       in bindS (sys_num (C_Set_Flags fd flag')) (\<lambda>r. if r < 0 then throw_os ''fcntl'' else ret ()))"

lemma wait_answers:
  "wait_for_read fd e = (r, e') \<Longrightarrow> io_answers e' = io_answers e"
  "wait_for_write fd e = (r, e') \<Longrightarrow> io_answers e' = io_answers e"
  by (auto simp: wait_for_read_def wait_for_write_def dest: sys_wait_answers split: if_splits)

text \<open>\<open>write\<close> gives the bytes from \<open>p\<close> on to the kernel until none is left.\<close>

function cf_write :: "int \<Rightarrow> byte list \<Rightarrow> (io, unit) op" where
  "cf_write fd p e =
     (if length p = 0 then (Val (), e)
      else bindS (sys_write fd p) (\<lambda>r e1.
        if r > 0 then cf_write fd (drop (nat r) p) e1
        else if io_errno e1 = EWOULDBLOCK then bindS (wait_for_write fd) (\<lambda>_. cf_write fd p) e1
        else (Raise (OS_Error ''write'' (io_errno e1)), e1)) e)"
  by pat_completeness auto
termination
  by (relation "measure (\<lambda>(fd, p, e). length (io_answers e))") (auto dest!: sys_write_less wait_answers)

declare cf_write.simps [simp del]

text \<open>\<open>write (const char *)\<close>: the bytes before the first 0.\<close>

definition cf_write_cstr :: "int \<Rightarrow> byte list \<Rightarrow> (io, unit) op" where
  "cf_write_cstr fd s = cf_write fd (takeWhile (\<lambda>c. c \<noteq> 0) s)"

function cf_read :: "int \<Rightarrow> nat \<Rightarrow> (io, byte list) op" where
  "cf_read fd len e =
     bindS (sys_read fd len) (\<lambda>n e1.
       if fst n \<ge> 0 then (Val (snd n), e1)
       else if io_errno e1 = EWOULDBLOCK then bindS (wait_for_read fd) (\<lambda>_. cf_read fd len) e1
       else (Raise (OS_Error ''read'' (io_errno e1)), e1)) e"
  by pat_completeness auto
termination
  by (relation "measure (\<lambda>(fd, len, e). length (io_answers e))") (auto dest!: sys_read_less wait_answers)

declare cf_read.simps [simp del]

text \<open>
  \<open>read (std::string &s, size_t length)\<close> returns the number of bytes and leaves them in \<open>s\<close>; here the
  bytes are the result.
\<close>

definition read_string :: "(nat \<Rightarrow> ('e, byte list) op) \<Rightarrow> nat \<Rightarrow> ('e, byte list) op" where
  "read_string rd len = bindS (rd len) (\<lambda>bs. ret bs)"

text \<open>\<open>read_exact\<close> into a consumer, into a list of strings (the list is the result) and into a string.\<close>

fun read_exact_to ::
    "nat \<Rightarrow> (nat \<Rightarrow> ('e, byte list) op) \<Rightarrow> (byte list \<Rightarrow> ('e, unit) op) \<Rightarrow> nat \<Rightarrow> nat \<Rightarrow> ('e, unit) op" where
  "read_exact_to 0 rd c block_size nbytes e = (Stuck, e)"
| "read_exact_to (Suc n) rd c block_size nbytes e =
     (if nbytes \<noteq> 0 then
        bindS (read_string rd (min nbytes block_size)) (\<lambda>s. bindS (c s) (\<lambda>_.
          read_exact_to n rd c block_size (nbytes - length s))) e
      else (Val (), e))"

fun read_exact_list ::
    "nat \<Rightarrow> (nat \<Rightarrow> ('e, byte list) op) \<Rightarrow> nat \<Rightarrow> nat \<Rightarrow> byte list list \<Rightarrow> ('e, byte list list) op" where
  "read_exact_list 0 rd block_size nbytes dst e = (Stuck, e)"
| "read_exact_list (Suc n) rd block_size nbytes dst e =
     (if nbytes \<noteq> 0 then
        bindS (read_string rd (min nbytes block_size)) (\<lambda>s.
          read_exact_list n rd block_size (nbytes - length s) (dst @ [s])) e
      else (Val dst, e))"

fun read_exact ::
    "nat \<Rightarrow> (nat \<Rightarrow> ('e, byte list) op) \<Rightarrow> nat \<Rightarrow> byte list \<Rightarrow> ('e, byte list) op" where
  "read_exact 0 rd nbytes dst e = (Stuck, e)"
| "read_exact (Suc n) rd nbytes dst e =
     (if nbytes \<noteq> 0 then
        bindS (read_string rd nbytes) (\<lambda>buf.
          if length buf = 0 then ret dst
          else read_exact n rd (nbytes - length buf) (dst @ buf)) e
      else (Val dst, e))"

subsection \<open>Writing\<close>

lemma steady_waits:
  "ignores f (C_Wait_Read fd) \<Longrightarrow> steady f (wait_for_read fd)"
  "ignores f (C_Wait_Write fd) \<Longrightarrow> steady f (wait_for_write fd)"
  using steady_sys_wait [of f "C_Wait_Read fd"] steady_sys_wait [of f "C_Wait_Write fd"]
  by (auto simp: wait_for_read_def wait_for_write_def steady_def)

lemma cf_write_more:
  assumes "length p \<noteq> 0"
  shows "cf_write fd p e = bindS (sys_write fd p) (\<lambda>r e1.
        if r > 0 then cf_write fd (drop (nat r) p) e1
        else if io_errno e1 = EWOULDBLOCK then bindS (wait_for_write fd) (\<lambda>_. cf_write fd p) e1
        else (Raise (OS_Error ''write'' (io_errno e1)), e1)) e"
  using assms by (subst cf_write.simps) simp

lemma cf_write_nothing [simp]: "cf_write fd [] e = (Val (), e)"
  by (simp add: cf_write.simps)

lemma steady_cf_write:
  assumes "\<And>bs. ignores f (C_Write fd bs)" "ignores f (C_Wait_Write fd)"
  shows "steady f (cf_write fd p)"
proof (rule steadyI)
  show "f (snd (cf_write fd p e)) = f e" for e
    using assms
  proof (induction fd p e rule: cf_write.induct)
    case (1 fd p e)
    show ?case
    proof (cases "length p = 0")
      case False
      obtain x e1 where w: "sys_write fd p e = (x, e1)" by (rule prod.exhaust)
      obtain y e2 where wait: "wait_for_write fd e1 = (y, e2)" by (rule prod.exhaust)
      have "f e1 = f e" "f e2 = f e1"
        using steadyD [OF steady_sys_write [OF "1.prems"(1)] w] steadyD [OF steady_waits(2) [OF "1.prems"(2)] wait] .
      then show ?thesis
        using "1.IH" [OF False] "1.prems" w wait
        by (auto simp: cf_write_more [OF False, of fd e] bindS_def split: outcome.splits)
    qed simp
  qed
qed

lemma cf_write_sent:
  "\<exists>k \<le> length p. sent fd (snd (cf_write fd p e)) = sent fd e @ take k p
    \<and> (fst (cf_write fd p e) = Val () \<longrightarrow> k = length p)"
proof (induction fd p e rule: cf_write.induct)
  case (1 fd p e)
  let ?ok = "\<lambda>q e' out. \<exists>k \<le> length q. sent fd (snd out) = sent fd e' @ take k q
    \<and> (fst out = Val () \<longrightarrow> k = length q)"
  have stop: "?ok p e out" if "sent fd (snd out) = sent fd e" "fst out \<noteq> Val ()" for out :: "unit outcome \<times> io"
    using that by (intro exI [of _ 0]) simp
  show ?case
  proof (cases "length p = 0")
    case False
    obtain x e1 where w: "sys_write fd p e = (x, e1)" by (rule prod.exhaust)
    show ?thesis using sys_write_data [OF w]
    proof (elim disjE exE conjE)
      fix r assume r: "x = Val r" "sent fd e1 = sent fd e @ take (nat r) p" "r \<le> int (length p)"
      have w': "sys_write fd p e = (Val r, e1)" using w r by simp
      show ?thesis
      proof (cases "r > 0")
        case True
        obtain k where k: "k \<le> length p - nat r"
          "sent fd (snd (cf_write fd (drop (nat r) p) e1)) = sent fd e @ take (nat r) p @ take k (drop (nat r) p)"
          "fst (cf_write fd (drop (nat r) p) e1) = Val () \<longrightarrow> k = length p - nat r"
          using "1.IH"(1) [OF False w' True] r(2) by auto
        have "take (nat r) p @ take k (drop (nat r) p) = take (nat r + k) p" by (simp add: take_add)
        then show ?thesis
          using k r(3) True by (intro exI [of _ "nat r + k"]) (auto simp: cf_write_more [OF False, of fd e] bindS_def w')
      next
        case nw: False
        then have s1: "sent fd e1 = sent fd e" using r by simp
        show ?thesis
        proof (cases "io_errno e1 = EWOULDBLOCK")
          case True
          obtain y e2 where wait: "wait_for_write fd e1 = (y, e2)" by (rule prod.exhaust)
          have s2: "sent fd e2 = sent fd e" using steadyD [OF steady_waits(2) wait, of "sent fd"] s1 by simp
          show ?thesis
          proof (cases y)
            case (Val u)
            have "?ok p e2 (cf_write fd p e2)"
              using "1.IH"(2) [OF False w' nw True] wait Val by simp
            moreover have "cf_write fd p e = cf_write fd p e2"
              using w' nw True wait Val by (simp add: cf_write_more [OF False, of fd e] bindS_def)
            ultimately show ?thesis using s2 by simp
          qed (rule stop; use s2 w' nw True wait in \<open>simp add: cf_write_more [OF False, of fd e] bindS_def\<close>)+
        next
          case ne: False
          show ?thesis by (rule stop) (use ne s1 w' nw in \<open>simp_all add: cf_write_more [OF False, of fd e] bindS_def\<close>)
        qed
      qed
    next
      assume "x = Stuck" "e1 = e"
      then show ?thesis using w by (intro stop) (simp_all add: cf_write_more [OF False, of fd e] bindS_def)
    qed
  qed simp
qed

text \<open>
  \<open>write\<close> is exact.  Whatever the kernel accepts at a time and however often the descriptor is not
  ready, the bytes that have gone out are a prefix of the buffer, in order and none twice; and if \<open>write\<close>
  returns they are the whole buffer.
\<close>

theorem write_sends_prefix:
  "\<exists>k \<le> length p. sent fd (snd (cf_write fd p e)) = sent fd e @ take k p
    \<and> (fst (cf_write fd p e) = Val () \<longrightarrow> k = length p)"
  by (rule cf_write_sent)

subsection \<open>Reading\<close>

lemma cf_read_data:
  "cf_read fd len e = (r, e') \<Longrightarrow>
   (\<exists>bs. r = Val bs \<and> received fd e' = received fd e @ bs \<and> length bs \<le> len)
   \<or> (\<forall>bs. r \<noteq> Val bs) \<and> received fd e' = received fd e"
proof (induction fd len e arbitrary: r e' rule: cf_read.induct)
  case (1 fd len e)
  obtain x e1 where rd: "sys_read fd len e = (x, e1)" by (rule prod.exhaust)
  obtain y e2 where wait: "wait_for_read fd e1 = (y, e2)" by (rule prod.exhaust)
  have w: "received fd e2 = received fd e1" using steadyD [OF steady_waits(1) wait, of "received fd"] by simp
  show ?case using sys_read_data [OF rd]
  proof (elim disjE exE conjE)
    fix n bs assume x: "x = Val (n, bs)" and d: "received fd e1 = received fd e @ bs" "length bs \<le> len" "n = int (length bs)"
    then show ?thesis using "1.prems" rd by (auto simp: cf_read.simps [of fd len e] bindS_def)
  next
    fix n bs assume x: "x = Val (n, bs)" and d: "received fd e1 = received fd e @ bs" "n = - 1" "bs = []"
    have neg: "\<not> 0 \<le> fst (n, bs)" using d by simp
    show ?thesis
    proof (cases "io_errno e1 = EWOULDBLOCK \<and> y = Val ()")
      case True
      then have wait': "wait_for_read fd e1 = (Val (), e2)" using wait by simp
      have "cf_read fd len e2 = (r, e')"
        using "1.prems" rd x True wait' neg by (simp add: cf_read.simps [of fd len e] bindS_def)
      from "1.IH" [OF rd [unfolded x] neg conjunct1 [OF True] wait' this] show ?thesis using w d by simp
    next
      case False
      then show ?thesis using "1.prems" rd x wait w d
        by (cases y) (auto simp: cf_read.simps [of fd len e] bindS_def split: if_splits)
    qed
  next
    assume "x = Stuck" "e1 = e"
    then show ?thesis using "1.prems" rd by (auto simp: cf_read.simps [of fd len e] bindS_def)
  qed
qed

lemma steady_cf_read:
  assumes "ignores f (C_Read fd len)" "ignores f (C_Wait_Read fd)"
  shows "steady f (cf_read fd len)"
proof (rule steadyI)
  show "f (snd (cf_read fd len e)) = f e" for e
    using assms
  proof (induction fd len e rule: cf_read.induct)
    case (1 fd len e)
    obtain x e1 where rd: "sys_read fd len e = (x, e1)" by (rule prod.exhaust)
    obtain y e2 where wait: "wait_for_read fd e1 = (y, e2)" by (rule prod.exhaust)
    have "f e1 = f e" "f e2 = f e1"
      using steadyD [OF steady_sys_read [OF "1.prems"(1)] rd] steadyD [OF steady_waits(1) [OF "1.prems"(2)] wait] .
    then show ?case
      using "1.IH" "1.prems" rd wait by (auto simp: cf_read.simps [of fd len e] bindS_def split: outcome.splits)
  qed
qed

locale byte_reader =
  fixes rd :: "nat \<Rightarrow> ('e, byte list) op" and got :: "'e \<Rightarrow> byte list"
  assumes rd_val: "rd n e = (Val bs, e') \<Longrightarrow> got e' = got e @ bs \<and> length bs \<le> n"

text \<open>A source also loses nothing when it throws.\<close>

locale byte_source = byte_reader +
  assumes rd_not_val: "rd n e = (r, e') \<Longrightarrow> (\<And>bs. r \<noteq> Val bs) \<Longrightarrow> got e' = got e"
begin

lemma read_exact_spec:
  "read_exact n rd nbytes dst e = (r, e') \<Longrightarrow>
   \<exists>new. got e' = got e @ new \<and> length new \<le> nbytes \<and>
     (\<forall>s. r = Val s \<longrightarrow> s = dst @ new \<and>
       (length new < nbytes \<longrightarrow> (\<exists>e1. rd (nbytes - length new) e1 = (Val [], e'))))"
proof (induction n arbitrary: nbytes dst e)
  case 0
  then show ?case by auto
next
  case (Suc n)
  show ?case
  proof (cases "nbytes = 0")
    case True
    then show ?thesis using Suc.prems by auto
  next
    case False
    obtain x e1 where rd: "rd nbytes e = (x, e1)" by (rule prod.exhaust)
    show ?thesis
    proof (cases x)
      case (Val bs)
      note got = rd_val [OF rd [unfolded Val]]
      show ?thesis
      proof (cases "length bs = 0")
        case True
        then have "r = Val dst" "e' = e1" using Suc.prems False rd Val by (auto simp: read_string_def bindS_def)
        then show ?thesis using got True rd Val by auto
      next
        case more: False
        have "read_exact n rd (nbytes - length bs) (dst @ bs) e1 = (r, e')"
          using Suc.prems False more rd Val by (simp add: read_string_def bindS_def)
        from Suc.IH [OF this] obtain new where "got e' = got e1 @ new" "length new \<le> nbytes - length bs"
          "\<forall>s. r = Val s \<longrightarrow> s = (dst @ bs) @ new \<and>
             (length new < nbytes - length bs \<longrightarrow> (\<exists>e1. rd (nbytes - length bs - length new) e1 = (Val [], e')))"
          by blast
        then show ?thesis using got by (intro exI [of _ "bs @ new"]) auto
      qed
    qed (use Suc.prems False rd rd_not_val [OF rd] in \<open>auto simp: read_string_def bindS_def\<close>)
  qed
qed

lemma read_exact_fuel:
  "nbytes < n \<Longrightarrow> nbytes < m \<Longrightarrow> read_exact n rd nbytes dst e = read_exact m rd nbytes dst e"
proof (induction n arbitrary: m nbytes dst e)
  case 0
  then show ?case by simp
next
  case (Suc n)
  obtain k where m: "m = Suc k" using Suc.prems(2) by (cases m) auto
  have "read_exact n rd (nbytes - length bs) d e1 = read_exact k rd (nbytes - length bs) d e1"
    if "bs \<noteq> []" "nbytes \<noteq> 0" for bs d e1
  proof -
    have "nbytes - length bs < nbytes" using that by (cases bs) simp_all
    then show ?thesis using Suc.prems m by (intro Suc.IH) simp_all
  qed
  then show ?case
    by (auto simp: m read_string_def intro!: bindS_cong)
qed

lemma read_exact_list_spec:
  "read_exact_list n rd b nbytes dst e = (Val ss, e') \<Longrightarrow>
   \<exists>new. ss = dst @ new \<and> got e' = got e @ concat new \<and> length (concat new) = nbytes"
proof (induction n arbitrary: nbytes dst e)
  case 0
  then show ?case by simp
next
  case (Suc n)
  show ?case
  proof (cases "nbytes = 0")
    case True
    then show ?thesis using Suc.prems by auto
  next
    case False
    then obtain s e1 where rd: "rd (min nbytes b) e = (Val s, e1)"
      and rest: "read_exact_list n rd b (nbytes - length s) (dst @ [s]) e1 = (Val ss, e')"
      using Suc.prems by (auto simp: read_string_def bindS_iffs)
    obtain new where "ss = (dst @ [s]) @ new" "got e' = got e1 @ concat new" "length (concat new) = nbytes - length s"
      using Suc.IH [OF rest] by blast
    then show ?thesis using rd_val [OF rd] by (intro exI [of _ "s # new"]) auto
  qed
qed

end

text \<open>A source together with a consumer that keeps what it is given and does not read itself.\<close>

locale byte_pump = byte_source +
  fixes c :: "byte list \<Rightarrow> ('e, unit) op" and given :: "'e \<Rightarrow> byte list"
  assumes c_val: "c bs e = (Val (), e') \<Longrightarrow> given e' = given e @ bs \<and> got e' = got e"
    and rd_given: "rd n e = (r, e') \<Longrightarrow> given e' = given e"
begin

lemma read_exact_to_spec:
  "read_exact_to n rd c b nbytes e = (Val (), e') \<Longrightarrow>
   \<exists>new. got e' = got e @ new \<and> given e' = given e @ new \<and> length new = nbytes"
proof (induction n arbitrary: nbytes e)
  case 0
  then show ?case by simp
next
  case (Suc n)
  show ?case
  proof (cases "nbytes = 0")
    case True
    then show ?thesis using Suc.prems by auto
  next
    case False
    then obtain s e1 e2 where rd: "rd (min nbytes b) e = (Val s, e1)" and c: "c s e1 = (Val (), e2)"
      and rest: "read_exact_to n rd c b (nbytes - length s) e2 = (Val (), e')"
      using Suc.prems by (auto simp: read_string_def bindS_iffs)
    obtain new where "got e' = got e2 @ new" "given e' = given e2 @ new" "length new = nbytes - length s"
      using Suc.IH [OF rest] by blast
    then show ?thesis
      using rd_val [OF rd] rd_given [OF rd] c_val [OF c] by (intro exI [of _ "s @ new"]) auto
  qed
qed

end

interpretation cf: byte_source "cf_read fd" "received fd"
proof
  show "received fd e' = received fd e @ bs \<and> length bs \<le> n" if "cf_read fd n e = (Val bs, e')" for n e bs e'
    using cf_read_data [OF that] by auto
  show "received fd e' = received fd e" if "cf_read fd n e = (r, e')" "\<And>bs. r \<noteq> Val bs" for n e r e'
    using cf_read_data [OF that(1)] that(2) by auto
qed

text \<open>The consumer of a relay writes what it is given to a descriptor.\<close>

interpretation relay: byte_pump "cf_read fd" "received fd" "cf_write out" "sent out"
proof
  show "sent out e' = sent out e @ bs \<and> received fd e' = received fd e" if "cf_write out bs e = (Val (), e')" for bs e e'
    using cf_write_sent [of bs out e] that steadyD [OF steady_cf_write that, of "received fd"] by auto
  show "sent out e' = sent out e" if "cf_read fd n e = (r, e')" for n e r e'
    using steadyD [OF steady_cf_read that, of "sent out"] by simp
qed

text \<open>
  \<open>read_exact\<close> into a string, on a file: what is appended to the string is what came from the
  descriptor, at most \<open>nbytes\<close>, and fewer only when the stream has ended; and \<open>nbytes + 1\<close> passes of its
  loop are enough, whatever the kernel answers.
\<close>

theorem read_exact_string:
  assumes "read_exact n (cf_read fd) nbytes dst e = (Val s, e')"
  shows "(\<exists>new. s = dst @ new \<and> received fd e' = received fd e @ new \<and> length new \<le> nbytes
      \<and> (length new < nbytes \<longrightarrow> (\<exists>e1. cf_read fd (nbytes - length new) e1 = (Val [], e'))))
    \<and> (nbytes < m \<longrightarrow> nbytes < n \<longrightarrow> read_exact m (cf_read fd) nbytes dst e = (Val s, e'))"
  using cf.read_exact_spec [OF assms] cf.read_exact_fuel [of nbytes m n fd dst e] assms by auto

text \<open>A thread of its own, on which the kernel gives these answers and every wait ends well.\<close>

definition ex_io :: "answer list \<Rightarrow> io" where
  "ex_io answers = \<lparr>io_main = False, io_answers = answers, io_wakes = [None, None, None], io_errno = 0, io_log = []\<rparr>"

theorem write_sends_prefix_witness:
  "sent 6 (snd (cf_write 6 [1, 2, 3] (ex_io [Num 1, Fail 11, Num 2]))) = [1, 2, 3]
   \<and> (\<exists>k \<le> length [1, 2, 3 :: byte]. sent 6 (snd (cf_write 6 [1, 2, 3] (ex_io [Num 1, Fail 32]))) = take k [1, 2, 3])"
proof -
  have z: "sent 6 (ex_io as) = []" for as by (simp add: sent_def ex_io_def)
  have "fst (cf_write 6 [1, 2, 3] (ex_io [Num 1, Fail 11, Num 2])) = Val ()" by code_simp
  then show ?thesis
    using write_sends_prefix [of "[1, 2, 3]" 6 "ex_io [Num 1, Fail 11, Num 2]"]
      write_sends_prefix [of "[1, 2, 3]" 6 "ex_io [Num 1, Fail 32]"]
    by (auto simp: z)
qed

lemma cf_read_Data:
  assumes "io_answers e = Data bs # as" "length bs \<le> len" "int (length bs) \<le> max_rw"
  shows "cf_read fd len e = (Val bs, e\<lparr>io_answers := as, io_log := io_log e @ [(C_Read fd len, Data bs)]\<rparr>)"
proof -
  have "length bs \<le> nat (min (int len) max_rw)" using assms(2,3) by linarith
  then show ?thesis
    using assms(1) by (simp add: cf_read.simps [of fd len e] sys_read_def bindS_def ask_def read_answer_def)
qed

lemma cf_write_Num:
  assumes "io_answers e = Num k # as" "p \<noteq> []" "int (length p) \<le> k" "int (length p) \<le> max_rw"
  shows "cf_write fd p e
    = (Val (), e\<lparr>io_answers := as, io_log := io_log e @ [(C_Write fd p, Num (int (length p)))]\<rparr>)"
  using assms
  by (simp add: cf_write.simps [of fd p e] sys_write_def bindS_def ask_def write_answer_def min_def max_def)

lemma cf_read_blocked:
  assumes "io_answers e = Fail EWOULDBLOCK # as" "io_wakes e = None # ws" "\<not> io_main e"
  shows "cf_read fd len e = cf_read fd len (e\<lparr>io_answers := as, io_errno := EWOULDBLOCK, io_wakes := ws,
    io_log := io_log e @ [(C_Read fd len, Fail EWOULDBLOCK), (C_Wait_Read fd, Num 0)]\<rparr>)"
  using assms
  by (simp add: cf_read.simps [of fd len e] sys_read_def bindS_def ask_def read_answer_def wait_for_read_def sys_wait_def)

lemmas ex_io_simps = ex_io_def cf_read_Data cf_read_blocked max_rw_def EWOULDBLOCK_def [symmetric]

theorem read_exact_string_witness:
  "fst (read_exact 4 (cf_read 5) 3 [] (ex_io [Data [7], Fail 11, Data [8, 9]])) = Val [7, 8, 9]
   \<and> received 5 (snd (read_exact 4 (cf_read 5) 3 [] (ex_io [Data [7], Fail 11, Data [8, 9]]))) = [7, 8, 9]"
proof -
  let ?r = "read_exact 4 (cf_read 5) 3 [] (ex_io [Data [7], Fail 11, Data [8, 9]])"
  have "fst ?r = Val [7, 8, 9]" by code_simp
  then have r: "?r = (Val [7, 8, 9], snd ?r)" by (metis prod.collapse)
  have "received 5 (ex_io [Data [7], Fail 11, Data [8, 9]]) = []" by (simp add: received_def ex_io_def)
  with conjunct1 [OF read_exact_string [OF r]] have "received 5 (snd ?r) = [7, 8, 9]" by auto
  then show ?thesis using r by (metis fst_conv)
qed



lemma cf_read_eof: "io_answers e = Data [] # as \<Longrightarrow> \<exists>e'. cf_read fd len e = (Val [], e') \<and> io_answers e' = as"
  by (simp add: cf_read.simps [of fd len e] sys_read_def bindS_def ask_def read_answer_def)

lemma read_exact_list_eof:
  "io_answers e = replicate m (Data []) \<Longrightarrow> 0 < nbytes \<Longrightarrow>
   fst (read_exact_list n (cf_read fd) b nbytes dst e) = Stuck"
proof (induction n arbitrary: m dst e)
  case 0
  then show ?case by simp
next
  case (Suc n)
  show ?case
  proof (cases m)
    case 0
    have "cf_read fd (min nbytes b) e = (Stuck, e)"
      using Suc.prems 0 by (simp add: cf_read.simps [of fd _ e] sys_read_def bindS_def ask_def)
    then show ?thesis using Suc.prems by (simp add: read_string_def bindS_def)
  next
    case (Suc k)
    then obtain e' where "cf_read fd (min nbytes b) e = (Val [], e')" "io_answers e' = replicate k (Data [])"
      using cf_read_eof [of e "replicate k (Data [])" fd "min nbytes b"] Suc.prems by auto
    then show ?thesis using Suc.prems Suc.IH [of e' k "dst @ [[]]"] by (simp add: read_string_def bindS_def)
  qed
qed

text \<open>
  a flaw.  The \<open>read_exact\<close> functions for a consumer and for a list do not test for the end of the
  stream: when the peer has closed, \<open>read\<close> returns 0 for ever and they go on reading, however
  many answers the kernel gives, while the one for a string returns what it has.
\<close>

theorem read_exact_hangs_at_eof:
  assumes "io_answers e = replicate m (Data [])" "0 < m" "0 < nbytes"
  shows "fst (read_exact_list n (cf_read fd) block_size nbytes dst e) = Stuck
    \<and> fst (read_exact (Suc k) (cf_read fd) nbytes s e) = Val s"
proof -
  obtain e' where "cf_read fd nbytes e = (Val [], e')"
    using cf_read_eof [of e "replicate (m - 1) (Data [])" fd nbytes] assms by (cases m) auto
  then show ?thesis using read_exact_list_eof [OF assms(1,3)] assms(3) by (simp add: read_string_def bindS_def)
qed

theorem read_exact_hangs_at_eof_witness:
  "fst (read_exact_list 50 (cf_read 5) 8000 3 [] (ex_io (replicate 20 (Data [])))) = Stuck
   \<and> fst (read_exact 50 (cf_read 5) 3 [1] (ex_io (replicate 20 (Data [])))) = Val [1]"
  using read_exact_hangs_at_eof [of "ex_io (replicate 20 (Data []))" 20 3 50 5 8000 "[]" 49 "[1]"]
  by (simp add: ex_io_def)

end
