(* ===== verification/Coro_Buffer.thy ===== *)
theory Coro_Buffer
  imports Coro_File
begin

section \<open>coro_buffer\<close>

text \<open>
  \<open>coro_buffer.h\<close>: \<open>string_join\<close> and \<open>class coro_buffer\<close>, which reads a stream up to a delimiter.  The
  state is the string \<open>_buffer\<close> with the state \<open>'e\<close> of the file below; the functions call the virtual
  \<open>read\<close> of that file, the parameter \<open>rd\<close>.  Their loops take fuel.

  \<open>get_loop_spec\<close> describes \<open>get\<close> by the stream alone: however the stream is cut into the pieces that
  \<open>read\<close> returns, the result is what the matcher of \<open>get\<close> finds in the bytes of the buffer and of all
  pieces in a row.  The matcher itself is \<open>scan\<close>: it forgets a partial match at the first byte that does
  not fit, and does not look at that byte again.
\<close>

subsection \<open>Operations\<close>

fun string_join :: "byte list \<Rightarrow> byte list list \<Rightarrow> byte list" where
  "string_join result [] = result"
| "string_join result (s # sl) = string_join (result @ s) sl"

text \<open>\<open>delim[matched]\<close>: the string is followed by a 0.\<close>

definition char_at :: "byte list \<Rightarrow> nat \<Rightarrow> byte" where
  "char_at s i = (if i < length s then s ! i else 0)"

text \<open>
  The \<open>for\<close> loop of \<open>get\<close> over the rest of the buffer from index \<open>i\<close>: \<open>Inl i\<close> is the index of the last
  byte of a match, \<open>Inr matched\<close> the value of \<open>matched\<close> when the loop ends.
\<close>

fun scan :: "byte list \<Rightarrow> nat \<Rightarrow> nat \<Rightarrow> byte list \<Rightarrow> nat + nat" where
  "scan delim matched i [] = Inr matched"
| "scan delim matched i (x # xs) =
     (if x = char_at delim matched then
        if matched + 1 = length delim then Inl i else scan delim (matched + 1) (i + 1) xs
      else scan delim 0 (i + 1) xs)"

type_synonym 'e buf = "byte list \<times> 'e"

text \<open>The \<open>while\<close> loop of \<open>get\<close> into a list: the result is whether the stream has closed, and the list.\<close>

fun get_loop ::
    "nat \<Rightarrow> (nat \<Rightarrow> ('e, byte list) op) \<Rightarrow> byte list \<Rightarrow> nat \<Rightarrow> byte list list
      \<Rightarrow> ('e buf, bool \<times> byte list list) op" where
  "get_loop 0 rd delim matched sl s = (Stuck, s)"
| "get_loop (Suc n) rd delim matched sl (buffer, e) =
     (case (if length buffer = 0 then read_string rd 8192 e else (Val buffer, e)) of
        (Val b, e1) \<Rightarrow>
          if length b = 0 then (Val (True, sl), (b, e1))
          else (case scan delim matched 0 b of
                  Inl i \<Rightarrow> (Val (False, sl @ [take (i + 1) b]), (drop (i + 1) b, e1))
                | Inr matched' \<Rightarrow> get_loop n rd delim matched' (sl @ [b]) ([], e1))
      | (Raise ex, e1) \<Rightarrow> (Raise ex, (buffer, e1))
      | (Stuck, e1) \<Rightarrow> (Stuck, (buffer, e1)))"

definition get_list ::
    "nat \<Rightarrow> (nat \<Rightarrow> ('e, byte list) op) \<Rightarrow> byte list \<Rightarrow> byte list list \<Rightarrow> ('e buf, bool \<times> byte list list) op" where
  "get_list n rd delim sl = get_loop n rd delim 0 sl"

definition get_string ::
    "nat \<Rightarrow> (nat \<Rightarrow> ('e, byte list) op) \<Rightarrow> byte list \<Rightarrow> ('e buf, bool \<times> byte list) op" where
  "get_string n rd delim = bindS (get_list n rd delim []) (\<lambda>r. ret (fst r, string_join [] (snd r)))"

definition CRLF :: "byte list" where "CRLF = [13, 10]"

definition get_line :: "nat \<Rightarrow> (nat \<Rightarrow> ('e, byte list) op) \<Rightarrow> ('e buf, bool \<times> byte list) op" where
  "get_line n rd = get_string n rd CRLF"

definition flush :: "('e buf, byte list) op" where
  "flush s = (Val (fst s), ([], snd s))"

definition on_file :: "('e, 'a) op \<Rightarrow> ('e buf, 'a) op" where
  "on_file m s = (case m (snd s) of (r, e) \<Rightarrow> (r, (fst s, e)))"

definition consume_buffer :: "(byte list \<Rightarrow> ('e, unit) op) \<Rightarrow> ('e buf, nat) op" where
  "consume_buffer c s =
     (let bsize = length (fst s) in
      if bsize > 0 then bindS (on_file (c (fst s))) (\<lambda>_ s1. (Val bsize, ([], snd s1))) s
      else (Val bsize, s))"

definition buf_read_exact_to ::
    "nat \<Rightarrow> (nat \<Rightarrow> ('e, byte list) op) \<Rightarrow> (byte list \<Rightarrow> ('e, unit) op) \<Rightarrow> nat \<Rightarrow> ('e buf, unit) op" where
  "buf_read_exact_to n rd c nbytes s =
     (let buffer = fst s; bsize = length buffer in
      if bsize > nbytes then
        bindS (on_file (c (take nbytes buffer))) (\<lambda>_ s1. (Val (), (drop nbytes buffer, snd s1))) s
      else if bsize = nbytes then
        bindS (on_file (c buffer)) (\<lambda>_ s1. (Val (), ([], snd s1))) s
      else
        bindS (consume_buffer c) (\<lambda>k. on_file (read_exact_to n rd c 8000 (nbytes - k))) s)"

definition buf_read_exact ::
    "nat \<Rightarrow> (nat \<Rightarrow> ('e, byte list) op) \<Rightarrow> nat \<Rightarrow> byte list \<Rightarrow> ('e buf, byte list) op" where
  "buf_read_exact n rd nbytes dst s =
     (let buffer = fst s; bsize = length buffer in
      if bsize > nbytes then (Val (dst @ take nbytes buffer), (drop nbytes buffer, snd s))
      else if bsize = nbytes then (Val (dst @ buffer), ([], snd s))
      else on_file (read_exact n rd (nbytes - length buffer) (dst @ buffer)) ([], snd s))"

fun read_to_eof_loop ::
    "nat \<Rightarrow> (nat \<Rightarrow> ('e, byte list) op) \<Rightarrow> (byte list \<Rightarrow> ('e, unit) op) \<Rightarrow> nat \<Rightarrow> ('e, unit) op" where
  "read_to_eof_loop 0 rd c block_size e = (Stuck, e)"
| "read_to_eof_loop (Suc n) rd c block_size e =
     bindS (read_string rd block_size) (\<lambda>block.
       if length block > 0 then bindS (c block) (\<lambda>_. read_to_eof_loop n rd c block_size)
       else ret ()) e"

definition read_to_eof ::
    "nat \<Rightarrow> (nat \<Rightarrow> ('e, byte list) op) \<Rightarrow> (byte list \<Rightarrow> ('e, unit) op) \<Rightarrow> nat \<Rightarrow> ('e buf, unit) op" where
  "read_to_eof n rd c block_size = bindS (consume_buffer c) (\<lambda>_. on_file (read_to_eof_loop n rd c block_size))"

subsection \<open>The matcher\<close>

lemma string_join_concat: "string_join r sl = r @ concat sl"
  by (induction sl arbitrary: r) simp_all

lemma scan_append:
  "scan d m i (xs @ ys) = (case scan d m i xs of Inl j \<Rightarrow> Inl j | Inr m' \<Rightarrow> scan d m' (i + length xs) ys)"
  by (induction xs arbitrary: m i) (auto split: sum.splits)

lemma scan_shift: "scan d m i xs = map_sum (\<lambda>j. j + i) (\<lambda>x. x) (scan d m 0 xs)"
proof (induction xs arbitrary: m i)
  case (Cons x xs)
  have a: "scan d m' (Suc i) xs = map_sum (\<lambda>j. j + i) (\<lambda>x. x) (scan d m' (Suc 0) xs)" for m'
    using Cons.IH [of m' "Suc i"] Cons.IH [of m' "Suc 0"] by (cases "scan d m' 0 xs") simp_all
  then show ?case by simp
qed simp

lemma scan_bounds: "scan d m i xs = Inl j \<Longrightarrow> i \<le> j \<and> j < i + length xs"
  by (induction xs arbitrary: m i) (fastforce split: if_splits)+

text \<open>What \<open>matched\<close> stands for: the last bytes seen are the first \<open>matched\<close> bytes of the delimiter.\<close>

lemma scan_sound:
  assumes "scan d m i xs = r" "m < length d" "drop (length pre - m) pre = take m d" "m \<le> length pre"
  shows "(\<forall>j. r = Inl j \<longrightarrow> (\<exists>u. pre @ take (Suc j - i) xs = u @ d))
    \<and> (\<forall>m'. r = Inr m' \<longrightarrow> m' < length d)"
  using assms
proof (induction xs arbitrary: m i pre)
  case Nil
  then show ?case by auto
next
  case (Cons x xs)
  show ?case
  proof (cases "x = d ! m")
    case True
    have suf: "drop (length (pre @ [x]) - Suc m) (pre @ [x]) = take (Suc m) d"
      using Cons.prems(2-4) True by (simp add: Suc_diff_le take_Suc_conv_app_nth)
    show ?thesis
    proof (cases "Suc m = length d")
      case True
      then have r: "r = Inl i" using Cons.prems \<open>x = d ! m\<close> by (simp add: char_at_def)
      have "pre @ [x] = take (length (pre @ [x]) - Suc m) (pre @ [x]) @ d"
        using suf True by (metis append_take_drop_id take_all le_refl)
      then show ?thesis using r by auto
    next
      case False
      then have "scan d (Suc m) (Suc i) xs = r" "Suc m < length d"
        using Cons.prems \<open>x = d ! m\<close> by (simp_all add: char_at_def)
      from Cons.IH [OF this suf] Cons.prems(4) scan_bounds [of d "Suc m" "Suc i" xs] this(1) show ?thesis
        by (auto simp: Suc_diff_le)
    qed
  next
    case False
    then have s: "scan d 0 (Suc i) xs = r" using Cons.prems(1,2) by (simp add: char_at_def)
    have "0 < length d" using Cons.prems(2) by linarith
    from Cons.IH [OF s this, of "pre @ [x]"] scan_bounds [of d 0 "Suc i" xs] s show ?thesis
      by (auto simp: Suc_diff_le)
  qed
qed

lemma scan_clean:
  assumes "char_at d 0 \<notin> set line"
  shows "scan d 0 i (line @ ys) = scan d 0 (i + length line) ys"
  using assms by (induction line arbitrary: i) auto

lemma scan_delim: "ds \<noteq> [] \<Longrightarrow> d = pre @ ds \<Longrightarrow> scan d (length pre) i (ds @ ys) = Inl (i + length ds - 1)"
proof (induction ds arbitrary: pre i)
  case (Cons x ds)
  have x: "x = char_at d (length pre)" using Cons.prems by (simp add: char_at_def)
  show ?case
  proof (cases "ds = []")
    case True
    then have "Suc (length pre) = length d" using Cons.prems(2) by simp
    then show ?thesis using x True by simp
  next
    case False
    then have "scan d (length (pre @ [x])) (Suc i) (ds @ ys) = Inl (Suc i + length ds - 1)"
      using Cons.prems by (intro Cons.IH) simp_all
    moreover have "Suc (length pre) \<noteq> length d" using Cons.prems(2) False by simp
    ultimately show ?thesis using x False by (simp add: length_greater_0_conv [symmetric] del: length_greater_0_conv)
  qed
qed simp

text \<open>A line in which the first byte of the delimiter does not occur is found, whatever follows it.\<close>

lemma scan_line: "d \<noteq> [] \<Longrightarrow> d ! 0 \<notin> set line \<Longrightarrow> scan d 0 0 (line @ d @ ys) = Inl (length line + length d - 1)"
  using scan_clean [of d line 0 "d @ ys"] scan_delim [of d d "[]" "length line" ys] by (simp add: char_at_def)

subsection \<open>get\<close>

context byte_reader
begin

lemma get_loop_spec:
  "get_loop n rd d m sl (b, e) = (Val (closed, sl'), (b', e')) \<Longrightarrow>
   \<exists>new. got e' = got e @ new \<and>
     (if closed then b' = [] \<and> concat sl' = concat sl @ b @ new \<and> (\<exists>m'. scan d m 0 (b @ new) = Inr m')
      else \<exists>i. scan d m 0 (b @ new) = Inl i \<and> concat sl' = concat sl @ take (i + 1) (b @ new)
        \<and> b' = drop (i + 1) (b @ new))"
proof (induction n arbitrary: m sl b e)
  case 0
  then show ?case by simp
next
  case (Suc n)
  define x where "x = (if length b = 0 then read_string rd 8192 e else (Val b, e))"
  obtain y e1 where y: "x = (y, e1)" by (rule prod.exhaust)
  have prem: "(case x of
        (Val b, e1) \<Rightarrow>
          if length b = 0 then (Val (True, sl), (b, e1))
          else (case scan d m 0 b of
                  Inl i \<Rightarrow> (Val (False, sl @ [take (i + 1) b]), (drop (i + 1) b, e1))
                | Inr m' \<Rightarrow> get_loop n rd d m' (sl @ [b]) ([], e1))
      | (Raise ex, e1) \<Rightarrow> (Raise ex, (b, e1))
      | (Stuck, e1) \<Rightarrow> (Stuck, (b, e1))) = (Val (closed, sl'), (b', e'))"
    using Suc.prems by (simp only: get_loop.simps x_def)
  then obtain b1 where x: "x = (Val b1, e1)" using y by (cases y) simp_all
  obtain new1 where new1: "got e1 = got e @ new1" "b1 = b @ new1"
  proof (cases "length b = 0")
    case True
    then have "rd 8192 e = (Val b1, e1)" using x by (auto simp: x_def read_string_def bindS_iffs)
    then show ?thesis using that True rd_val by auto
  next
    case False
    then show ?thesis using that x by (auto simp: x_def)
  qed
  have step: "(if length b1 = 0 then (Val (True, sl), (b1, e1))
      else (case scan d m 0 b1 of
          Inl i \<Rightarrow> (Val (False, sl @ [take (i + 1) b1]), (drop (i + 1) b1, e1))
        | Inr m' \<Rightarrow> get_loop n rd d m' (sl @ [b1]) ([], e1))) = (Val (closed, sl'), (b', e'))"
    using prem x by simp
  show ?case
  proof (cases "length b1 = 0")
    case True
    then show ?thesis using step new1 by auto
  next
    case ne: False
    show ?thesis
    proof (cases "scan d m 0 b1")
      case (Inl i)
      then show ?thesis using step new1 ne by auto
    next
      case (Inr m')
      then have "get_loop n rd d m' (sl @ [b1]) ([], e1) = (Val (closed, sl'), (b', e'))"
        using step ne by simp
      from Suc.IH [OF this] obtain new where new: "got e' = got e1 @ new"
        "if closed then b' = [] \<and> concat sl' = concat (sl @ [b1]) @ new \<and> (\<exists>m''. scan d m' 0 new = Inr m'')
         else \<exists>i. scan d m' 0 new = Inl i \<and> concat sl' = concat (sl @ [b1]) @ take (i + 1) new \<and> b' = drop (i + 1) new"
        unfolding append_Nil by blast
      have "scan d m 0 (b @ new1 @ new) = map_sum (\<lambda>j. j + length b1) (\<lambda>x. x) (scan d m' 0 new)"
        using scan_append [of d m 0 b1 new] Inr new1 scan_shift [of d m' "length b1" new] by simp
      then show ?thesis using new new1
        by (intro exI [of _ "new1 @ new"]) (auto split: if_splits)
    qed
  qed
qed

lemma get_string_spec:
  assumes "get_string n rd d (b, e) = (Val (closed, s), (b', e'))" "d \<noteq> []"
  shows "\<exists>new. got e' = got e @ new \<and>
     (if closed then b' = [] \<and> s = b @ new \<and> (\<exists>m'. scan d 0 0 (b @ new) = Inr m')
      else s @ b' = b @ new \<and> scan d 0 0 (b @ new) = Inl (length s - 1) \<and> (\<exists>u. s = u @ d))"
proof -
  obtain sl where g: "get_loop n rd d 0 [] (b, e) = (Val (closed, sl), (b', e'))" and s: "s = concat sl"
    using assms(1) by (auto simp: get_string_def get_list_def bindS_iffs string_join_concat)
  obtain new where new: "got e' = got e @ new"
    "if closed then b' = [] \<and> concat sl = b @ new \<and> (\<exists>m'. scan d 0 0 (b @ new) = Inr m')
      else \<exists>i. scan d 0 0 (b @ new) = Inl i \<and> concat sl = take (i + 1) (b @ new) \<and> b' = drop (i + 1) (b @ new)"
    using get_loop_spec [OF g] unfolding concat.simps append_Nil by blast
  show ?thesis
  proof (cases closed)
    case True
    then show ?thesis using new s by auto
  next
    case False
    then obtain i where i: "scan d 0 0 (b @ new) = Inl i" "s = take (i + 1) (b @ new)" "b' = drop (i + 1) (b @ new)"
      using new s by auto
    have "\<exists>u. take (Suc i) (b @ new) = u @ d"
      using scan_sound [OF i(1), of "[]"] assms(2) by simp
    moreover have "length s = Suc i" using i(2) scan_bounds [OF i(1)] by simp
    moreover have "s @ b' = b @ new" unfolding i(2,3) by (rule append_take_drop_id)
    ultimately show ?thesis using False new(1) i(1,2) by (intro exI [of _ new]) simp
  qed
qed

end

context byte_source
begin

lemma buf_read_exact_spec:
  assumes "buf_read_exact n rd nbytes dst (b, e) = (Val s, (b', e'))"
  shows "\<exists>new. got e' = got e @ new \<and> s @ b' = dst @ b @ new \<and> length s \<le> length dst + nbytes
    \<and> (length s < length dst + nbytes \<longrightarrow> b' = [] \<and> (\<exists>k e1. rd k e1 = (Val [], e')))"
proof (cases "length b < nbytes")
  case True
  then have r: "read_exact n rd (nbytes - length b) (dst @ b) e = (Val s, e')" "b' = []"
    using assms by (auto simp: buf_read_exact_def Let_def on_file_def split: prod.splits)
  show ?thesis using read_exact_spec [OF r(1)] r(2) True by fastforce
next
  case False
  then show ?thesis using assms by (auto simp: buf_read_exact_def Let_def min_def split: if_splits)
qed

end

context byte_pump
begin

lemma consume_buffer_spec:
  "consume_buffer c (b, e) = (Val k, (b', e')) \<Longrightarrow>
   k = length b \<and> b' = [] \<and> given e' = given e @ b \<and> got e' = got e"
  by (auto simp: consume_buffer_def Let_def on_file_def bindS_iffs split: if_splits prod.splits dest!: c_val)

lemma read_to_eof_loop_spec:
  "read_to_eof_loop n rd c bs e = (Val (), e') \<Longrightarrow>
   \<exists>new. got e' = got e @ new \<and> given e' = given e @ new \<and> (\<exists>e1. rd bs e1 = (Val [], e'))"
proof (induction n arbitrary: e)
  case 0
  then show ?case by simp
next
  case (Suc n)
  obtain block e1 where rd: "rd bs e = (Val block, e1)"
    using Suc.prems by (auto simp: read_string_def bindS_iffs)
  show ?case
  proof (cases "block = []")
    case True
    then have "e' = e1" using Suc.prems rd by (simp add: read_string_def bindS_def)
    then show ?thesis using rd True rd_val [OF rd] rd_given [OF rd] by auto
  next
    case False
    then obtain e2 where c: "c block e1 = (Val (), e2)" and rest: "read_to_eof_loop n rd c bs e2 = (Val (), e')"
      using Suc.prems rd by (auto simp: read_string_def bindS_iffs)
    from Suc.IH [OF rest] obtain new where "got e' = got e2 @ new" "given e' = given e2 @ new"
      "\<exists>e1. rd bs e1 = (Val [], e')" by blast
    then show ?thesis
      using rd_val [OF rd] rd_given [OF rd] c_val [OF c] by (intro exI [of _ "block @ new"]) simp
  qed
qed

lemma read_to_eof_spec:
  assumes "read_to_eof n rd c bs (b, e) = (Val (), (b', e'))"
  shows "\<exists>new. b' = [] \<and> got e' = got e @ new \<and> given e' = given e @ b @ new \<and> (\<exists>e1. rd bs e1 = (Val [], e'))"
proof -
  obtain k b1 e1 where c: "consume_buffer c (b, e) = (Val k, (b1, e1))"
    and l: "on_file (read_to_eof_loop n rd c bs) (b1, e1) = (Val (), (b', e'))"
    using assms by (auto simp: read_to_eof_def bindS_iffs)
  have l': "read_to_eof_loop n rd c bs e1 = (Val (), e')" "b' = b1"
    using l by (auto simp: on_file_def split: prod.splits)
  show ?thesis using read_to_eof_loop_spec [OF l'(1)] consume_buffer_spec [OF c] l'(2) by auto
qed

lemma buf_read_exact_to_spec:
  assumes "buf_read_exact_to n rd c nbytes (b, e) = (Val (), (b', e'))"
  shows "\<exists>new out. got e' = got e @ new \<and> given e' = given e @ out \<and> length out = nbytes \<and> out @ b' = b @ new"
proof (cases "length b < nbytes")
  case True
  then obtain k b1 e1 where c: "consume_buffer c (b, e) = (Val k, (b1, e1))"
    and l: "on_file (read_exact_to n rd c 8000 (nbytes - k)) (b1, e1) = (Val (), (b', e'))"
    using assms by (auto simp: buf_read_exact_to_def Let_def bindS_iffs)
  have l': "read_exact_to n rd c 8000 (nbytes - k) e1 = (Val (), e')" "b' = b1"
    using l by (auto simp: on_file_def split: prod.splits)
  note cs = consume_buffer_spec [OF c]
  obtain new where "got e' = got e1 @ new" "given e' = given e1 @ new" "length new = nbytes - k"
    using read_exact_to_spec [OF l'(1)] by blast
  then show ?thesis using cs l'(2) True by (intro exI [of _ new] exI [of _ "b @ new"]) auto
next
  case False
  have len: "length (take nbytes b) = nbytes" using False by simp
  have "c (take nbytes b) e = (Val (), e') \<and> b' = drop nbytes b"
    using assms False
    by (auto simp: buf_read_exact_to_def Let_def on_file_def bindS_iffs split: if_splits prod.splits)
  then show ?thesis using c_val len
    by (intro exI [of _ "[]"] exI [of _ "take nbytes b"]) auto
qed

end

text \<open>A source that can only be read from a bounded number of times, as each read uses an answer of the kernel.\<close>

locale counted_source = byte_source +
  fixes left :: "'e \<Rightarrow> nat"
  assumes rd_left: "rd n e = (Val bs, e') \<Longrightarrow> left e' < left e"
begin

lemma get_loop_fuel:
  assumes "left e + (if b = [] then 0 else 1) < n" "left e + (if b = [] then 0 else 1) < k"
  shows "get_loop n rd d m sl (b, e) = get_loop k rd d m sl (b, e)"
  using assms
proof (induction n arbitrary: k m sl b e)
  case 0
  then show ?case by simp
next
  case (Suc n)
  obtain j where k: "k = Suc j" using Suc.prems(2) by (cases k) auto
  have again: "get_loop n rd d m' sl' ([], e1) = get_loop j rd d m' sl' ([], e1)"
    if "b \<noteq> [] \<and> e1 = e \<or> left e1 < left e" for m' sl' e1
    using Suc.prems that k by (intro Suc.IH) (auto split: if_splits)
  show ?case
  proof (cases "b = []")
    case True
    obtain x e1 where rd: "rd 8192 e = (x, e1)" by (rule prod.exhaust)
    show ?thesis
    proof (cases x)
      case (Val bs)
      then have "left e1 < left e" using rd rd_left by simp
      then show ?thesis using True rd Val again
        by (simp add: k read_string_def bindS_def split: sum.splits)
    qed (use True rd in \<open>simp_all add: k read_string_def bindS_def\<close>)
  next
    case False
    then show ?thesis using again by (simp add: k split: sum.splits)
  qed
qed

end

lemma cf_read_left: "cf_read fd n e = (Val bs, e') \<Longrightarrow> length (io_answers e') < length (io_answers e)"
proof (induction fd n e arbitrary: bs e' rule: cf_read.induct)
  case (1 fd n e)
  obtain x e1 where x: "sys_read fd n e = (Val x, e1)"
    using "1.prems" by (auto simp: cf_read.simps [of fd n e] bindS_iffs)
  show ?case
  proof (cases "0 \<le> fst x")
    case True
    then show ?thesis using "1.prems" x sys_read_less [OF x] by (simp add: cf_read.simps [of fd n e] bindS_def)
  next
    case False
    then obtain e2 where wait: "io_errno e1 = EWOULDBLOCK" "wait_for_read fd e1 = (Val (), e2)"
      and r: "cf_read fd n e2 = (Val bs, e')"
      using "1.prems" x by (auto simp: cf_read.simps [of fd n e] bindS_iffs split: if_splits)
    show ?thesis using "1.IH" [OF x False wait r] sys_read_less [OF x] wait_answers(1) [OF wait(2)] by simp
  qed
qed

interpretation cf_counted: counted_source "cf_read fd" "received fd" "\<lambda>e. length (io_answers e)"
  by unfold_locales (rule cf_read_left)

subsection \<open>What get returns\<close>

text \<open>
  C23: \<open>get\<close> loses nothing and invents nothing: what it returns and what is left in the buffer are
  together the old buffer and the bytes that came from the descriptor, in order.  If it does not report
  the end of the stream, the string ends with the delimiter; otherwise nothing is left.  The cut does
  not depend on the pieces in which the bytes arrived, only on the bytes; and one pass more than the
  kernel has answers, and one for a filled buffer, are enough.
\<close>

theorem get_conserves_stream:
  assumes "get_string n (cf_read fd) delim (b, e) = (Val (closed, s), (b', e'))" "delim \<noteq> []"
  shows "(\<exists>new. received fd e' = received fd e @ new \<and> s @ b' = b @ new
      \<and> (closed \<longrightarrow> b' = [] \<and> (\<exists>m. scan delim 0 0 (b @ new) = Inr m))
      \<and> (\<not> closed \<longrightarrow> scan delim 0 0 (b @ new) = Inl (length s - 1) \<and> (\<exists>u. s = u @ delim)))
    \<and> (length (io_answers e) + 1 < n \<longrightarrow> length (io_answers e) + 1 < k \<longrightarrow>
        get_string k (cf_read fd) delim (b, e) = (Val (closed, s), (b', e')))"
proof -
  have "get_string k (cf_read fd) delim (b, e) = get_string n (cf_read fd) delim (b, e)"
    if "length (io_answers e) + 1 < n" "length (io_answers e) + 1 < k"
    unfolding get_string_def get_list_def
    using cf_counted.get_loop_fuel [of e b n k fd delim 0 "[]"] that by (simp add: bindS_def)
  then show ?thesis using cf.get_string_spec [OF assms] assms(1) by (auto split: if_splits)
qed

lemmas get_loop_numeral = get_loop.simps(2) [of "pred_numeral k" for k, folded numeral_eq_Suc]

lemmas get_simps = get_string_def get_list_def get_loop_numeral read_string_def bindS_def
  CRLF_def char_at_def string_join_concat ex_io_def cf_read_Data cf_read_blocked max_rw_def

theorem get_conserves_stream_witness:
  "get_string 6 (cf_read 5) CRLF ([104], ex_io [Data [105, 13], Fail EWOULDBLOCK, Data [10, 33]])
     = (Val (False, [104, 105, 13, 10]), ([33], snd (snd (get_string 6 (cf_read 5) CRLF
         ([104], ex_io [Data [105, 13], Fail EWOULDBLOCK, Data [10, 33]])))))
   \<and> received 5 (snd (snd (get_string 6 (cf_read 5) CRLF ([104], ex_io [Data [105, 13], Fail EWOULDBLOCK, Data [10, 33]]))))
     = [105, 13, 10, 33]"
proof -
  let ?e = "ex_io [Data [105, 13], Fail EWOULDBLOCK, Data [10, 33]]"
  let ?r = "get_string 6 (cf_read 5) CRLF ([104], ?e)"
  have "fst ?r = Val (False, [104, 105, 13, 10]) \<and> fst (snd ?r) = [33]" by (simp add: get_simps)
  then have r: "?r = (Val (False, [104, 105, 13, 10]), ([33], snd (snd ?r)))" by (metis prod.collapse)
  have "received 5 ?e = []" by (simp add: received_def ex_io_def)
  then have "received 5 (snd (snd ?r)) = [105, 13, 10, 33]"
    using conjunct1 [OF get_conserves_stream [OF r]] by (auto simp: CRLF_def)
  then show ?thesis using r by blast
qed

text \<open>
  a line that does not contain the first byte of the delimiter is found as it is, whatever comes
  after it and however the stream is cut: if the bytes read begin with the line and the delimiter, \<open>get\<close>
  returns the two and leaves all that follows in the buffer.
\<close>

theorem get_returns_line:
  assumes "get_string n (cf_read fd) delim (b, e) = (Val (closed, s), (b', e'))" "delim \<noteq> []"
    and "delim ! 0 \<notin> set line"
    and "\<And>new. received fd e' = received fd e @ new \<Longrightarrow> b @ new = line @ delim @ rest"
  shows "\<not> closed \<and> s = line @ delim \<and> b' = rest"
proof -
  obtain new where new: "received fd e' = received fd e @ new"
    "if closed then b' = [] \<and> s = b @ new \<and> (\<exists>m'. scan delim 0 0 (b @ new) = Inr m')
      else s @ b' = b @ new \<and> scan delim 0 0 (b @ new) = Inl (length s - 1) \<and> (\<exists>u. s = u @ delim)"
    using cf.get_string_spec [OF assms(1,2)] by blast
  have str: "b @ new = line @ delim @ rest" using assms(4) new(1) .
  have sc: "scan delim 0 0 (b @ new) = Inl (length line + length delim - 1)"
    unfolding str by (rule scan_line) (use assms in simp_all)
  have "\<not> closed" using new(2) sc by auto
  then have s: "s @ b' = line @ delim @ rest" "length s - 1 = length line + length delim - 1" "s \<noteq> []"
    using new(2) sc str assms(2) by auto
  have "length s = length (line @ delim)" using s(2,3) assms(2) by (cases s; cases delim) simp_all
  moreover have "s @ b' = (line @ delim) @ rest" using s(1) by simp
  ultimately have "s = line @ delim \<and> b' = rest" by (metis append_eq_append_conv)
  then show ?thesis using \<open>\<not> closed\<close> by simp
qed

theorem get_returns_line_witness:
  "fst (get_string 6 (cf_read 5) CRLF ([], ex_io [Data [104, 105], Data [13], Data [10, 33]]))
     = Val (False, [104, 105] @ CRLF)"
proof -
  let ?e = "ex_io [Data [104, 105], Data [13], Data [10, 33]]"
  let ?r = "get_string 6 (cf_read 5) CRLF ([], ?e)"
  obtain closed s b' e' where r: "?r = (Val (closed, s), (b', e'))"
  proof -
    have "fst ?r = Val (False, [104, 105, 13, 10])" by (simp add: get_simps)
    then show ?thesis using that [of False "[104, 105, 13, 10]" "fst (snd ?r)" "snd (snd ?r)"]
      by (metis prod.collapse)
  qed
  have "received 5 (snd (snd ?r)) = [104, 105, 13, 10, 33]" "received 5 ?e = []"
    by (simp_all add: get_simps received_def)
  then have "new = [104, 105, 13, 10, 33]" if "received 5 e' = received 5 ?e @ new" for new
    using that r by simp
  then have "\<not> closed \<and> s = [104, 105] @ CRLF \<and> b' = [33]"
    by (intro get_returns_line [OF r]) (simp_all add: CRLF_def)
  then show ?thesis using r by simp
qed

text \<open>The end of a mail body.\<close>

definition DOT_LINE :: "byte list" where "DOT_LINE = [13, 10, 46, 13, 10]"

text \<open>
  a flaw.  After a mismatch \<open>get\<close> does not ask whether the byte at hand starts a new match.  A mail
  body that ends with an empty line (CR LF CR LF . CR LF) is not recognised as ended: the delimiter is
  in the bytes, and \<open>get\<close> reads on and reports the end of the stream.
\<close>

theorem get_misses_delimiter:
  assumes "get_list n (cf_read fd) DOT_LINE sl (b, e) = (Val (closed, sl'), (b', e'))"
    and "\<And>new. received fd e' = received fd e @ new \<Longrightarrow> b @ new = body @ CRLF @ DOT_LINE"
    and "13 \<notin> set body"
  shows "closed \<and> concat sl' = concat sl @ body @ CRLF @ DOT_LINE"
proof -
  obtain new where new: "received fd e' = received fd e @ new"
    "if closed then b' = [] \<and> concat sl' = concat sl @ b @ new \<and> (\<exists>m'. scan DOT_LINE 0 0 (b @ new) = Inr m')
      else \<exists>i. scan DOT_LINE 0 0 (b @ new) = Inl i \<and> concat sl' = concat sl @ take (i + 1) (b @ new)
        \<and> b' = drop (i + 1) (b @ new)"
    using cf.get_loop_spec [of n fd DOT_LINE 0 sl b e] assms(1) unfolding get_list_def by blast
  have str: "b @ new = body @ CRLF @ DOT_LINE" using assms(2) new(1) .
  have "scan DOT_LINE 0 0 (b @ new) = scan DOT_LINE 0 (length body) (CRLF @ DOT_LINE)"
    unfolding str using scan_clean [of DOT_LINE body 0] assms(3) by (simp add: DOT_LINE_def char_at_def)
  also have "\<dots> = Inr 2" by (simp add: DOT_LINE_def CRLF_def char_at_def)
  finally show ?thesis using new(2) str by (auto split: if_splits)
qed

theorem get_misses_delimiter_witness:
  "fst (get_list 6 (cf_read 5) DOT_LINE [] ([], ex_io [Data ([72, 105] @ CRLF), Data DOT_LINE, Data []]))
     = Val (True, [[72, 105, 13, 10], [13, 10, 46, 13, 10]])"
proof -
  let ?e = "ex_io [Data ([72, 105] @ CRLF), Data DOT_LINE, Data []]"
  let ?r = "get_list 6 (cf_read 5) DOT_LINE [] ([], ?e)"
  have v: "fst ?r = Val (True, [[72, 105, 13, 10], [13, 10, 46, 13, 10]])" by (simp add: get_simps DOT_LINE_def)
  then have r: "?r = (Val (True, [[72, 105, 13, 10], [13, 10, 46, 13, 10]]), (fst (snd ?r), snd (snd ?r)))"
    by (metis prod.collapse)
  have "received 5 (snd (snd ?r)) = [72, 105] @ CRLF @ DOT_LINE" "received 5 ?e = []"
    by (simp_all add: get_simps DOT_LINE_def received_def)
  then have "new = [72, 105] @ CRLF @ DOT_LINE" if "received 5 (snd (snd ?r)) = received 5 ?e @ new" for new
    using that by simp
  then have "True \<and> concat [[72, 105, 13, 10], [13, 10, 46, 13, 10 :: byte]] = concat [] @ [72, 105] @ CRLF @ DOT_LINE"
    by (intro get_misses_delimiter [OF r]) simp_all
  then show ?thesis using v by simp
qed

subsection \<open>The matcher as a search\<close>

text \<open>The reference: the index of the first place where the delimiter occurs.\<close>

fun first_occurrence :: "byte list \<Rightarrow> byte list \<Rightarrow> nat option" where
  "first_occurrence d [] = (if d = [] then Some 0 else None)"
| "first_occurrence d (x # xs) =
     (if take (length d) (x # xs) = d then Some 0 else map_option Suc (first_occurrence d xs))"

definition no_double_cr :: "byte list \<Rightarrow> bool" where
  "no_double_cr xs = successively (\<lambda>x y. \<not> (x = 13 \<and> y = 13)) xs"

lemma crlf_simps:
  "CRLF \<noteq> []" "[x] \<noteq> CRLF" "length CRLF = 2" "char_at CRLF 0 = 13" "char_at CRLF (Suc 0) = 10"
  "[13, x] = CRLF \<longleftrightarrow> x = 10"
  "x # take (Suc 0) xs = CRLF \<longleftrightarrow> x = 13 \<and> (\<exists>ys. xs = 10 # ys)"
  by (cases xs; auto simp: CRLF_def char_at_def take_Suc_conv_app_nth numeral_2_eq_2)+

lemma scan_crlf:
  assumes "no_double_cr xs"
  shows "(\<forall>k. first_occurrence CRLF xs = Some k \<longrightarrow> scan CRLF 0 i xs = Inl (i + k + 1))
       \<and> (first_occurrence CRLF xs = None \<longrightarrow> (\<exists>m. scan CRLF 0 i xs = Inr m))"
    "no_double_cr (13 # xs) \<Longrightarrow>
       (\<forall>k. first_occurrence CRLF (13 # xs) = Some k \<longrightarrow> scan CRLF 1 i xs = Inl (i + k))
       \<and> (first_occurrence CRLF (13 # xs) = None \<longrightarrow> (\<exists>m. scan CRLF 1 i xs = Inr m))"
  using assms
proof (induction xs arbitrary: i)
  case Nil
  {
    case 1
    then show ?case by (simp add: crlf_simps)
  next
    case 2
    then show ?case by (simp add: crlf_simps)
  }
next
  case (Cons x xs)
  have nd: "no_double_cr (x # xs) \<Longrightarrow> no_double_cr xs" by (cases xs) (simp_all add: no_double_cr_def)
  {
    case 1
    then show ?case using Cons.IH(1) [OF nd, of "i + 1"] Cons.IH(2) [of "i + 1"] nd
      by (cases "x = 13") (auto simp: crlf_simps split: if_splits)
  next
    case 2
    then show ?case using Cons.IH(1) [OF nd, of "i + 1"]
      by (cases "x = 10") (auto simp: crlf_simps no_double_cr_def)
  }
qed

text \<open>
  C21: \<open>get\<close> with its one counter does what a search for the first end of line would do, over the whole
  stream at once: when no CR comes right after a CR, it returns everything up to and with the first
  CR LF and keeps the rest, and if there is none it returns all there is and reports the end of the stream.
\<close>

theorem get_finds_first_line:
  assumes "get_line n (cf_read fd) (b, e) = (Val (closed, s), (b', e'))"
  shows "\<exists>new. received fd e' = received fd e @ new \<and> (no_double_cr (b @ new) \<longrightarrow>
      (case first_occurrence CRLF (b @ new) of
         Some k \<Rightarrow> \<not> closed \<and> s = take (k + 2) (b @ new) \<and> b' = drop (k + 2) (b @ new)
       | None \<Rightarrow> closed \<and> s = b @ new \<and> b' = []))"
proof -
  obtain new where new: "received fd e' = received fd e @ new"
    "if closed then b' = [] \<and> s = b @ new \<and> (\<exists>m'. scan CRLF 0 0 (b @ new) = Inr m')
      else s @ b' = b @ new \<and> scan CRLF 0 0 (b @ new) = Inl (length s - 1) \<and> (\<exists>u. s = u @ CRLF)"
    using cf.get_string_spec [OF assms [unfolded get_line_def] crlf_simps(1)] by blast
  have "(case first_occurrence CRLF (b @ new) of
         Some k \<Rightarrow> \<not> closed \<and> s = take (k + 2) (b @ new) \<and> b' = drop (k + 2) (b @ new)
       | None \<Rightarrow> closed \<and> s = b @ new \<and> b' = [])" if nd: "no_double_cr (b @ new)"
  proof (cases "first_occurrence CRLF (b @ new)")
    case None
    then show ?thesis using new(2) scan_crlf(1) [OF nd, of 0] by (auto split: if_splits)
  next
    case (Some k)
    then have sc: "scan CRLF 0 0 (b @ new) = Inl (k + 1)" using scan_crlf(1) [OF nd, of 0] by simp
    then have "\<not> closed" using new(2) by auto
    then have s: "s @ b' = b @ new" "length s - 1 = k + 1" using new(2) sc by auto
    then have "length s = k + 2" by linarith
    then have "s = take (k + 2) (b @ new) \<and> b' = drop (k + 2) (b @ new)"
      unfolding s(1) [symmetric] by simp
    then show ?thesis using Some \<open>\<not> closed\<close> by simp
  qed
  then show ?thesis using new(1) by blast
qed

theorem get_finds_first_line_witness:
  "fst (get_line 6 (cf_read 5) ([104], ex_io [Data [13], Data [10, 33, 13, 10]])) = Val (False, [104, 13, 10])
   \<and> no_double_cr [104, 13, 10, 33, 13, 10]"
proof -
  let ?e = "ex_io [Data [13], Data [10, 33, 13, 10]]"
  let ?r = "get_line 6 (cf_read 5) ([104], ?e)"
  have "\<exists>c s. fst ?r = Val (c, s)" by (rule exI [of _ False]) (simp add: get_line_def get_simps)
  then obtain c s where r: "?r = (Val (c, s), (fst (snd ?r), snd (snd ?r)))" by (metis prod.collapse)
  have "received 5 (snd (snd ?r)) = [13, 10, 33, 13, 10]" "received 5 ?e = []"
    by (simp_all add: get_line_def get_simps received_def)
  moreover have nd: "no_double_cr [104, 13, 10, 33, 13, 10]" by (simp add: no_double_cr_def)
  moreover have "first_occurrence CRLF [104, 13, 10, 33, 13, 10] = Some 1" by (simp add: CRLF_def)
  moreover obtain new where "received 5 (snd (snd ?r)) = received 5 ?e @ new"
    "no_double_cr ([104] @ new) \<longrightarrow> (case first_occurrence CRLF ([104] @ new) of
         Some k \<Rightarrow> \<not> c \<and> s = take (k + 2) ([104] @ new) \<and> fst (snd ?r) = drop (k + 2) ([104] @ new)
       | None \<Rightarrow> c \<and> s = [104] @ new \<and> fst (snd ?r) = [])"
    using get_finds_first_line [OF r] by (elim exE conjE) (rule that)
  ultimately have "\<not> c \<and> s = [104, 13, 10]" by simp
  then have "fst ?r = Val (False, [104, 13, 10])" by (subst r) simp
  then show ?thesis using nd ..
qed

subsection \<open>Exact reads through the buffer\<close>

text \<open>
  C25: \<open>coro_buffer::read_exact\<close> takes from the buffer first and then from the file: what it appends and
  what it leaves in the buffer are together the old buffer and the new bytes, in order, and it
  appends exactly \<open>nbytes\<close> bytes unless the stream has ended.
\<close>

theorem buffered_read_is_exact:
  assumes "buf_read_exact n (cf_read fd) nbytes dst (b, e) = (Val s, (b', e'))"
  shows "\<exists>new. received fd e' = received fd e @ new \<and> s @ b' = dst @ b @ new \<and> length s \<le> length dst + nbytes
    \<and> (length s < length dst + nbytes \<longrightarrow> b' = [] \<and> (\<exists>k e1. cf_read fd k e1 = (Val [], e')))"
  using cf.buf_read_exact_spec [OF assms] .

lemmas read_exact_numeral = read_exact.simps(2) [of "pred_numeral k" for k, folded numeral_eq_Suc]

theorem buffered_read_is_exact_witness:
  "\<exists>e'. buf_read_exact 5 (cf_read 5) 4 [] ([1, 2], ex_io [Data [3], Data [4]]) = (Val [1, 2, 3, 4], ([], e'))
     \<and> received 5 e' = [3, 4]"
proof -
  let ?r = "buf_read_exact 5 (cf_read 5) 4 [] ([1, 2], ex_io [Data [3], Data [4]])"
  have "fst ?r = Val [1, 2, 3, 4] \<and> fst (snd ?r) = []"
    by (simp add: buf_read_exact_def Let_def on_file_def read_exact_numeral read_string_def bindS_def ex_io_def
        cf_read_Data max_rw_def)
  then have r: "?r = (Val [1, 2, 3, 4], ([], snd (snd ?r)))" by (metis prod.collapse)
  have "received 5 (ex_io [Data [3], Data [4]]) = []" by (simp add: received_def ex_io_def)
  then have "received 5 (snd (snd ?r)) = [3, 4]" using buffered_read_is_exact [OF r] by auto
  then show ?thesis using r by (intro exI [of _ "snd (snd ?r)"]) simp
qed

text \<open>
  \<open>read_to_eof\<close> with a consumer that writes to another descriptor forwards the buffer and then
  the whole rest of the stream, in order, and ends only when a read has returned nothing.
\<close>

theorem read_to_eof_forwards_all:
  assumes "read_to_eof n (cf_read fd) (cf_write out) block_size (b, e) = (Val (), (b', e'))"
  shows "\<exists>new. b' = [] \<and> received fd e' = received fd e @ new \<and> sent out e' = sent out e @ b @ new
    \<and> (\<exists>e1. cf_read fd block_size e1 = (Val [], e'))"
  using relay.read_to_eof_spec [OF assms] .

theorem read_to_eof_forwards_all_witness:
  "\<exists>e'. read_to_eof 5 (cf_read 5) (cf_write 6) 10 ([1], ex_io [Num 1, Data [3], Num 1, Data []]) = (Val (), ([], e'))
     \<and> sent 6 e' = [1, 3]"
proof -
  let ?r = "read_to_eof 5 (cf_read 5) (cf_write 6) 10 ([1], ex_io [Num 1, Data [3], Num 1, Data []])"
  have "fst ?r = Val ()" and new: "received 5 (snd (snd ?r)) = [3]" by code_simp+
  then have r: "?r = (Val (), (fst (snd ?r), snd (snd ?r)))" by (metis prod.collapse)
  have "received 5 (ex_io [Num 1, Data [3], Num 1, Data []]) = []" "sent 6 (ex_io [Num 1, Data [3], Num 1, Data []]) = []"
    by (simp_all add: received_def sent_def ex_io_def)
  then have "fst (snd ?r) = [] \<and> sent 6 (snd (snd ?r)) = [1, 3]"
    using read_to_eof_forwards_all [OF r] new by auto
  then show ?thesis using r by (intro exI [of _ "snd (snd ?r)"]) simp
qed

end
