(* ===== verification/Coro_Socket.thy ===== *)
theory Coro_Socket
  imports Coro_Buffer
begin

unbundle bit_operations_syntax

section \<open>coro_socket\<close>

text \<open>
  \<open>coro_socket.h\<close>: the constructor, \<open>set_reuse_addr\<close>, \<open>bind\<close>, \<open>listen\<close>, \<open>accept\<close>, \<open>connect\<close> and \<open>shutdown\<close>,
  over the descriptor \<open>_fd\<close>.  An address is the bytes of its \<open>struct sockaddr\<close>.  The constructor
  returns the descriptor of the new object; when it throws, the destructor of the base class runs, on the
  \<open>_fd\<close> of that moment, which is 0 until it is assigned.
\<close>

definition new_socket :: "int \<Rightarrow> int \<Rightarrow> int \<Rightarrow> int \<Rightarrow> (io, int) op" where
  "new_socket fd family type protocol =
     (if fd = - 1 then
        bindS (sys_num (C_Socket family type protocol)) (\<lambda>fd'.
          if fd' \<noteq> - 1 then bindS (on_throw (set_blocking fd' False) (cf_destroy fd')) (\<lambda>_. ret fd')
          else on_throw (throw_os ''socket'') (cf_destroy 0))
      else ret fd)"

definition set_reuse_addr :: "int \<Rightarrow> (io, unit) op" where
  "set_reuse_addr fd e =
     (case ask (C_Get_Reuse fd) num_answer e of
        (Val (Num old), e1) \<Rightarrow>
          bindS (sys_num (C_Set_Reuse fd ((word_of_int old :: 32 word) OR 1)))
            (\<lambda>r. if r < 0 then throw_os ''setsockopt'' else ret ()) e1
      | (Val _, e1) \<Rightarrow> throw_os ''getsockopt'' e1
      | (Raise ex, e1) \<Rightarrow> (Raise ex, e1)
      | (Stuck, e1) \<Rightarrow> (Stuck, e1))"

definition cs_bind :: "int \<Rightarrow> byte list \<Rightarrow> (io, unit) op" where
  "cs_bind fd addr = bindS (sys_num (C_Bind fd addr)) (\<lambda>r. if r < 0 then throw_os ''bind'' else ret ())"

definition cs_listen :: "int \<Rightarrow> nat \<Rightarrow> (io, unit) op" where
  "cs_listen fd backlog =
     bindS (sys_num (C_Listen fd backlog)) (\<lambda>r. if r < 0 then throw_os ''listen'' else ret ())"

function accept_fd :: "int \<Rightarrow> (io, int) op" where
  "accept_fd fd e =
     bindS (sys_num (C_Accept fd)) (\<lambda>r e1.
       if r > 0 then (Val r, e1)
       else if io_errno e1 = EWOULDBLOCK then bindS (wait_for_read fd) (\<lambda>_. accept_fd fd) e1
       else (Raise (OS_Error ''accept'' (io_errno e1)), e1)) e"
  by pat_completeness auto
termination
  by (relation "measure (\<lambda>(fd, e). length (io_answers e))") (auto dest!: sys_num_less wait_answers)

declare accept_fd.simps [simp del]

definition PF_INET :: int where "PF_INET = 2"
definition SOCK_STREAM :: int where "SOCK_STREAM = 1"

definition cs_accept :: "int \<Rightarrow> (io, int) op" where
  "cs_accept fd = bindS (accept_fd fd) (\<lambda>c. new_socket c PF_INET SOCK_STREAM 0)"

definition cs_connect :: "int \<Rightarrow> byte list \<Rightarrow> (io, unit) op" where
  "cs_connect fd addr =
     bindS (sys_num (C_Connect fd addr)) (\<lambda>n.
       if n < 0 then
         bindS errno (\<lambda>er.
           if er = EWOULDBLOCK then wait_for_write fd
           else if er = EINPROGRESS then wait_for_write fd
           else throw_os ''connect'')
       else ret ())"

definition cs_shutdown :: "int \<Rightarrow> int \<Rightarrow> (io, unit) op" where
  "cs_shutdown fd how =
     bindS (sys_num (C_Shutdown fd how)) (\<lambda>n. if n < 0 then throw_os ''shutdown'' else ret ())"

text \<open>\<open>sets_nonblocking fd log\<close>: some \<open>fcntl\<close> in the log sets \<open>O_NDELAY\<close> on the descriptor.\<close>

definition sets_nonblocking :: "int \<Rightarrow> (call \<times> answer) list \<Rightarrow> bool" where
  "sets_nonblocking fd log \<longleftrightarrow>
     list_ex (\<lambda>(c, a). case c of C_Set_Flags f fl \<Rightarrow> f = fd \<and> fl AND O_NDELAY \<noteq> 0 | _ \<Rightarrow> False) log"

lemma sets_nonblocking_append [simp]:
  "sets_nonblocking fd (xs @ ys) \<longleftrightarrow> sets_nonblocking fd xs \<or> sets_nonblocking fd ys"
  by (simp add: sets_nonblocking_def)

lemma sets_nonblocking_Nil [simp]: "\<not> sets_nonblocking fd []"
  by (simp add: sets_nonblocking_def)

lemma minus_one_flag: "\<exists>fl :: 32 word. - 1 = fl OR O_NDELAY"
  by (rule exI [of _ "- 1"]) simp

lemma set_blocking_log:
  assumes "set_blocking fd False e = (Val (), e')"
  shows "\<exists>n fl m. io_log e' = io_log e @ [(C_Get_Flags fd, n), (C_Set_Flags fd (fl OR O_NDELAY), m)]"
  using assms
  by (auto simp: set_blocking_def sys_num_def bindS_iffs ask_def Let_def throw_os_def errno_def
      split: list.splits if_splits answer.splits intro: minus_one_flag)

lemma or_flag_nonzero: "(w OR O_NDELAY) AND O_NDELAY \<noteq> (0 :: 32 word)"
proof -
  have "(w OR O_NDELAY) AND O_NDELAY = O_NDELAY" by (rule bit_word_eqI) (auto simp: bit_simps)
  then show ?thesis by (simp add: O_NDELAY_def)
qed

lemma accept_fd_log:
  "accept_fd fd e = (Val c, e') \<Longrightarrow>
   0 < c \<and> (\<exists>new. io_log e' = io_log e @ new \<and> \<not> sets_nonblocking c new)"
proof (induction fd e arbitrary: c e' rule: accept_fd.induct)
  case (1 fd e)
  obtain r e1 where r: "sys_num (C_Accept fd) e = (Val r, e1)"
    using "1.prems" by (auto simp: accept_fd.simps [of fd e] bindS_iffs)
  then obtain a where log1: "io_log e1 = io_log e @ [(C_Accept fd, a)]"
    by (auto simp: sys_num_def bindS_iffs ask_def split: list.splits)
  show ?case
  proof (cases "r > 0")
    case True
    then have "c = r" "e' = e1" using "1.prems" r by (simp_all add: accept_fd.simps [of fd e] bindS_def)
    then show ?thesis using True log1 by (auto simp: sets_nonblocking_def)
  next
    case False
    then obtain e2 where w: "io_errno e1 = EWOULDBLOCK" "wait_for_read fd e1 = (Val (), e2)"
      and rest: "accept_fd fd e2 = (Val c, e')"
      using "1.prems" r by (auto simp: accept_fd.simps [of fd e] bindS_iffs split: if_splits)
    have "io_log e2 = io_log e1 @ [(C_Wait_Read fd, Num 0)]"
      using w(2) by (auto simp: wait_for_read_def sys_wait_def split: if_splits list.splits)
    with "1.IH" [OF r False w rest] log1 show ?thesis by (auto simp: sets_nonblocking_def)
  qed
qed

text \<open>
  a flaw.  The socket a client makes for itself is non-blocking, as every read and write of
  the library needs; but a socket that \<open>accept\<close> returns is not: its constructor is given a descriptor
  and then does not call \<open>set_blocking\<close>.  (On Linux \<open>accept (2)\<close> does not inherit the flag.)  One
  client that is slow then stops the whole process.
\<close>

theorem accepted_socket_is_blocking:
  "(new_socket (- 1) family type protocol e = (Val c, e1) \<longrightarrow>
      (\<exists>new. io_log e1 = io_log e @ new \<and> sets_nonblocking c new))
   \<and> (cs_accept fd e = (Val d, e2) \<longrightarrow>
      0 < d \<and> (\<exists>new. io_log e2 = io_log e @ new \<and> \<not> sets_nonblocking d new))"
proof (intro conjI impI)
  assume "new_socket (- 1) family type protocol e = (Val c, e1)"
  then obtain e0 where s: "sys_num (C_Socket family type protocol) e = (Val c, e0)" and b: "set_blocking c False e0 = (Val (), e1)"
    by (auto simp: new_socket_def bindS_iffs throw_os_def errno_def split: if_splits)
  obtain x where "io_log e0 = io_log e @ x" using s by (auto simp: sys_num_def bindS_iffs ask_def split: list.splits)
  then show "\<exists>new. io_log e1 = io_log e @ new \<and> sets_nonblocking c new"
    using set_blocking_log [OF b] or_flag_nonzero by (auto simp: sets_nonblocking_def)
next
  assume acc: "cs_accept fd e = (Val d, e2)"
  then obtain c e1 where a: "accept_fd fd e = (Val c, e1)" and n: "new_socket c PF_INET SOCK_STREAM 0 e1 = (Val d, e2)"
    by (auto simp: cs_accept_def bindS_iffs)
  have same: "c = d \<and> e1 = e2" using n accept_fd_log [OF a] by (simp add: new_socket_def)
  then show "0 < d" using accept_fd_log [OF a] by simp
  show "\<exists>new. io_log e2 = io_log e @ new \<and> \<not> sets_nonblocking d new"
    using accept_fd_log [OF a] same by simp
qed

theorem accepted_socket_is_blocking_witness:
  "(\<exists>e1. new_socket (- 1) PF_INET SOCK_STREAM 0 (ex_io [Num 3, Num 2, Num 0]) = (Val 3, e1) \<and> sets_nonblocking 3 (io_log e1))
   \<and> (\<exists>e2. cs_accept 3 (ex_io [Fail 11, Num 4]) = (Val 4, e2) \<and> \<not> sets_nonblocking 4 (io_log e2))"
proof -
  let ?n = "new_socket (- 1) PF_INET SOCK_STREAM 0 (ex_io [Num 3, Num 2, Num 0])"
  let ?a = "cs_accept 3 (ex_io [Fail 11, Num 4])"
  have "fst ?n = Val 3" "fst ?a = Val 4" by code_simp+
  then have "?n = (Val 3, snd ?n)" "?a = (Val 4, snd ?a)" by (metis prod.collapse)+
  then show ?thesis
    using accepted_socket_is_blocking [where family = PF_INET and type = SOCK_STREAM and protocol = 0
        and e = "ex_io [Num 3, Num 2, Num 0]" and c = 3 and ?e1.0 = "snd ?n"]
      accepted_socket_is_blocking [where fd = 3 and e = "ex_io [Fail 11, Num 4]" and d = 4 and ?e2.0 = "snd ?a"]
    by (intro conjI exI [of _ "snd ?n"] exI [of _ "snd ?a"]) (auto simp: ex_io_def)
qed

lemma destroyed: "on_throw m (cf_destroy fd) e = (Raise ex, e') \<Longrightarrow> \<exists>e1. m e = (Raise ex, e1)"
  by (auto simp: on_throw_def bindS_iffs cf_destroy_def cf_close_def sys_num_def ask_def
      split: prod.splits outcome.splits list.splits if_splits)

text \<open>
  a flaw.  When \<open>socket (2)\<close> fails, the constructor throws while \<open>_fd\<close> still has the 0 of the default constructor
  of \<open>coro_file\<close>, and the destructor of the base class closes descriptor 0, the standard input of the process.
\<close>

theorem failed_socket_closes_stdin:
  assumes "new_socket (- 1) family type protocol e = (Raise (OS_Error ''socket'' n), e')"
  shows "closes 0 e' = closes 0 e + 1"
proof -
  have fcntl: "set_blocking fd False e1 \<noteq> (Raise (OS_Error ''socket'' n), e2)" for fd e1 e2
    by (auto simp: set_blocking_def sys_num_def bindS_iffs ask_def Let_def throw_os_def errno_def
        split: list.splits if_splits)
  obtain x e0 where x: "sys_num (C_Socket family type protocol) e = (x, e0)" by (rule prod.exhaust)
  have v: "x \<noteq> Raise ex" for ex using x by (auto simp: sys_num_def bindS_def ask_def split: list.splits)
  have s: "sys_num (C_Socket family type protocol) e = (Val (- 1), e0)"
    and d: "on_throw (throw_os ''socket'' :: (io, int) op) (cf_destroy 0) e0 = (Raise (OS_Error ''socket'' n), e')"
  proof (atomize (full), cases x)
    case (Val k)
    then have r: "(if k \<noteq> - 1 then bindS (on_throw (set_blocking k False) (cf_destroy k)) (\<lambda>_. ret k)
        else on_throw (throw_os ''socket'') (cf_destroy 0)) e0 = (Raise (OS_Error ''socket'' n), e')"
      using assms x by (simp add: new_socket_def bindS_def)
    have "k = - 1" using r fcntl by (auto simp: bindS_Raise_iff split: if_splits dest: destroyed)
    then show "sys_num (C_Socket family type protocol) e = (Val (- 1), e0)
        \<and> on_throw (throw_os ''socket'' :: (io, int) op) (cf_destroy 0) e0 = (Raise (OS_Error ''socket'' n), e')"
      using r x Val by simp
  qed (use assms x v in \<open>simp_all add: new_socket_def bindS_def\<close>)
  have "closes 0 e0 = closes 0 e" using steadyD [OF steady_sys_num s, of "closes 0"] by simp
  moreover have "closes 0 e' = closes 0 e0 + 1"
    using d by (auto simp: on_throw_def throw_os_def errno_def bindS_def cf_destroy_def cf_close_def sys_num_def ask_def
        closes_def split: list.splits)
  ultimately show ?thesis by simp
qed

theorem failed_socket_closes_stdin_witness:
  "closes 0 (snd (new_socket (- 1) PF_INET SOCK_STREAM 0 (ex_io [Fail 24, Num 0]))) = 1"
proof -
  let ?r = "new_socket (- 1) PF_INET SOCK_STREAM 0 (ex_io [Fail 24, Num 0])"
  have "fst ?r = Raise (OS_Error ''socket'' 24)" by code_simp
  then have "?r = (Raise (OS_Error ''socket'' 24), snd ?r)" by (metis prod.collapse)
  from failed_socket_closes_stdin [OF this] show ?thesis by (simp add: closes_def ex_io_def)
qed

end
