(* ===== verification/Echo_Server.thy ===== *)
theory Echo_Server
  imports Coro_Socket
begin

section \<open>The echo server\<close>

text \<open>
  \<open>demo/echo_server.cc\<close>: \<open>echo_session\<close>, the coroutine that serves one client, with the plain sockets; theory \<open>Echo_Tls\<close> has the
  other classes.
  The text of a benchmark (\<open>the_bench.diff ().dump ()\<close>) is a parameter, a function of the state.
  The session takes ownership of the socket, so its destructor runs at the end; \<open>close\<close> has set \<open>_fd\<close> to
  -1 on the normal paths, and then the destructor does nothing.
\<close>

datatype echo_end = At_Eof | At_Quit | At_Shutdown

text \<open>
  The loop over the virtual functions that it calls: \<open>rd\<close> is \<open>read\<close>, \<open>wr\<close> is \<open>write\<close>, \<open>sh\<close> is \<open>shutdown ()\<close> and \<open>cl\<close> is \<open>close ()\<close>,
  which is not virtual.
\<close>

fun echo_loop_over ::
    "nat \<Rightarrow> nat \<Rightarrow> (nat \<Rightarrow> ('e, byte list) op) \<Rightarrow> (byte list \<Rightarrow> ('e, unit) op) \<Rightarrow> ('e, unit) op \<Rightarrow> ('e, int) op
      \<Rightarrow> ('e \<Rightarrow> byte list) \<Rightarrow> ('e buf, echo_end) op" where
  "echo_loop_over 0 g rd wr sh cl bench s = (Stuck, s)"
| "echo_loop_over (Suc n) g rd wr sh cl bench s =
     bindS (get_line g rd) (\<lambda>r.
       let closed = fst r; line = snd r in
       if closed then bindS (on_file cl) (\<lambda>_. ret At_Eof)
       else if char_at line 0 = 33 then
         if char_at line 1 = 113 then bindS (on_file sh) (\<lambda>_. bindS (on_file cl) (\<lambda>_. ret At_Quit))
         else if char_at line 1 = 115 then bindS (on_file sh) (\<lambda>_. bindS (on_file cl) (\<lambda>_. ret At_Shutdown))
         else if char_at line 1 = 98 then
           bindS (\<lambda>s. on_file (wr (bench (snd s))) s) (\<lambda>_. echo_loop_over n g rd wr sh cl bench)
         else echo_loop_over n g rd wr sh cl bench
       else bindS (on_file (wr line)) (\<lambda>_. echo_loop_over n g rd wr sh cl bench)) s"

definition echo_loop :: "nat \<Rightarrow> nat \<Rightarrow> int \<Rightarrow> (io \<Rightarrow> byte list) \<Rightarrow> (io buf, echo_end) op" where
  "echo_loop n g fd bench =
     echo_loop_over n g (cf_read fd) (cf_write fd) (cs_shutdown fd SHUT_RDWR) (cf_close fd) bench"

lemma echo_loop_simps [simp]:
  "echo_loop 0 g fd bench s = (Stuck, s)"
  "echo_loop (Suc n) g fd bench s =
     bindS (get_line g (cf_read fd)) (\<lambda>r.
       let closed = fst r; line = snd r in
       if closed then bindS (on_file (cf_close fd)) (\<lambda>_. ret At_Eof)
       else if char_at line 0 = 33 then
         if char_at line 1 = 113 then
           bindS (on_file (cs_shutdown fd SHUT_RDWR)) (\<lambda>_. bindS (on_file (cf_close fd)) (\<lambda>_. ret At_Quit))
         else if char_at line 1 = 115 then
           bindS (on_file (cs_shutdown fd SHUT_RDWR)) (\<lambda>_. bindS (on_file (cf_close fd)) (\<lambda>_. ret At_Shutdown))
         else if char_at line 1 = 98 then
           bindS (\<lambda>s. on_file (cf_write fd (bench (snd s))) s) (\<lambda>_. echo_loop n g fd bench)
         else echo_loop n g fd bench
       else bindS (on_file (cf_write fd line)) (\<lambda>_. echo_loop n g fd bench)) s"
  unfolding echo_loop_def by (rule echo_loop_over.simps)+

text \<open>
  The session with its handlers, which catch every exception, and the destructor of the socket.  The
  result is the way the loop ended, or \<open>None\<close> when an exception was caught.
\<close>

definition echo_session :: "nat \<Rightarrow> nat \<Rightarrow> int \<Rightarrow> (io \<Rightarrow> byte list) \<Rightarrow> (io, echo_end option) op" where
  "echo_session n g fd bench e =
     (case echo_loop n g fd bench ([], e) of
        (Val r, (_, e1)) \<Rightarrow> bindS (cf_destroy (- 1)) (\<lambda>_. ret (Some r)) e1
      | (Raise ex, (_, e1)) \<Rightarrow> bindS (cf_destroy fd) (\<lambda>_. ret None) e1
      | (Stuck, (_, e1)) \<Rightarrow> (Stuck, e1))"

subsection \<open>The descriptor\<close>

lemma get_loop_steady:
  assumes "\<And>n. steady f (rd n)"
  shows "f (snd (snd (get_loop n rd d m sl s))) = f (snd s)"
proof (induction n arbitrary: m sl s)
  case (Suc n)
  obtain b e where s: "s = (b, e)" by (rule prod.exhaust)
  obtain x e1 where rd: "rd 8192 e = (x, e1)" by (rule prod.exhaust)
  have "f e1 = f e" using steadyD [OF assms rd] .
  then show ?case
    using Suc.IH rd by (auto simp: s read_string_def bindS_def split: outcome.splits sum.splits)
qed simp

lemma get_line_steady:
  assumes "\<And>n. steady f (rd n)" "get_line g rd s = (r, s')"
  shows "f (snd s') = f (snd s)"
proof -
  have "snd (get_line g rd s) = snd (get_loop g rd CRLF 0 [] s)"
    by (auto simp: get_line_def get_string_def get_list_def bindS_def split: prod.splits outcome.splits)
  then show ?thesis using get_loop_steady [of f rd g CRLF 0 "[]" s, OF assms(1)] assms(2) by simp
qed

lemma on_file_eq: "on_file m s = (r, s') \<longleftrightarrow> (\<exists>e'. m (snd s) = (r, e') \<and> s' = (fst s, e'))"
  by (auto simp: on_file_def split: prod.splits)

lemma steady_shutdown: "ignores f (C_Shutdown fd how) \<Longrightarrow> steady f (cs_shutdown fd how)"
  unfolding cs_shutdown_def by (rule steady_bindS) (auto simp: steady_sys_num)

lemma cf_close_closes:
  "cf_close fd e = (r, e') \<Longrightarrow> r = Val (- 1) \<and> closes fd e' = closes fd e + 1 \<or> r = Stuck \<and> e' = e"
  by (auto simp: cf_close_def sys_num_def bindS_def ask_def closes_def split: list.splits)

text \<open>
  \<open>closes_by f k m\<close>: \<open>m\<close> adds \<open>k\<close> to the number \<open>f\<close> of the closes of a descriptor when it returns, and nothing when it does not.
\<close>

definition closes_by :: "('e \<Rightarrow> nat) \<Rightarrow> nat \<Rightarrow> ('e buf, 'a) op \<Rightarrow> bool" where
  "closes_by f k m \<longleftrightarrow> (\<forall>s. f (snd (snd (m s))) = f (snd s) + (case fst (m s) of Val _ \<Rightarrow> k | _ \<Rightarrow> 0))"

lemma closes_by_bindS:
  "closes_by f 0 m \<Longrightarrow> (\<And>a. closes_by f k (g a)) \<Longrightarrow> closes_by f k (bindS m g)"
  unfolding closes_by_def bindS_def
  by (intro allI, erule_tac x = s in allE) (auto split: prod.splits outcome.splits)

lemma closes_by_last: "closes_by f k m \<Longrightarrow> closes_by f k (bindS m (\<lambda>a. ret (g a)))"
  unfolding closes_by_def bindS_def
  by (intro allI, erule_tac x = s in allE) (auto split: prod.splits outcome.splits)

lemma closes_by_close: "closes_by (closes fd) 1 (on_file (cf_close fd))"
  unfolding closes_by_def on_file_def
  by (auto split: prod.splits outcome.splits dest: cf_close_closes)

lemma closes_by_steady: "steady f m \<Longrightarrow> closes_by f 0 (on_file m)"
  unfolding closes_by_def on_file_def
  by (auto split: prod.splits outcome.splits dest: steadyD)

lemma closes_by_get_line: "(\<And>n. steady f (rd n)) \<Longrightarrow> closes_by f 0 (get_line g rd)"
  using get_line_steady [of f rd g, OF _ prod.collapse [symmetric]] by (simp add: closes_by_def split: outcome.split)

lemma closes_by_stuck: "closes_by f k (\<lambda>s. (Stuck, s))"
  by (simp add: closes_by_def)

lemma echo_loop_over_closes:
  assumes "\<And>n. steady f (rd n)" "\<And>p. steady f (wr p)" "steady f sh" "closes_by f 1 (on_file cl)"
  shows "closes_by f 1 (echo_loop_over n g rd wr sh cl bench)"
proof (induction n)
  case 0
  then show ?case using closes_by_stuck [of f 1] by (simp add: closes_by_def)
next
  case (Suc n)
  have wr: "closes_by f 0 (on_file (wr p))" for p by (rule closes_by_steady) (rule assms(2))
  have wr': "closes_by f 0 (\<lambda>s. on_file (wr (bench (snd s))) s)"
    using wr unfolding closes_by_def by blast
  have shut: "closes_by f 0 (on_file sh)" by (rule closes_by_steady) (rule assms(3))
  have "closes_by f 1 (bindS (get_line g rd) (\<lambda>r.
       let closed = fst r; line = snd r in
       if closed then bindS (on_file cl) (\<lambda>_. ret At_Eof)
       else if char_at line 0 = 33 then
         if char_at line 1 = 113 then bindS (on_file sh) (\<lambda>_. bindS (on_file cl) (\<lambda>_. ret At_Quit))
         else if char_at line 1 = 115 then bindS (on_file sh) (\<lambda>_. bindS (on_file cl) (\<lambda>_. ret At_Shutdown))
         else if char_at line 1 = 98 then
           bindS (\<lambda>s. on_file (wr (bench (snd s))) s) (\<lambda>_. echo_loop_over n g rd wr sh cl bench)
         else echo_loop_over n g rd wr sh cl bench
       else bindS (on_file (wr line)) (\<lambda>_. echo_loop_over n g rd wr sh cl bench)))"
    unfolding Let_def
    by (intro closes_by_bindS [OF closes_by_get_line [OF assms(1)]])
      (simp add: closes_by_bindS [OF shut] closes_by_bindS [OF wr] closes_by_bindS [OF wr']
        closes_by_last [OF assms(4), simplified] Suc.IH [unfolded One_nat_def])
  then show ?case by (simp add: closes_by_def)
qed

lemma echo_loop_closes: "closes_by (closes fd) 1 (echo_loop n g fd bench)"
  unfolding echo_loop_def
  by (rule echo_loop_over_closes) (simp_all add: steady_cf_read steady_cf_write steady_shutdown closes_by_close [simplified])

lemma session_closes_once:
  assumes "echo_session n g fd bench e = (Val r, e')" "fd \<noteq> - 1"
  shows "closes fd e' = closes fd e + 1"
proof -
  obtain x b e1 where l: "echo_loop n g fd bench ([], e) = (x, (b, e1))" by (metis prod.collapse)
  have c: "closes fd e1 = closes fd e + (case x of Val _ \<Rightarrow> 1 | _ \<Rightarrow> 0)"
    using spec [OF echo_loop_closes [of fd n g bench, unfolded closes_by_def], of "([], e)"] l by simp
  show ?thesis
  proof (cases x)
    case (Raise ex)
    then obtain r' where "cf_close fd e1 = (Val r', e')"
      using assms l by (auto simp: echo_session_def cf_destroy_def bindS_iffs)
    from cf_close_closes [OF this] show ?thesis using c Raise by simp
  qed (use assms(1) l c in \<open>auto simp: echo_session_def cf_destroy_def\<close>)
qed

text \<open>
  the descriptor of a session is closed exactly once, however the session ends: at the end of the
  stream, by a command of the client, or by an exception out of \<open>read\<close>, \<open>write\<close> or \<open>shutdown\<close>.
\<close>

theorem echo_session_closes_once:
  assumes "echo_session n g fd bench e = (Val r, e')" "fd \<noteq> - 1"
  shows "closes fd e' = closes fd e + 1"
  using assms by (rule session_closes_once)

lemmas echo_loop_over_numeral = echo_loop_over.simps(2) [of "pred_numeral k" for k, folded numeral_eq_Suc]

lemmas echo_loop_numeral = echo_loop_simps(2) [of "pred_numeral k" for k, folded numeral_eq_Suc]

theorem echo_session_closes_once_witness:
  "let r = echo_session 5 9 4 (\<lambda>_. []) (ex_io [Data [104, 105, 13, 10], Fail 32, Num 0])
   in fst r = Val None \<and> closes 4 (snd r) = 1"
proof -
  let ?e = "ex_io [Data [104, 105, 13, 10], Fail 32, Num 0]"
  let ?e1 = "?e\<lparr>io_answers := [Fail 32, Num 0], io_log := [(C_Read 4 8192, Data [104, 105, 13, 10])]\<rparr>"
  let ?r = "echo_session 5 9 4 (\<lambda>_. []) ?e"
  have g: "get_line 9 (cf_read 4) ([], ?e) = (Val (False, [104, 105, 13, 10]), ([], ?e1))"
    by (simp add: get_line_def get_simps)
  obtain e2 where w: "cf_write 4 [104, 105, 13, 10] ?e1 = (Raise (OS_Error ''write'' 32), e2)" "io_answers e2 = [Num 0]"
    by (simp add: cf_write.simps [of 4 "[104, 105, 13, 10]"] sys_write_def bindS_def ask_def write_answer_def
        EWOULDBLOCK_def)
  have l: "echo_loop 5 9 4 (\<lambda>_. []) ([], ?e) = (Raise (OS_Error ''write'' 32), ([], e2))"
    by (simp add: echo_loop_numeral bindS_def g char_at_def on_file_def w(1))
  have "fst ?r = Val None"
    by (simp add: echo_session_def l cf_destroy_def cf_close_def sys_num_def bindS_def ask_def num_answer_def w(2))
  moreover from this have "?r = (Val None, snd ?r)" by (metis prod.collapse)
  ultimately show ?thesis
    using echo_session_closes_once [of 5 9 4 "\<lambda>_. []" ?e None "snd ?r"] by (simp add: Let_def closes_def ex_io_def)
qed

subsection \<open>What is echoed\<close>

text \<open>What the session sends for a line: the line itself, a benchmark, or nothing for another command.\<close>

definition echo_reply :: "byte list \<Rightarrow> byte list \<Rightarrow> bool" where
  "echo_reply line out \<longleftrightarrow>
     (if char_at line 0 \<noteq> 33 then out = line else char_at line 1 = 98 \<or> out = [])"

definition is_line :: "byte list \<Rightarrow> bool" where
  "is_line line \<longleftrightarrow> (\<exists>u. line = u @ CRLF)"

lemma cf_write_returns: "cf_write fd p e = (Val (), e') \<Longrightarrow> sent fd e' = sent fd e @ p \<and> received fd e' = received fd e"
  using cf_write_sent [of p fd e] steadyD [OF steady_cf_write, of "received fd" fd p e "Val ()" e'] by auto

lemma get_line_returns:
  assumes "get_line g (cf_read fd) (b, e) = (Val (closed, line), (b', e'))"
  shows "\<exists>new. received fd e' = received fd e @ new \<and> line @ b' = b @ new \<and> sent fd e' = sent fd e
    \<and> (\<not> closed \<longrightarrow> is_line line)"
proof -
  have "sent fd e' = sent fd e"
    using get_line_steady [of "sent fd" "cf_read fd" g, OF _ assms] by (simp add: steady_cf_read)
  moreover have "CRLF \<noteq> []" by (simp add: CRLF_def)
  ultimately show ?thesis
    using cf.get_string_spec [OF assms [unfolded get_line_def] \<open>CRLF \<noteq> []\<close>] by (auto simp: is_line_def split: if_splits)
qed

lemma quiet_end:
  assumes "cs_shutdown fd how e = (r, e1)"
  shows "received fd e1 = received fd e" "sent fd e1 = sent fd e"
  using steadyD [OF steady_shutdown assms, of "received fd"] steadyD [OF steady_shutdown assms, of "sent fd"] by simp_all

lemma quiet_close:
  assumes "cf_close fd e = (r, e1)"
  shows "received fd e1 = received fd e" "sent fd e1 = sent fd e"
proof -
  have "steady (received fd) (cf_close fd)" "steady (sent fd) (cf_close fd)"
    unfolding cf_close_def by (rule steady_bindS; simp add: steady_sys_num)+
  then show "received fd e1 = received fd e" "sent fd e1 = sent fd e" using assms by (auto dest: steadyD)
qed

text \<open>
  What a session needs of the connection: \<open>got\<close> is what has been read and \<open>put\<close> what has been written; \<open>ok\<close> says that
  a library below it has done what it promises, which it need not have for ever once it has.
\<close>

locale echo_transport = byte_reader rd got
  for rd :: "nat \<Rightarrow> ('e, byte list) op" and got :: "'e \<Rightarrow> byte list" +
  fixes wr :: "byte list \<Rightarrow> ('e, unit) op" and sh :: "('e, unit) op" and cl :: "('e, int) op"
    and put :: "'e \<Rightarrow> byte list" and ok :: "'e \<Rightarrow> bool"
  assumes rd_quiet: "rd n e = (Val bs, e') \<Longrightarrow> put e' = put e \<and> (ok e' \<longrightarrow> ok e)"
    and wr_val: "wr p e = (Val (), e') \<Longrightarrow> got e' = got e \<and> (ok e' \<longrightarrow> ok e \<and> put e' = put e @ p)"
    and sh_val: "sh e = (Val (), e') \<Longrightarrow> got e' = got e \<and> put e' = put e \<and> (ok e' \<longrightarrow> ok e)"
    and cl_val: "cl e = (Val k, e') \<Longrightarrow> got e' = got e \<and> put e' = put e \<and> (ok e' \<longrightarrow> ok e)"
begin

lemma get_loop_quiet:
  "get_loop n rd d m sl (b, e) = (Val r, (b', e')) \<Longrightarrow> put e' = put e \<and> (ok e' \<longrightarrow> ok e)"
proof (induction n arbitrary: m sl b e)
  case (Suc n)
  show ?case
  proof (cases "b = []")
    case True
    obtain x e1 where rd: "rd 8192 e = (x, e1)" by (rule prod.exhaust)
    show ?thesis
      using Suc.prems Suc.IH rd_quiet rd True
      by (cases x) (auto simp: read_string_def bindS_def split: if_splits sum.splits)
  next
    case False
    then show ?thesis using Suc.prems Suc.IH by (auto simp: bindS_def split: sum.splits)
  qed
qed simp

lemma get_line_step:
  assumes "get_line g rd (b, e) = (Val (closed, line), (b', e'))"
  shows "\<exists>new. got e' = got e @ new \<and> line @ b' = b @ new \<and> put e' = put e \<and> (ok e' \<longrightarrow> ok e) \<and> (\<not> closed \<longrightarrow> is_line line)"
proof -
  have "put e' = put e \<and> (ok e' \<longrightarrow> ok e)"
    using assms get_loop_quiet [of g CRLF 0 "[]" b e _ b' e']
    by (auto simp: get_line_def get_string_def get_list_def bindS_iffs)
  moreover have "CRLF \<noteq> []" by (simp add: CRLF_def)
  ultimately show ?thesis
    using get_string_spec [OF assms [unfolded get_line_def] \<open>CRLF \<noteq> []\<close>] by (auto simp: is_line_def split: if_splits)
qed

definition trace :: "'e buf \<Rightarrow> 'e buf \<Rightarrow> byte list list \<Rightarrow> byte list list \<Rightarrow> byte list \<Rightarrow> bool" where
  "trace s s' lines outs rest \<longleftrightarrow>
     (\<exists>new. got (snd s') = got (snd s) @ new \<and> fst s @ new = concat lines @ rest)
     \<and> put (snd s') = put (snd s) @ concat outs
     \<and> list_all2 echo_reply lines outs \<and> list_all is_line lines"

lemma trace_step:
  assumes "trace (b1, e2) s' lines outs rest"
    and "got e2 = got e1" "put e2 = put e1 @ out"
    and "got e1 = got e @ new" "line @ b1 = b @ new" "put e1 = put e"
    and "is_line line" "echo_reply line out"
  shows "trace (b, e) s' (line # lines) (out # outs) rest"
proof -
  obtain new' where "got (snd s') = got e2 @ new'" "b1 @ new' = concat lines @ rest"
    using assms(1) by (auto simp: trace_def)
  then have "got (snd s') = got e @ (new @ new') \<and> b @ (new @ new') = concat (line # lines) @ rest"
    using assms(2,4,5) by (metis append.assoc concat.simps(2))
  then show ?thesis using assms unfolding trace_def by auto
qed

lemma trace_end:
  assumes "got e2 = got e @ new" "line @ b1 = b @ new" "put e2 = put e"
  shows "trace (b, e) (b2, e2) [] [] (line @ b1)"
    and "is_line line \<Longrightarrow> char_at line 0 = 33 \<Longrightarrow> trace (b, e) (b2, e2) [line] [[]] b1"
  using assms by (auto simp: trace_def echo_reply_def)

lemma loop_trace:
  "echo_loop_over n g rd wr sh cl bench (b, e) = (Val r, s') \<Longrightarrow> ok (snd s') \<Longrightarrow>
   ok e \<and> (\<exists>lines outs rest. trace (b, e) s' lines outs rest)"
proof (induction n arbitrary: b e)
  case 0
  then show ?case by simp
next
  case (Suc n)
  let ?loop = "echo_loop_over n g rd wr sh cl bench"
  obtain closed line b1 e1 where l: "get_line g rd (b, e) = (Val (closed, line), (b1, e1))"
    using Suc.prems(1) by (auto simp: bindS_iffs)
  obtain new where new: "got e1 = got e @ new" "line @ b1 = b @ new" "put e1 = put e" "ok e1 \<Longrightarrow> ok e"
    "\<not> closed \<longrightarrow> is_line line" using get_line_step [OF l] by blast
  note step = trace_step [OF _ _ _ new(1-3)]
  consider (eof) k e2 where "closed" "cl e1 = (Val k, e2)" "s' = (b1, e2)"
    | (stop) k e2 e3 where "\<not> closed" "char_at line 0 = 33" "sh e1 = (Val (), e2)" "cl e2 = (Val k, e3)" "s' = (b1, e3)"
    | (cmd) "\<not> closed" "char_at line 0 = 33" "?loop (b1, e1) = (Val r, s')"
    | (bench) e2 where "\<not> closed" "char_at line 0 = 33" "char_at line 1 = 98"
        "wr (bench e1) e1 = (Val (), e2)" "?loop (b1, e2) = (Val r, s')"
    | (echo) e2 where "\<not> closed" "char_at line 0 \<noteq> 33" "wr line e1 = (Val (), e2)" "?loop (b1, e2) = (Val r, s')"
    using Suc.prems(1) l by (auto simp: bindS_iffs on_file_eq Let_def split: if_splits)
  then show ?case
  proof cases
    case eof
    then show ?thesis using trace_end(1) [of e2 e new line b1 b b1] new cl_val [OF eof(2)] Suc.prems(2) by auto
  next
    case stop
    then show ?thesis
      using trace_end(2) [of e3 e new line b1 b b1] new sh_val [OF stop(3)] cl_val [OF stop(4)] Suc.prems(2) by auto
  next
    case cmd
    then obtain lines outs rest where "trace (b1, e1) s' lines outs rest" "ok e1" using Suc.IH Suc.prems(2) by blast
    from step [OF this(1), of "[]"] show ?thesis using new(4,5) cmd \<open>ok e1\<close> by (auto simp: echo_reply_def)
  next
    case bench
    then obtain lines outs rest where t: "trace (b1, e2) s' lines outs rest" "ok e2" using Suc.IH Suc.prems(2) by blast
    from step [OF this(1), of "bench e1"] show ?thesis
      using new(4,5) bench wr_val [OF bench(4)] t(2) by (auto simp: echo_reply_def)
  next
    case echo
    then obtain lines outs rest where t: "trace (b1, e2) s' lines outs rest" "ok e2" using Suc.IH Suc.prems(2) by blast
    from step [OF this(1), of line] show ?thesis
      using new(4,5) echo wr_val [OF echo(3)] t(2) by (auto simp: echo_reply_def)
  qed
qed

end

interpretation plain: echo_transport "cf_read fd" "received fd" "cf_write fd" "cs_shutdown fd SHUT_RDWR" "cf_close fd" "sent fd" "\<lambda>_. True"
proof unfold_locales
  show "sent fd e' = sent fd e \<and> (True \<longrightarrow> True)" if "cf_read fd n e = (Val bs, e')" for n e bs e'
    using steadyD [OF steady_cf_read that, of "sent fd"] by simp
  show "received fd e' = received fd e \<and> (True \<longrightarrow> True \<and> sent fd e' = sent fd e @ p)" if "cf_write fd p e = (Val (), e')" for p e e'
    using cf_write_returns [OF that] by simp
qed (auto dest: quiet_end quiet_close)

lemma session_echoes:
  assumes "echo_session n g fd bench e = (Val (Some r), e')"
  shows "\<exists>lines outs rest. received fd e' = received fd e @ concat lines @ rest
    \<and> sent fd e' = sent fd e @ concat outs
    \<and> list_all2 echo_reply lines outs \<and> list_all is_line lines"
proof -
  obtain s' where "echo_loop n g fd bench ([], e) = (Val r, s')" "snd s' = e'"
    using assms by (auto simp: echo_session_def cf_destroy_def bindS_iffs split: prod.splits outcome.splits)
  then show ?thesis using plain.loop_trace [of n g fd bench "[]" e r s'] by (auto simp: echo_loop_def plain.trace_def)
qed



subsection \<open>The servers\<close>

text \<open>
  \<open>echo_server\<close> and \<open>smtp_server\<close> have the same loop: \<open>accept\<close> a connection and schedule a new coroutine
  for it.  What the new coroutines do is not part of this thread: the state is the system with the
  list of the sockets for which a session has been scheduled, in order.  \<open>accept\<close> is virtual, and the
  loop takes it as a parameter.
\<close>

fun accept_loop :: "nat \<Rightarrow> (io, int) op \<Rightarrow> (io \<times> int list, unit) op" where
  "accept_loop 0 acc s = (Stuck, s)"
| "accept_loop (Suc n) acc (e, started) =
     (case acc e of
        (Val c, e1) \<Rightarrow> accept_loop n acc (e1, started @ [c])
      | (Raise ex, e1) \<Rightarrow> (Raise ex, (e1, started))
      | (Stuck, e1) \<Rightarrow> (Stuck, (e1, started)))"

text \<open>
  The \<open>struct sockaddr_in\<close>: the family, the port in network order, \<open>INADDR_ANY\<close>, and the field \<open>sin_zero\<close>, which
  nobody sets and which has the bytes that were on the stack.
\<close>

definition server_addr :: "16 word \<Rightarrow> byte list \<Rightarrow> byte list" where
  "server_addr port sin_zero = [2, 0, ucast (drop_bit 8 port), ucast port, 0, 0, 0, 0] @ sin_zero"

definition start_listening :: "int \<Rightarrow> byte list \<Rightarrow> (io, unit) op" where
  "start_listening fd addr =
     bindS (set_reuse_addr fd) (\<lambda>_. bindS (cs_bind fd addr) (\<lambda>_. cs_listen fd 1024))"

definition on_io :: "(io, 'a) op \<Rightarrow> (io \<times> int list, 'a) op" where
  "on_io m s = (case m (fst s) of (r, e) \<Rightarrow> (r, (e, snd s)))"

definition serve_on ::
    "(io, 'c) op \<Rightarrow> ('c \<Rightarrow> (io, unit) op) \<Rightarrow> ('c \<Rightarrow> (io, int) op) \<Rightarrow> nat \<Rightarrow> (io \<times> int list, unit) op" where
  "serve_on mk listen acc n =
     bindS (on_io mk) (\<lambda>s. bindS (on_io (listen s)) (\<lambda>_. accept_loop n (acc s)))"

definition serve :: "nat \<Rightarrow> 16 word \<Rightarrow> byte list \<Rightarrow> (io \<times> int list, unit) op" where
  "serve n port sin_zero =
     serve_on (new_socket (- 1) PF_INET SOCK_STREAM 0) (\<lambda>fd. start_listening fd (server_addr port sin_zero)) cs_accept n"

text \<open>The handlers of \<open>echo_server\<close> end it silently on the errors of the library.\<close>

definition is_coro_error :: "exn \<Rightarrow> bool" where
  "is_coro_error ex \<longleftrightarrow> (case ex of Thrown s \<Rightarrow> False | Undef u \<Rightarrow> False | _ \<Rightarrow> True)"

definition echo_handlers :: "('w, unit) op \<Rightarrow> ('w, unit) op" where
  "echo_handlers m s =
     (case m s of
        (Raise ex, s1) \<Rightarrow> if is_coro_error ex then (Val (), s1) else (Raise ex, s1)
      | x \<Rightarrow> x)"

definition echo_server :: "nat \<Rightarrow> 16 word \<Rightarrow> byte list \<Rightarrow> (io \<times> int list, unit) op" where
  "echo_server n port sin_zero = echo_handlers (serve n port sin_zero)"

text \<open>The connections that the kernel has handed out for a listening socket.\<close>

primrec accepted_in :: "int \<Rightarrow> (call \<times> answer) list \<Rightarrow> int list" where
  "accepted_in fd [] = []"
| "accepted_in fd (x # xs) =
     (case x of (C_Accept f, Num n) \<Rightarrow> if f = fd \<and> n > 0 then [n] else [] | _ \<Rightarrow> []) @ accepted_in fd xs"

lemma accepted_in_append [simp]: "accepted_in fd (xs @ ys) = accepted_in fd xs @ accepted_in fd ys"
  by (induction xs) simp_all

text \<open>\<open>logs fd e cs e'\<close>: between the two states the connections \<open>cs\<close> have come in, in that order.\<close>

definition logs :: "int \<Rightarrow> io \<Rightarrow> int list \<Rightarrow> io \<Rightarrow> bool" where
  "logs fd e cs e' \<longleftrightarrow> (\<exists>new. io_log e' = io_log e @ new \<and> accepted_in fd new = cs)"

lemma logs_refl [simp]: "logs fd e [] e"
  by (simp add: logs_def)

lemma logs_trans: "logs fd e cs e1 \<Longrightarrow> logs fd e1 ds e2 \<Longrightarrow> logs fd e (cs @ ds) e2"
  unfolding logs_def by (metis accepted_in_append append.assoc)

lemma sys_num_logs:
  "sys_num c e = (r, e') \<Longrightarrow>
   logs fd e (case r of Val n \<Rightarrow> if c = C_Accept fd \<and> n > 0 then [n] else [] | _ \<Rightarrow> []) e'"
  by (cases c) (auto simp: sys_num_def bindS_def ask_def num_answer_def logs_def split: list.splits answer.splits)

lemma wait_logs: "wait_for_read fd' e = (r, e') \<Longrightarrow> logs fd e [] e'"
  by (auto simp: wait_for_read_def sys_wait_def logs_def split: if_splits list.splits)

lemma accept_fd_logs: "accept_fd fd e = (r, e') \<Longrightarrow> logs fd e (case r of Val c \<Rightarrow> [c] | _ \<Rightarrow> []) e'"
proof (induction fd e arbitrary: r e' rule: accept_fd.induct)
  case (1 fd e)
  obtain x e1 where x: "sys_num (C_Accept fd) e = (x, e1)" by (rule prod.exhaust)
  note l = sys_num_logs [OF x, of fd]
  show ?case
  proof (cases x)
    case (Val n)
    show ?thesis
    proof (cases "\<not> n > 0 \<and> io_errno e1 = EWOULDBLOCK")
      case True
      obtain y e2 where wait: "wait_for_read fd e1 = (y, e2)" by (rule prod.exhaust)
      have l2: "logs fd e [] e2" using logs_trans [OF l wait_logs [OF wait, of fd]] Val True by simp
      show ?thesis
      proof (cases y)
        case (Val u)
        then have "accept_fd fd e2 = (r, e')"
          using "1.prems" x \<open>x = Val n\<close> True wait by (simp add: accept_fd.simps [of fd e] bindS_def)
        with "1.IH" [of n e1 "()" e2] x \<open>x = Val n\<close> True wait Val
        have "logs fd e2 (case r of Val c \<Rightarrow> [c] | _ \<Rightarrow> []) e'" by simp
        then show ?thesis using logs_trans [OF l2] by simp
      qed (use "1.prems" x \<open>x = Val n\<close> True wait l2 in \<open>auto simp: accept_fd.simps [of fd e] bindS_def\<close>)
    next
      case False
      then show ?thesis using "1.prems" x Val l
        by (auto simp: accept_fd.simps [of fd e] bindS_def split: if_splits)
    qed
  qed (use "1.prems" x l in \<open>auto simp: accept_fd.simps [of fd e] bindS_def\<close>)
qed

lemma cs_accept_logs:
  assumes "cs_accept fd e = (r, e')"
  shows "logs fd e (case r of Val c \<Rightarrow> [c] | _ \<Rightarrow> []) e'"
proof -
  obtain x e1 where x: "accept_fd fd e = (x, e1)" by (rule prod.exhaust)
  have "r = x \<and> e' = e1"
  proof (cases x)
    case (Val c)
    then have "c > 0" using accept_fd_log x by blast
    then show ?thesis using assms x Val by (simp add: cs_accept_def bindS_def new_socket_def)
  qed (use assms x in \<open>simp_all add: cs_accept_def bindS_def\<close>)
  then show ?thesis using accept_fd_logs [OF x] by simp
qed

lemma accept_loop_logs:
  "accept_loop n (cs_accept fd) (e, started) = (r, (e', started')) \<Longrightarrow>
   \<exists>new. started' = started @ new \<and> logs fd e new e'"
proof (induction n arbitrary: e started)
  case (Suc n)
  obtain x e1 where x: "cs_accept fd e = (x, e1)" by (rule prod.exhaust)
  note a = cs_accept_logs [OF x]
  show ?case
  proof (cases x)
    case (Val c)
    then have "accept_loop n (cs_accept fd) (e1, started @ [c]) = (r, (e', started'))" using Suc.prems x by simp
    from Suc.IH [OF this] obtain new where "started' = (started @ [c]) @ new" "logs fd e1 new e'" by blast
    then show ?thesis using logs_trans a Val by (intro exI [of _ "c # new"]) fastforce
  qed (use Suc.prems x a in auto)
qed simp

lemma sys_num_log: "sys_num c e = (Val n, e') \<Longrightarrow> \<exists>a. io_log e' = io_log e @ [(c, a)]"
  by (auto simp: sys_num_def bindS_iffs ask_def split: list.splits)

lemma new_socket_log:
  assumes "new_socket (- 1) family type protocol e = (Val fd, e')"
  shows "\<exists>pre. io_log e' = io_log e @ pre"
proof -
  obtain n e1 where s: "sys_num (C_Socket family type protocol) e = (Val n, e1)"
    and b: "set_blocking n False e1 = (Val (), e')"
    using assms by (auto simp: new_socket_def bindS_iffs throw_os_def errno_def split: if_splits)
  show ?thesis using sys_num_log [OF s] set_blocking_log [OF b] by auto
qed

lemma set_reuse_addr_log:
  assumes "set_reuse_addr fd e = (Val (), e')"
  shows "\<exists>pre. io_log e' = io_log e @ pre"
proof -
  obtain a e1 where a: "ask (C_Get_Reuse fd) num_answer e = (a, e1)" by (rule prod.exhaust)
  then have "\<exists>pre. io_log e1 = io_log e @ pre" by (auto simp: ask_def split: list.splits)
  then show ?thesis using assms a
    by (auto simp: set_reuse_addr_def bindS_iffs throw_os_def errno_def split: outcome.splits answer.splits if_splits
        dest!: sys_num_log)
qed

lemma start_listening_log:
  assumes "start_listening fd addr e = (Val (), e')"
  shows "\<exists>pre b l. io_log e' = io_log e @ pre @ [(C_Bind fd addr, b), (C_Listen fd 1024, l)]"
proof -
  obtain e1 b e2 l where r: "set_reuse_addr fd e = (Val (), e1)"
    and s: "sys_num (C_Bind fd addr) e1 = (Val b, e2)" "sys_num (C_Listen fd 1024) e2 = (Val l, e')"
    using assms
    by (auto simp: start_listening_def cs_bind_def cs_listen_def bindS_iffs throw_os_def errno_def split: if_splits)
  show ?thesis using set_reuse_addr_log [OF r] sys_num_log [OF s(1)] sys_num_log [OF s(2)] by auto
qed

text \<open>
  C30: a server serves each connection once.  However it ends, the sessions that it has started are, in order,
  exactly the connections that the kernel has handed out for the listening socket; and that happens
  after the socket has been bound to the port and set listening.
\<close>

theorem serve_starts_each_session_once:
  assumes "serve n port sin_zero (e, []) = (r, (e', started))" "started \<noteq> []"
  shows "\<exists>fd pre b l new. io_log e' = io_log e @ pre @ [(C_Bind fd (server_addr port sin_zero), b), (C_Listen fd 1024, l)] @ new
    \<and> accepted_in fd new = started"
proof -
  obtain fd e0 e1 where l: "start_listening fd (server_addr port sin_zero) e0 = (Val (), e1)"
    and new: "new_socket (- 1) PF_INET SOCK_STREAM 0 e = (Val fd, e0)"
    and loop: "accept_loop n (cs_accept fd) (e1, []) = (r, (e', started))"
    using assms by (auto simp: serve_def serve_on_def on_io_def bindS_def split: prod.splits outcome.splits)
  obtain pre0 where pre0: "io_log e0 = io_log e @ pre0" using new_socket_log [OF new] by blast
  obtain pre b lst where "io_log e1 = io_log e0 @ pre @ [(C_Bind fd (server_addr port sin_zero), b), (C_Listen fd 1024, lst)]"
    using start_listening_log [OF l] by blast
  then have "io_log e1 = io_log e @ (pre0 @ pre) @ [(C_Bind fd (server_addr port sin_zero), b), (C_Listen fd 1024, lst)]"
    using pre0 by simp
  moreover obtain new where "io_log e' = io_log e1 @ new" "accepted_in fd new = started"
    using accept_loop_logs [OF loop] by (auto simp: logs_def)
  ultimately show ?thesis by (metis append.assoc)
qed

theorem serve_starts_each_session_once_witness:
  "let r = serve 5 9001 [] (ex_io [Num 3, Num 2, Num 0, Num 0, Num 0, Num 0, Num 0, Num 7, Fail 11, Num 8, Fail 24], [])
   in snd (snd r) = [7, 8] \<and> (\<exists>fd pre b l new.
     io_log (fst (snd r)) = pre @ [(C_Bind fd (server_addr 9001 []), b), (C_Listen fd 1024, l)] @ new
     \<and> accepted_in fd new = [7, 8])"
proof -
  let ?e = "ex_io [Num 3, Num 2, Num 0, Num 0, Num 0, Num 0, Num 0, Num 7, Fail 11, Num 8, Fail 24]"
  let ?r = "serve 5 9001 [] (?e, [])"
  have s: "snd (snd ?r) = [7, 8]" by code_simp
  have r: "?r = (fst ?r, (fst (snd ?r), snd (snd ?r)))" by simp
  have "snd (snd ?r) \<noteq> []" "io_log ?e = []" using s by (simp_all add: ex_io_def)
  then show ?thesis using serve_starts_each_session_once [OF r] s by (simp add: Let_def)
qed

end
