(* ===== verification/Replay.thy ===== *)
theory Replay
  imports Echo_Server "HOL-Library.Sublist"
begin

section \<open>Replaying a thread\<close>

text \<open>
  The theories on \<open>Sys_Calls\<close> run the code of a thread as one operation, on a list that says in advance how
  its waits end.  The scheduler runs a thread from one wait to the next.  An operation is causal if both views agree: with a
  list that has run out it stops at a wait, and with a longer list it makes the same calls up to that wait, then the
  wait, and goes on.  Then the run up to any wait can be computed from the wake-ups so far, by replaying it.
\<close>

definition more_wakes :: "exn option list \<Rightarrow> io \<Rightarrow> io" where
  "more_wakes ws e = e\<lparr>io_wakes := io_wakes e @ ws\<rparr>"

definition is_wait :: "call \<Rightarrow> bool" where
  "is_wait c \<longleftrightarrow> (case c of C_Wait_Read fd \<Rightarrow> True | C_Wait_Write fd \<Rightarrow> True | _ \<Rightarrow> False)"

lemma more_wakes_sel [simp]:
  "io_main (more_wakes ws e) = io_main e" "io_answers (more_wakes ws e) = io_answers e"
  "io_wakes (more_wakes ws e) = io_wakes e @ ws" "io_errno (more_wakes ws e) = io_errno e"
  "io_log (more_wakes ws e) = io_log e" "more_wakes vs (more_wakes ws e) = more_wakes (ws @ vs) e"
  by (simp_all add: more_wakes_def)

text \<open>The wait at which a run has stopped: the first call that a run with one wake-up more makes after it.\<close>

definition next_call :: "(call \<times> answer) list \<Rightarrow> (call \<times> answer) list \<Rightarrow> call option" where
  "next_call l l' = (case drop (length l) l' of [] \<Rightarrow> None | x # _ \<Rightarrow> Some (fst x))"

lemma next_call_prefix: "prefix (l @ [(c, a)]) l' \<Longrightarrow> next_call l l' = Some c"
  by (auto simp: next_call_def prefix_def)

lemma next_call_same: "l' = l \<Longrightarrow> next_call l l' = None"
  by (simp add: next_call_def)

text \<open>
  What the result and the calls of a run must be for each list of wake-ups, if a thread is to be run by replaying it: a run that has ended
  is not changed by a wake-up; one that has stopped waits, then \<open>next_call\<close> finds its wait, and with any further wake-up
  it makes the same calls, then this wait, before any other; or the kernel does not answer, and no wake-up helps.
\<close>

definition replays :: "(exn option list \<Rightarrow> 'a outcome \<times> (call \<times> answer) list) \<Rightarrow> bool" where
  "replays run \<longleftrightarrow>
     (\<forall>ws r l. run ws = (r, l) \<longrightarrow>
       (if r \<noteq> Stuck then \<forall>x. run (ws @ [x]) = (r, l)
        else (\<exists>c. is_wait c \<and> next_call l (snd (run (ws @ [None]))) = Some c
               \<and> (\<forall>x. prefix (l @ [(c, Num 0)]) (snd (run (ws @ [x])))))
          \<or> (\<forall>x. run (ws @ [x]) = (Stuck, l))))"

lemma replaysI:
  assumes "\<And>ws r l x. run ws = (r, l) \<Longrightarrow> r \<noteq> Stuck \<Longrightarrow> run (ws @ [x]) = (r, l)"
    and "\<And>ws l. run ws = (Stuck, l) \<Longrightarrow>
      (\<exists>c. is_wait c \<and> (\<forall>x. prefix (l @ [(c, Num 0)]) (snd (run (ws @ [x]))))) \<or> (\<forall>x. run (ws @ [x]) = (Stuck, l))"
  shows "replays run"
  unfolding replays_def
proof (intro allI impI)
  fix ws r l assume r: "run ws = (r, l)"
  show "if r \<noteq> Stuck then \<forall>x. run (ws @ [x]) = (r, l)
      else (\<exists>c. is_wait c \<and> next_call l (snd (run (ws @ [None]))) = Some c
             \<and> (\<forall>x. prefix (l @ [(c, Num 0)]) (snd (run (ws @ [x])))))
        \<or> (\<forall>x. run (ws @ [x]) = (Stuck, l))"
  proof (cases "r = Stuck")
    case True
    from assms(2) [OF r [unfolded this]] show ?thesis using True next_call_prefix by metis
  qed (use assms(1) [OF r] in simp)
qed

lemma replaysD:
  assumes "replays run" "fst (run ws) = Stuck"
  shows "(\<exists>c. is_wait c \<and> next_call (snd (run ws)) (snd (run (ws @ [None]))) = Some c
      \<and> (\<forall>x. prefix (snd (run ws) @ [(c, Num 0)]) (snd (run (ws @ [x])))))
    \<or> (\<forall>x. run (ws @ [x]) = run ws)"
proof -
  have "run ws = (Stuck, snd (run ws))" using assms(2) by (metis prod.collapse)
  then show ?thesis using assms(1) unfolding replays_def by fastforce
qed

locale waking_state =
  fixes more :: "exn option list \<Rightarrow> 's \<Rightarrow> 's"
    and io_of :: "'s \<Rightarrow> io"
  assumes io_of_more: "io_of (more ws s) = more_wakes ws (io_of s)"
    and more_more: "more vs (more ws s) = more (ws @ vs) s"
begin

abbreviation log_of :: "'s \<Rightarrow> (call \<times> answer) list" where
  "log_of s \<equiv> io_log (io_of s)"

definition grows :: "('s, 'a) op \<Rightarrow> bool" where
  "grows m \<longleftrightarrow> (\<forall>s. prefix (log_of s) (log_of (snd (m s))))"

text \<open>The operation makes no further call, however many wake-ups there are; or it waits.\<close>

definition halted :: "('s, 'a) op \<Rightarrow> 's \<Rightarrow> 's \<Rightarrow> bool" where
  "halted m s s1 \<longleftrightarrow> (\<forall>ws. fst (m (more ws s)) = Stuck \<and> log_of (snd (m (more ws s))) = log_of s1)"

definition waits :: "('s, 'a) op \<Rightarrow> 's \<Rightarrow> 's \<Rightarrow> bool" where
  "waits m s s1 \<longleftrightarrow>
     (\<exists>c. is_wait c \<and> (\<forall>x ws. prefix (log_of s1 @ [(c, Num 0)]) (log_of (snd (m (more (x # ws) s))))))"

definition causal_at :: "('s, 'a) op \<Rightarrow> 's \<Rightarrow> bool" where
  "causal_at m s \<longleftrightarrow>
     (case m s of
        (Stuck, s1) \<Rightarrow> halted m s s1 \<or> waits m s s1
      | (r, s1) \<Rightarrow> \<forall>ws. m (more ws s) = (r, more ws s1))"

definition causal :: "('s, 'a) op \<Rightarrow> bool" where
  "causal m \<longleftrightarrow> grows m \<and> (\<forall>s. causal_at m s)"

lemma causalI: "grows m \<Longrightarrow> (\<And>s. causal_at m s) \<Longrightarrow> causal m"
  by (simp add: causal_def)

lemma causalD: "causal m \<Longrightarrow> grows m" "causal m \<Longrightarrow> causal_at m s"
  by (simp_all add: causal_def)

lemma growsD: "grows m \<Longrightarrow> m s = (r, s1) \<Longrightarrow> prefix (log_of s) (log_of s1)"
  unfolding grows_def by (metis snd_conv)

lemma log_more [simp]: "log_of (more ws s) = log_of s"
  by (simp add: io_of_more)

lemma causal_atD:
  assumes "causal_at m s"
  shows "m s = (Val a, s1) \<Longrightarrow> m (more ws s) = (Val a, more ws s1)"
    "m s = (Raise ex, s1) \<Longrightarrow> m (more ws s) = (Raise ex, more ws s1)"
    "m s = (Stuck, s1) \<Longrightarrow> halted m s s1 \<or> waits m s s1"
  using assms by (auto simp: causal_at_def)

lemma causal_atI:
  assumes "\<And>a s1 ws. m s = (Val a, s1) \<Longrightarrow> m (more ws s) = (Val a, more ws s1)"
    and "\<And>ex s1 ws. m s = (Raise ex, s1) \<Longrightarrow> m (more ws s) = (Raise ex, more ws s1)"
    and "\<And>s1. m s = (Stuck, s1) \<Longrightarrow> halted m s s1 \<or> waits m s s1"
  shows "causal_at m s"
  using assms unfolding causal_at_def by (cases "m s"; cases "fst (m s)") auto

text \<open>The sequence of two operations, a handler and a destructor are forms of one construct.\<close>

definition handle :: "('s, 'a) op \<Rightarrow> ('a \<Rightarrow> ('s, 'b) op) \<Rightarrow> (exn \<Rightarrow> ('s, 'b) op) \<Rightarrow> ('s, 'b) op" where
  "handle m f h s =
     (case m s of (Val a, s1) \<Rightarrow> f a s1 | (Raise ex, s1) \<Rightarrow> h ex s1 | (Stuck, s1) \<Rightarrow> (Stuck, s1))"

lemma bindS_handle: "bindS m g = handle m g raise"
  by (rule ext) (simp add: bindS_def handle_def split: prod.split outcome.split)

lemma on_throw_handle: "on_throw m d = handle m ret (\<lambda>ex. bindS d (\<lambda>_. raise ex))"
  by (rule ext) (simp add: on_throw_def handle_def ret_def split: prod.split outcome.split)

lemma causal_at_handle:
  assumes m: "causal_at m s" and f: "\<And>a s1. m s = (Val a, s1) \<Longrightarrow> causal_at (f a) s1"
    and h: "\<And>ex s1. m s = (Raise ex, s1) \<Longrightarrow> causal_at (h ex) s1"
    and gf: "\<And>a ws s1. m (more ws s) = (Val a, s1) \<Longrightarrow> prefix (log_of s1) (log_of (snd (f a s1)))"
    and gh: "\<And>ex ws s1. m (more ws s) = (Raise ex, s1) \<Longrightarrow> prefix (log_of s1) (log_of (snd (h ex s1)))"
  shows "causal_at (handle m f h) s"
proof -
  obtain r s1 where ms: "m s = (r, s1)" by (rule prod.exhaust)
  show ?thesis
  proof (cases r)
    case (Val a)
    have eq: "handle m f h (more ws s) = f a (more ws s1)" "handle m f h s = f a s1" for ws
      using causal_atD(1) [OF m] ms Val by (simp_all add: handle_def)
    from f [OF ms [unfolded Val]] show ?thesis unfolding causal_at_def halted_def waits_def eq .
  next
    case (Raise ex)
    have eq: "handle m f h (more ws s) = h ex (more ws s1)" "handle m f h s = h ex s1" for ws
      using causal_atD(2) [OF m] ms Raise by (simp_all add: handle_def)
    from h [OF ms [unfolded Raise]] show ?thesis unfolding causal_at_def halted_def waits_def eq .
  next
    case Stuck
    from causal_atD(3) [OF m ms [unfolded Stuck]] show ?thesis
    proof
      assume "halted m s s1"
      then have "halted (handle m f h) s s1" by (simp add: halted_def handle_def case_prod_beta)
      then show ?thesis using ms Stuck by (simp add: causal_at_def handle_def)
    next
      assume w: "waits m s s1"
      have "prefix (log_of (snd (m (more ws s)))) (log_of (snd (handle m f h (more ws s))))" for ws
        using gf [of ws] gh [of ws] by (auto simp: handle_def split: prod.split outcome.split)
      then have "waits (handle m f h) s s1" using w unfolding waits_def by (meson prefix_order.trans)
      then show ?thesis using ms Stuck by (simp add: causal_at_def handle_def)
    qed
  qed
qed

lemma raise_basic: "causal_at (raise ex) s" "prefix (log_of s) (log_of (snd (raise ex s)))"
  by (simp_all add: causal_at_def)

lemma causal_at_bindS:
  assumes "causal_at m s" "\<And>a s1. m s = (Val a, s1) \<Longrightarrow> causal_at (g a) s1"
    and "\<And>a ws s1. m (more ws s) = (Val a, s1) \<Longrightarrow> prefix (log_of s1) (log_of (snd (g a s1)))"
  shows "causal_at (bindS m g) s"
  unfolding bindS_handle by (rule causal_at_handle) (use assms in \<open>simp_all add: raise_basic\<close>)

lemma causal_handle:
  assumes m: "causal m" and f: "\<And>a. causal (f a)" and h: "\<And>ex. causal (h ex)"
  shows "causal (handle m f h)"
proof (rule causalI)
  have "prefix (log_of s) (log_of (snd (handle m f h s)))" for s
  proof -
    obtain r s1 where ms: "m s = (r, s1)" by (rule prod.exhaust)
    have "prefix (log_of s1) (log_of (snd (handle m f h s)))"
      using ms causalD(1) [OF f] causalD(1) [OF h] by (cases r) (simp_all add: handle_def grows_def)
    then show ?thesis using growsD [OF causalD(1) [OF m] ms] by (rule prefix_order.trans [rotated])
  qed
  then show "grows (handle m f h)" by (simp add: grows_def)
  show "causal_at (handle m f h) s" for s
    by (rule causal_at_handle [OF causalD(2) [OF m] causalD(2) [OF f] causalD(2) [OF h]])
      (use causalD(1) [OF f] causalD(1) [OF h] in \<open>simp_all add: grows_def\<close>)
qed

lemma causal_basic [simp]: "causal (ret a)" "causal (raise ex)"
  by (rule causalI; simp add: grows_def causal_at_def ret_def)+

lemma causal_bindS: "causal m \<Longrightarrow> (\<And>a. causal (g a)) \<Longrightarrow> causal (bindS m g)"
  unfolding bindS_handle by (rule causal_handle) simp_all

lemma causal_on_throw: "causal m \<Longrightarrow> causal d \<Longrightarrow> causal (on_throw m d)"
  unfolding on_throw_handle by (rule causal_handle) (simp_all add: causal_bindS)

text \<open>A branch on something that the wake-ups have no influence on.\<close>

lemma causal_at_cong: "(\<And>ws. m (more ws s) = m' (more ws s)) \<Longrightarrow> m s = m' s \<Longrightarrow> causal_at m' s \<Longrightarrow> causal_at m s"
  by (cases "m' s"; cases "fst (m' s)") (simp_all add: causal_at_def halted_def waits_def)

lemma causal_at_choose:
  assumes "\<And>ws. b (more ws s) = b s" "b s \<Longrightarrow> causal_at m s" "\<not> b s \<Longrightarrow> causal_at n s"
  shows "causal_at (\<lambda>s. if b s then m s else n s) s"
proof (cases "b s")
  case True
  show ?thesis by (rule causal_at_cong [where m' = m]) (use True assms in simp_all)
next
  case False
  show ?thesis by (rule causal_at_cong [where m' = n]) (use False assms in simp_all)
qed

lemma grows_choose: "grows m \<Longrightarrow> grows n \<Longrightarrow> grows (\<lambda>s. if b s then m s else n s)"
  by (simp add: grows_def)

lemma causal_choose:
  "(\<And>ws s. b (more ws s) = b s) \<Longrightarrow> causal m \<Longrightarrow> causal n \<Longrightarrow> causal (\<lambda>s. if b s then m s else n s)"
  by (rule causalI) (simp_all add: causal_def grows_choose causal_at_choose)

lemma causal_state_arg:
  assumes "\<And>ws s. f (more ws s) = f s" "\<And>a. causal (m a)"
  shows "causal (\<lambda>s. m (f s) s)"
proof (rule causalI)
  show "grows (\<lambda>s. m (f s) s)" using assms(2) by (simp add: causal_def grows_def)
  show "causal_at (\<lambda>s. m (f s) s) s" for s
    by (rule causal_at_cong [where m' = "m (f s)"]) (use assms in \<open>simp_all add: causalD(2)\<close>)
qed

lemma causal_value: "(\<And>ws s. f (more ws s) = f s) \<Longrightarrow> causal (\<lambda>s. (Val (f s), s))"
  by (rule causalI) (simp_all add: grows_def causal_at_def)

lemma causal_raise: "(\<And>ws s. f (more ws s) = f s) \<Longrightarrow> causal (\<lambda>s. (Raise (f s), s))"
  by (rule causalI) (simp_all add: grows_def causal_at_def)

lemma causal_stuck: "causal (\<lambda>s. (Stuck, s))"
  by (rule causalI) (simp_all add: grows_def causal_at_def halted_def)

text \<open>For an operation that calls itself again once it has used up an answer: it is causal where fewer than \<open>k\<close> are left.\<close>

definition causal_below :: "nat \<Rightarrow> ('s, 'a) op \<Rightarrow> bool" where
  "causal_below k m \<longleftrightarrow>
     (\<forall>s. length (io_answers (io_of s)) < k \<longrightarrow> causal_at m s \<and> prefix (log_of s) (log_of (snd (m s))))"

lemma causal_belowI: "causal m \<Longrightarrow> causal_below k m"
  by (simp add: causal_below_def causal_def grows_def)

lemma causal_below_all: "(\<And>k. causal_below k m) \<Longrightarrow> causal m"
  unfolding causal_below_def causal_def grows_def by blast

lemma causal_below_bindS:
  assumes "causal m" "\<And>s a s1. m s = (Val a, s1) \<Longrightarrow> length (io_answers (io_of s)) < j \<Longrightarrow> length (io_answers (io_of s1)) < k"
    and "\<And>a. causal_below k (g a)"
  shows "causal_below j (bindS m g)"
  unfolding causal_below_def
proof (intro allI impI conjI)
  fix s assume s: "length (io_answers (io_of s)) < j"
  have gr: "prefix (log_of s1) (log_of (snd (g a s1)))" if "m (more ws s) = (Val a, s1)" for ws a s1
    using assms(2) [OF that] assms(3) s unfolding causal_below_def io_of_more by simp
  show "causal_at (bindS m g) s"
    by (rule causal_at_bindS [OF causalD(2) [OF assms(1)] _ gr])
      (use assms(2,3) s in \<open>auto simp: causal_below_def\<close>)
  obtain r s1 where ms: "m s = (r, s1)" by (rule prod.exhaust)
  have "prefix (log_of s1) (log_of (snd (bindS m g s)))"
    using ms assms(2) [of s _ s1] assms(3) s by (cases r) (auto simp: bindS_def causal_below_def)
  then show "prefix (log_of s) (log_of (snd (bindS m g s)))"
    using growsD [OF causalD(1) [OF assms(1)] ms] by (rule prefix_order.trans [rotated])
qed

lemma causal_below_choose:
  "(\<And>ws s. b (more ws s) = b s) \<Longrightarrow> causal_below k m \<Longrightarrow> causal_below k n \<Longrightarrow>
   causal_below k (\<lambda>s. if b s then m s else n s)"
  by (auto simp: causal_below_def intro!: causal_at_choose)

subsection \<open>The run up to a wait\<close>

text \<open>
  Replaying a run with one wake-up more.  If the run had ended, nothing changes.  If it had stopped, it either makes no call
  more, or it waited: then the calls so far are made again in the same order, and the next one is that wait.
\<close>

lemma causal_replays:
  assumes "causal m"
  shows "replays (\<lambda>ws. (fst (m (more ws s)), log_of (snd (m (more ws s)))))"
proof (rule replaysI)
  fix ws r l x assume "(fst (m (more ws s)), log_of (snd (m (more ws s)))) = (r, l)"
  then obtain s1 where s1: "m (more ws s) = (r, s1)" "log_of s1 = l" by (metis fst_conv snd_conv prod.collapse)
  note c = causal_atD [OF causalD(2) [OF assms], of "more ws s", unfolded more_more]
  show "(fst (m (more (ws @ [x]) s)), log_of (snd (m (more (ws @ [x]) s)))) = (r, l)" if "r \<noteq> Stuck"
    using c(1,2) [of _ s1 "[x]"] s1 that by (cases r) simp_all
next
  fix ws l assume "(fst (m (more ws s)), log_of (snd (m (more ws s)))) = (Stuck, l)"
  then obtain s1 where s1: "m (more ws s) = (Stuck, s1)" "log_of s1 = l" by (metis fst_conv snd_conv prod.collapse)
  show "(\<exists>c. is_wait c \<and> (\<forall>x. prefix (l @ [(c, Num 0)]) (snd (fst (m (more (ws @ [x]) s)), log_of (snd (m (more (ws @ [x]) s)))))))
      \<or> (\<forall>x. (fst (m (more (ws @ [x]) s)), log_of (snd (m (more (ws @ [x]) s)))) = (Stuck, l))"
    using causal_atD(3) [OF causalD(2) [OF assms] s1(1)] s1(2) unfolding halted_def waits_def more_more by auto
qed

end

subsection \<open>Through a buffer\<close>

text \<open>A buffer over a file, as in \<open>coro_buffer\<close>: the operations on it are causal if those of the file are.\<close>

locale waking_buffer = waking_state more io_of +
  buf: waking_state "\<lambda>ws (s :: 'e buf). (fst s, more ws (snd s))" "\<lambda>s. io_of (snd s)"
  for more :: "exn option list \<Rightarrow> 'e \<Rightarrow> 'e" and io_of :: "'e \<Rightarrow> io"
begin

lemma buf_on_file: "causal m \<Longrightarrow> buf.causal (on_file m)"
  unfolding causal_def buf.causal_def grows_def buf.grows_def
proof (elim conjE, intro conjI allI)
  fix s :: "'e buf" assume g: "\<forall>e. prefix (log_of e) (log_of (snd (m e)))" and c: "\<forall>e. causal_at m e"
  show "prefix (log_of (snd s)) (log_of (snd (snd (on_file m s))))"
    using spec [OF g, of "snd s"] by (cases "m (snd s)") (simp add: on_file_def)
  have eq: "on_file m (b, e) = (fst (m e), (b, snd (m e)))" for b e by (simp add: on_file_def split: prod.split)
  obtain b e where s: "s = (b, e)" by (rule prod.exhaust)
  obtain r e1 where me: "m e = (r, e1)" by (rule prod.exhaust)
  show "buf.causal_at (on_file m) s"
    using spec [OF c, of e] me unfolding s causal_at_def buf.causal_at_def halted_def buf.halted_def waits_def buf.waits_def
    by (cases r) (auto simp: eq)
qed

lemma buf_set: "buf.causal (\<lambda>s. (Val x, (b, snd s)))"
  by (rule buf.causalI) (simp_all add: buf.grows_def buf.causal_at_def)

lemma get_loop_bind:
  "get_loop (Suc n) rd d m sl =
     bindS (\<lambda>s. if length (fst s) = 0 then on_file (read_string rd 8192) s else (Val (fst s), s)) (\<lambda>b.
       if length b = 0 then (\<lambda>s. (Val (True, sl), (b, snd s)))
       else case scan d m 0 b of
         Inl i \<Rightarrow> (\<lambda>s. (Val (False, sl @ [take (i + 1) b]), (drop (i + 1) b, snd s)))
       | Inr m' \<Rightarrow> bindS (\<lambda>s. (Val (), ([], snd s))) (\<lambda>_. get_loop n rd d m' (sl @ [b])))"
  by (rule ext) (auto simp: bindS_def on_file_def split: prod.split outcome.split sum.split)

lemma buf_get_loop: "(\<And>n. causal (rd n)) \<Longrightarrow> buf.causal (get_loop k rd d m sl)"
proof (induction k arbitrary: m sl)
  case 0
  have "get_loop 0 rd d m sl = (\<lambda>s. (Stuck, s))" by (rule ext) simp
  then show ?case by (simp add: buf.causal_stuck)
next
  case (Suc k)
  have "buf.causal (\<lambda>s. if length (fst s) = 0 then on_file (read_string rd 8192) s else (Val (fst s), s))"
    by (rule buf.causal_choose)
      (auto intro!: buf_on_file buf.causal_value causal_bindS simp: read_string_def Suc.prems)
  then show ?case
    unfolding get_loop_bind by (rule buf.causal_bindS) (auto intro!: buf.causal_bindS buf_set Suc split: sum.split)
qed

lemma buf_get_line: "(\<And>n. causal (rd n)) \<Longrightarrow> buf.causal (get_line k rd)"
  unfolding get_line_def get_string_def get_list_def by (auto intro!: buf.causal_bindS buf_get_loop)

lemma buf_echo_loop_over:
  assumes "\<And>n. causal (rd n)" "\<And>p. causal (wr p)" "causal sh" "causal cl" "\<And>ws s. bench (more ws s) = bench s"
  shows "buf.causal (echo_loop_over n g rd wr sh cl bench)"
proof (induction n)
  case 0
  have "echo_loop_over 0 g rd wr sh cl bench = (\<lambda>s. (Stuck, s))" by (rule ext) simp
  then show ?case by (simp add: buf.causal_stuck)
next
  case (Suc n)
  have b: "buf.causal (\<lambda>s. on_file (wr (bench (snd s))) s)"
    by (rule buf.causal_state_arg) (simp_all add: assms buf_on_file)
  have "echo_loop_over (Suc n) g rd wr sh cl bench = bindS (get_line g rd) (\<lambda>r.
       let closed = fst r; line = snd r in
       if closed then bindS (on_file cl) (\<lambda>_. ret At_Eof)
       else if char_at line 0 = 33 then
         if char_at line 1 = 113 then bindS (on_file sh) (\<lambda>_. bindS (on_file cl) (\<lambda>_. ret At_Quit))
         else if char_at line 1 = 115 then bindS (on_file sh) (\<lambda>_. bindS (on_file cl) (\<lambda>_. ret At_Shutdown))
         else if char_at line 1 = 98 then
           bindS (\<lambda>s. on_file (wr (bench (snd s))) s) (\<lambda>_. echo_loop_over n g rd wr sh cl bench)
         else echo_loop_over n g rd wr sh cl bench
       else bindS (on_file (wr line)) (\<lambda>_. echo_loop_over n g rd wr sh cl bench))"
    by (rule ext) simp
  then show ?case unfolding Let_def
    by (simp only:) (intro buf.causal_bindS [OF buf_get_line]; auto intro!: buf.causal_bindS buf_on_file b Suc.IH simp: assms)
qed

lemma from_buf: "buf.causal m \<Longrightarrow> causal (\<lambda>e. (fst (m (b, e)), snd (snd (m (b, e)))))"
  unfolding causal_def buf.causal_def grows_def buf.grows_def
proof (elim conjE, intro conjI allI)
  fix e assume g: "\<forall>s. prefix (log_of (snd s)) (log_of (snd (snd (m s))))" and c: "\<forall>s. buf.causal_at m s"
  show "prefix (log_of e) (log_of (snd (fst (m (b, e)), snd (snd (m (b, e))))))"
    using spec [OF g, of "(b, e)"] by simp
  obtain r b1 e1 where me: "m (b, e) = (r, (b1, e1))" by (metis prod.collapse)
  show "causal_at (\<lambda>e. (fst (m (b, e)), snd (snd (m (b, e))))) e"
    using spec [OF c, of "(b, e)"] me
    unfolding causal_at_def buf.causal_at_def halted_def buf.halted_def waits_def buf.waits_def
    by (cases r) simp_all
qed

end

subsection \<open>The operations of a thread are causal\<close>

interpretation wio: waking_state more_wakes "\<lambda>e. e"
  by unfold_locales simp_all

interpretation wbuf: waking_state "\<lambda>ws s. (fst s, more_wakes ws (snd s))" snd
  by unfold_locales simp_all

interpretation wfile: waking_buffer more_wakes "\<lambda>e. e"
  by unfold_locales simp_all

interpretation wsrv: waking_state "\<lambda>ws s. (more_wakes ws (fst s), snd s)" fst
  by unfold_locales simp_all

lemmas causal_intros = wio.causal_bindS wio.causal_choose

lemma causal_ask [simp]: "wio.causal (ask c norm)"
  by (rule wio.causalI)
    (auto simp: wio.grows_def wio.causal_at_def wio.halted_def ask_def more_wakes_def split: list.split answer.split)

lemma causal_wait [simp]:
  "wio.causal (wait_for_read fd)" "wio.causal (wait_for_write fd)"
proof -
  have "wio.causal (\<lambda>e. if io_main e then (Raise Yield_From_Main, e) else sys_wait c e)" if "is_wait c" for c
  proof (rule wio.causal_choose)
    have "wio.waits (sys_wait c) e e" if "io_wakes e = []" for e
      using \<open>is_wait c\<close> that unfolding wio.waits_def by (intro exI [of _ c]) (simp add: sys_wait_def more_wakes_def)
    then show "wio.causal (sys_wait c)"
      by (intro wio.causalI)
        (auto simp: wio.grows_def wio.causal_at_def sys_wait_def more_wakes_def split: list.split option.split)
  qed (simp_all add: wio.causal_raise)
  then show "wio.causal (wait_for_read fd)" "wio.causal (wait_for_write fd)"
    unfolding wait_for_read_def [abs_def] wait_for_write_def [abs_def] by (simp_all add: is_wait_def)
qed

lemma causal_errno [simp]: "wio.causal errno" "wio.causal (throw_os fun)"
proof -
  show "wio.causal errno" unfolding errno_def [abs_def] by (rule wio.causal_value) simp
  then show "wio.causal (throw_os fun)" unfolding throw_os_def by (rule wio.causal_bindS) simp
qed

lemma causal_calls [simp]: "wio.causal (sys_num c)" "wio.causal (sys_read fd n)" "wio.causal (sys_write fd p)"
  unfolding sys_num_def sys_read_def sys_write_def by (rule wio.causal_bindS; simp)+

lemma causal_close [simp]: "wio.causal (cf_close fd)" "wio.causal (cf_destroy fd)" "wio.causal (cs_shutdown fd how)"
  unfolding cf_destroy_def cf_close_def cs_shutdown_def by (auto intro!: wio.causal_bindS)

text \<open>An operation that calls itself again, on the states that its recursion reaches.\<close>

lemma cf_read_unfold:
  "cf_read fd len = bindS (sys_read fd len) (\<lambda>n e1.
     if fst n \<ge> 0 then (Val (snd n), e1)
     else if io_errno e1 = EWOULDBLOCK then bindS (wait_for_read fd) (\<lambda>_. cf_read fd len) e1
     else (Raise (OS_Error ''read'' (io_errno e1)), e1))"
  by (rule ext) (rule cf_read.simps)

lemma cf_write_unfold:
  "cf_write fd p =
     (if length p = 0 then ret ()
      else bindS (sys_write fd p) (\<lambda>r e1.
        if r > 0 then cf_write fd (drop (nat r) p) e1
        else if io_errno e1 = EWOULDBLOCK then bindS (wait_for_write fd) (\<lambda>_. cf_write fd p) e1
        else (Raise (OS_Error ''write'' (io_errno e1)), e1)))"
  by (rule ext) (simp add: cf_write.simps [of fd p] ret_def)

lemma accept_fd_unfold:
  "accept_fd fd = bindS (sys_num (C_Accept fd)) (\<lambda>r e1.
     if r > 0 then (Val r, e1)
     else if io_errno e1 = EWOULDBLOCK then bindS (wait_for_read fd) (\<lambda>_. accept_fd fd) e1
     else (Raise (OS_Error ''accept'' (io_errno e1)), e1))"
  by (rule ext) (rule accept_fd.simps)

lemmas causal_below_intros =
  wio.causal_below_choose wio.causal_value [THEN wio.causal_belowI] wio.causal_raise [THEN wio.causal_belowI]

lemma causal_below_retry:
  assumes "wio.causal wait" "\<And>e a e1. wait e = (Val a, e1) \<Longrightarrow> io_answers e1 = io_answers e" "wio.causal_below k m"
  shows "wio.causal_below k (\<lambda>e. if io_errno e = EWOULDBLOCK then bindS wait (\<lambda>_. m) e else (Raise (OS_Error fn (io_errno e)), e))"
proof (rule wio.causal_below_choose)
  show "wio.causal_below k (bindS wait (\<lambda>_. m))"
    by (rule wio.causal_below_bindS [where k = k, OF assms(1) _ assms(3)]) (simp add: assms(2))
qed (auto intro!: causal_below_intros)

lemma causal_cf_read [simp]: "wio.causal (cf_read fd len)"
proof (rule wio.causal_below_all)
  show "wio.causal_below k (cf_read fd len)" for k
  proof (induction k)
    case (Suc k)
    show ?case
      by (subst cf_read_unfold, rule wio.causal_below_bindS [where k = k])
        (auto intro!: causal_below_intros causal_below_retry Suc.IH dest: sys_read_less wait_answers(1))
  qed (simp add: wio.causal_below_def)
qed

lemma causal_cf_write [simp]: "wio.causal (cf_write fd p)"
proof (rule wio.causal_below_all)
  show "wio.causal_below k (cf_write fd p)" for k
  proof (induction k arbitrary: p)
    case (Suc k)
    have "wio.causal_below (Suc k) (bindS (sys_write fd p) (\<lambda>r e1.
        if r > 0 then cf_write fd (drop (nat r) p) e1
        else if io_errno e1 = EWOULDBLOCK then bindS (wait_for_write fd) (\<lambda>_. cf_write fd p) e1
        else (Raise (OS_Error ''write'' (io_errno e1)), e1)))"
      by (rule wio.causal_below_bindS [where k = k])
        (auto intro!: causal_below_intros causal_below_retry Suc.IH dest: sys_write_less wait_answers(2))
    then show ?case by (subst cf_write_unfold) (simp add: wio.causal_belowI)
  qed (simp add: wio.causal_below_def)
qed

lemma causal_accept_fd [simp]: "wio.causal (accept_fd fd)"
proof (rule wio.causal_below_all)
  show "wio.causal_below k (accept_fd fd)" for k
  proof (induction k)
    case (Suc k)
    show ?case
      by (subst accept_fd_unfold, rule wio.causal_below_bindS [where k = k])
        (auto intro!: causal_below_intros causal_below_retry Suc.IH dest: sys_num_less wait_answers(1))
  qed (simp add: wio.causal_below_def)
qed

subsection \<open>Sockets and servers\<close>

lemma causal_set_blocking [simp]: "wio.causal (set_blocking fd b)"
  unfolding set_blocking_def Let_def by (auto intro!: wio.causal_bindS)

lemma causal_new_socket [simp]: "wio.causal (new_socket fd family type protocol)"
  unfolding new_socket_def by (auto intro!: wio.causal_bindS wio.causal_on_throw)

lemma causal_accept [simp]: "wio.causal (cs_accept fd)"
  unfolding cs_accept_def by (auto intro!: wio.causal_bindS)

lemma set_reuse_addr_bind:
  "set_reuse_addr fd = bindS (ask (C_Get_Reuse fd) num_answer) (\<lambda>a. case a of
     Num old \<Rightarrow> bindS (sys_num (C_Set_Reuse fd ((word_of_int old :: 32 word) OR 1)))
       (\<lambda>r. if r < 0 then throw_os ''setsockopt'' else ret ())
   | _ \<Rightarrow> throw_os ''getsockopt'')"
  by (rule ext) (auto simp: set_reuse_addr_def bindS_def [of "ask _ _"] split: prod.split outcome.split answer.split)

lemma causal_start_listening [simp]: "wio.causal (start_listening fd addr)"
  unfolding start_listening_def set_reuse_addr_bind cs_bind_def cs_listen_def
  by (auto intro!: wio.causal_bindS split: answer.split)

text \<open>An operation on the system is causal as one on a buffer over it, or on a system with other state beside it.\<close>

lemmas causal_on_file = wfile.buf_on_file and causal_get_loop = wfile.buf_get_loop and causal_from_buffer = wfile.from_buf

lemma causal_beside: "wio.causal m \<Longrightarrow> wsrv.causal (\<lambda>s. (fst (m (fst s)), (snd (m (fst s)), snd s)))"
  unfolding wio.causal_def wsrv.causal_def wio.grows_def wsrv.grows_def
proof (elim conjE, intro conjI allI)
  let ?on = "\<lambda>s. (fst (m (fst s)), (snd (m (fst s)), snd s))"
  fix s :: "io \<times> 'b" assume g: "\<forall>e. prefix (io_log e) (io_log (snd (m e)))" and c: "\<forall>e. wio.causal_at m e"
  show "prefix (io_log (fst s)) (io_log (fst (snd (?on s))))" using spec [OF g, of "fst s"] by simp
  obtain e l where s: "s = (e, l)" by (rule prod.exhaust)
  obtain r e1 where me: "m e = (r, e1)" by (rule prod.exhaust)
  show "wsrv.causal_at ?on s"
    using spec [OF c, of e] me unfolding s wio.causal_at_def wsrv.causal_at_def wio.halted_def wsrv.halted_def wio.waits_def wsrv.waits_def
    by (cases r) auto
qed

lemma causal_on_io: "wio.causal m \<Longrightarrow> wsrv.causal (on_io m)"
proof -
  have "on_io m = (\<lambda>s. (fst (m (fst s)), (snd (m (fst s)), snd s)))"
    by (rule ext) (simp add: on_io_def split: prod.split)
  then show "wio.causal m \<Longrightarrow> ?thesis" using causal_beside by simp
qed

lemma accept_loop_bind:
  "accept_loop (Suc n) acc = bindS (on_io acc) (\<lambda>c. bindS (\<lambda>s. (Val (), (fst s, snd s @ [c]))) (\<lambda>_. accept_loop n acc))"
  by (rule ext) (auto simp: bindS_def on_io_def split: prod.split outcome.split)

lemma causal_accept_loop: "wio.causal acc \<Longrightarrow> wsrv.causal (accept_loop n acc)"
proof (induction n)
  case 0
  have "accept_loop 0 acc = (\<lambda>s. (Stuck, s))" by (rule ext) simp
  then show ?case by (simp add: wsrv.causal_stuck)
next
  case (Suc n)
  have "wsrv.causal (\<lambda>s. (Val (), (fst s, snd s @ [c])))" for c :: int
    by (rule wsrv.causalI) (simp_all add: wsrv.grows_def wsrv.causal_at_def)
  then show ?case unfolding accept_loop_bind using Suc by (auto intro!: wsrv.causal_bindS causal_on_io)
qed

lemma causal_serve_on:
  "wio.causal mk \<Longrightarrow> (\<And>s. wio.causal (listen s)) \<Longrightarrow> (\<And>s. wio.causal (acc s)) \<Longrightarrow> wsrv.causal (serve_on mk listen acc n)"
  unfolding serve_on_def by (auto intro!: wsrv.causal_bindS causal_on_io causal_accept_loop)

lemma causal_serve [simp]: "wsrv.causal (serve n port sin_zero)"
  unfolding serve_def by (rule causal_serve_on) simp_all

subsection \<open>A session\<close>

lemma causal_echo_loop: "(\<And>ws e. bench (more_wakes ws e) = bench e) \<Longrightarrow> wbuf.causal (echo_loop n g fd bench)"
  unfolding echo_loop_def by (rule wfile.buf_echo_loop_over) simp_all

lemma causal_echo_session [simp]:
  assumes "\<And>ws e. bench (more_wakes ws e) = bench e"
  shows "wio.causal (echo_session n g fd bench)"
proof -
  let ?m = "wbuf.handle (echo_loop n g fd bench) (\<lambda>r. bindS (on_file (cf_destroy (- 1))) (\<lambda>_. ret (Some r)))
    (\<lambda>ex. bindS (on_file (cf_destroy fd)) (\<lambda>_. ret None))"
  have "wbuf.causal ?m"
    by (intro wbuf.causal_handle causal_echo_loop assms wbuf.causal_bindS causal_on_file) simp_all
  then have "wio.causal (\<lambda>e. (fst (?m ([], e)), snd (snd (?m ([], e)))))" by (rule causal_from_buffer)
  moreover have "(\<lambda>e. (fst (?m ([], e)), snd (snd (?m ([], e))))) = echo_session n g fd bench"
    by (rule ext) (auto simp: wbuf.handle_def echo_session_def bindS_def on_file_def split: prod.split outcome.split)
  ultimately show ?thesis by simp
qed

lemma causal_echo_handlers: "wsrv.causal m \<Longrightarrow> wsrv.causal (echo_handlers m)"
proof -
  assume m: "wsrv.causal m"
  have "echo_handlers m = wsrv.handle m (\<lambda>_. ret ()) (\<lambda>ex. if is_coro_error ex then ret () else raise ex)"
    by (rule ext) (auto simp: echo_handlers_def wsrv.handle_def split: prod.split outcome.split)
  then show ?thesis using m by (simp add: wsrv.causal_handle)
qed

lemma causal_echo_server [simp]: "wsrv.causal (echo_server n port sin_zero)"
  unfolding echo_server_def by (rule causal_echo_handlers) simp

end
