(* ===== verification/Thread_Points.thy ===== *)
theory Thread_Points
  imports Event_Loop
begin

section \<open>Threads follow their code\<close>

text \<open>
  A coroutine is suspended, at any time, at a point of its code that can be reached from the point it was
  started at, it is dead only if it has reached an end of its code, and the loop is told to exit only by a thread whose code says so: whatever the poller and the other threads do, \<open>preserve\<close>
  and \<open>restore\<close> mix up no two coroutines and lose no step.  The code is the parameter of theory \<open>Coro\<close>; \<open>next_points\<close> are the points
  that may follow an action.
\<close>

definition next_points :: "'s action \<Rightarrow> 's set" where
  "next_points a =
     (case a of
        Finish \<Rightarrow> {}
      | Uncaught \<Rightarrow> {}
      | Yield v k \<Rightarrow> range k
      | Schedule c v k h \<Rightarrow> insert k (range h)
      | Spawn s k \<Rightarrow> range k
      | Insert_Event t c v k \<Rightarrow> {k}
      | Sleep msec k \<Rightarrow> range k
      | Exit k \<Rightarrow> {k}
      | Gettime k \<Rightarrow> range k
      | Current k \<Rightarrow> range k
      | Wait_Read fd k h \<Rightarrow> insert k (range h)
      | Wait_Write fd k h \<Rightarrow> insert k (range h))"

definition point_step :: "('s \<Rightarrow> 's action) \<Rightarrow> 's \<Rightarrow> 's \<Rightarrow> bool" where
  "point_step code p q \<longleftrightarrow> q \<in> next_points (code p)"

abbreviation reaches :: "('s \<Rightarrow> 's action) \<Rightarrow> 's \<Rightarrow> 's \<Rightarrow> bool" where
  "reaches code \<equiv> (point_step code)\<^sup>*\<^sup>*"

definition at_end :: "('s \<Rightarrow> 's action) \<Rightarrow> 's \<Rightarrow> bool" where
  "at_end code p \<longleftrightarrow> (case code p of Finish \<Rightarrow> True | Uncaught \<Rightarrow> True | _ \<Rightarrow> False)"

lemma reaches_step: "reaches code s p \<Longrightarrow> q \<in> next_points (code p) \<Longrightarrow> reaches code s q"
  by (simp add: point_step_def rtranclp.rtrancl_into_rtrancl)

text \<open>
  The coroutine \<open>co\<close> has been started at a point in \<open>S\<close> and has followed its code since.  \<open>S\<close> holds, with a
  start, what a thread started there can start.
\<close>

definition on_course :: "('s \<Rightarrow> 's action) \<Rightarrow> 's set \<Rightarrow> 's coro \<Rightarrow> bool" where
  "on_course code S co \<longleftrightarrow>
     co_start co \<in> S
     \<and> (\<forall>k v. co_copy co = Some k \<longrightarrow> reaches code (co_start co) (k v))
     \<and> (co_dead co \<longrightarrow> (\<exists>p. reaches code (co_start co) p \<and> at_end code p))"

text \<open>A point at which a thread started in \<open>S\<close> calls \<open>coro::exit\<close>.\<close>

definition can_exit :: "('s \<Rightarrow> 's action) \<Rightarrow> 's set \<Rightarrow> bool" where
  "can_exit code S \<longleftrightarrow> (\<exists>s p k. s \<in> S \<and> reaches code s p \<and> code p = Exit k)"

definition all_on_course :: "('s \<Rightarrow> 's action) \<Rightarrow> 's set \<Rightarrow> ('s, 'p) world \<Rightarrow> bool" where
  "all_on_course code S w \<longleftrightarrow> list_all (on_course code S) (w_coros w) \<and> (w_exit w \<longrightarrow> can_exit code S)"

definition spawn_closed :: "('s \<Rightarrow> 's action) \<Rightarrow> 's set \<Rightarrow> bool" where
  "spawn_closed code S \<longleftrightarrow> (\<forall>s p s' k. s \<in> S \<longrightarrow> reaches code s p \<longrightarrow> code p = Spawn s' k \<longrightarrow> s' \<in> S)"

lemma all_on_course_same: "w_coros w' = w_coros w \<Longrightarrow> w_exit w' = w_exit w \<Longrightarrow> all_on_course code S w \<Longrightarrow> all_on_course code S w'"
  by (simp add: all_on_course_def)

lemma list_all_update: "list_all P xs \<Longrightarrow> (i < length xs \<Longrightarrow> P x) \<Longrightarrow> list_all P (xs[i := x])"
  using set_update_subset_insert [of xs i x]
  by (cases "i < length xs") (auto simp: list_all_iff list_update_beyond)

lemma all_on_course_upd:
  "all_on_course code S w \<Longrightarrow> (c < length (w_coros w) \<Longrightarrow> on_course code S (f (w_coros w ! c))) \<Longrightarrow>
   all_on_course code S (upd_coro c f w)"
  by (simp add: all_on_course_def upd_coro_def list_all_update)

lemma all_on_courseD: "all_on_course code S w \<Longrightarrow> c < length (w_coros w) \<Longrightarrow> on_course code S (w_coros w ! c)"
  by (simp add: all_on_course_def list_all_length)

lemma on_course_value [simp]: "on_course code S (co\<lparr>co_value := v\<rparr>) = on_course code S co"
  by (simp add: on_course_def)

lemma all_on_course_set_value: "all_on_course code S w \<Longrightarrow> all_on_course code S (set_value c v w)"
  unfolding set_value_def by (rule all_on_course_upd) (auto dest: all_on_courseD)

lemma all_on_course_new: "all_on_course code S w \<Longrightarrow> s \<in> S \<Longrightarrow> all_on_course code S (snd (new_coro s w))"
  by (simp add: all_on_course_def new_coro_def on_course_def)

lemma all_on_course_init: "all_on_course code S (init_world clock malloc p)"
  by (simp add: all_on_course_def init_world_def)

subsection \<open>A turn\<close>

text \<open>How a segment that began at a point reached from \<open>s\<close> has ended.\<close>

definition seg_on_course :: "('s \<Rightarrow> 's action) \<Rightarrow> 's \<Rightarrow> 's ending outcome \<Rightarrow> bool" where
  "seg_on_course code s r \<longleftrightarrow>
     (\<forall>k v. r = Val (Suspended k) \<longrightarrow> reaches code s (k v))
     \<and> (r = Val Finished \<longrightarrow> (\<exists>p. reaches code s p \<and> at_end code p))"

lemma yield_on_course:
  "yield v k w = (r, w') \<Longrightarrow> (\<And>x. reaches code s (k x)) \<Longrightarrow> all_on_course code S w \<Longrightarrow>
   all_on_course code S w' \<and> seg_on_course code s r"
  by (auto simp: yield_def bindS_def me_def seg_on_course_def all_on_course_set_value split: option.splits)

lemma sleep_on_course:
  assumes "sleep msec k w = (r, w')" "\<And>x. reaches code s (k x)" "all_on_course code S w"
  shows "all_on_course code S w' \<and> seg_on_course code s r"
proof (cases "w_current w")
  case None
  then show ?thesis using assms(1,3) by (auto simp: sleep_def bindS_def me_def seg_on_course_def)
next
  case (Some c)
  let ?w = "insert_event (timeradd (w_clock w (w_ticks w)) (Timeval (msec sdiv 1000) ((msec smod 1000) * 1000))) c 0
    (w\<lparr>w_ticks := Suc (w_ticks w)\<rparr>)"
  have "yield 0 k ?w = (r, w')" using assms(1) Some by (simp add: sleep_def bindS_def me_def gettimeofday_def Let_def)
  moreover have "all_on_course code S ?w" using assms(3) by (simp add: all_on_course_def insert_event_def)
  ultimately show ?thesis by (rule yield_on_course [OF _ assms(2)])
qed

lemma wait_for_on_course:
  assumes "wait_for reg chk fd k h w = (r, w')" "reaches code s k" "\<And>e. reaches code s (h e)" "all_on_course code S w"
  shows "all_on_course code S w' \<and> seg_on_course code s r"
proof (cases "w_current w")
  case None
  then show ?thesis using assms(1,4) by (auto simp: wait_for_def bindS_def me_def seg_on_course_def)
next
  case (Some c)
  obtain x w1 where w1: "set_wait reg fd c w = (x, w1)" by (rule prod.exhaust)
  have m: "all_on_course code S w1" using w1 assms(4) by (auto simp: set_wait_def all_on_course_def split: prod.splits)
  let ?k = "\<lambda>v. case chk v of None \<Rightarrow> k | Some e \<Rightarrow> h e"
  have k: "reaches code s (?k v)" for v using assms(2,3) by (simp split: option.split)
  show ?thesis
  proof (cases x)
    case (Val u)
    then have "yield 0 ?k w1 = (r, w')" using assms(1) Some w1 by (simp add: wait_for_def bindS_def me_def)
    then show ?thesis using k m by (rule yield_on_course)
  qed (use assms(1) Some w1 m in \<open>auto simp: wait_for_def bindS_def me_def seg_on_course_def\<close>)
qed

lemma run_seg_on_course:
  assumes "spawn_closed code S" "s \<in> S"
  shows "run_seg n vt code p w = (r, w') \<Longrightarrow> reaches code s p \<Longrightarrow> all_on_course code S w \<Longrightarrow>
    all_on_course code S w' \<and> seg_on_course code s r"
proof (induction n arbitrary: p w)
  case 0
  then show ?case by (auto simp: seg_on_course_def)
next
  case (Suc n)
  note nx = reaches_step [OF Suc.prems(2)]
  note same = all_on_course_same [OF _ _ Suc.prems(3)]
  show ?case
  proof (cases "code p")
    case (Yield v k)
    have "yield v k w = (r, w')" using Suc.prems(1) Yield by simp
    then show ?thesis by (rule yield_on_course) (use Yield nx Suc.prems(3) in \<open>auto simp: next_points_def\<close>)
  next
    case (Sleep msec k)
    have "sleep msec k w = (r, w')" using Suc.prems(1) Sleep by simp
    then show ?thesis by (rule sleep_on_course) (use Sleep nx Suc.prems(3) in \<open>auto simp: next_points_def\<close>)
  next
    case (Wait_Read fd k h)
    have n: "reaches code s k" "\<And>e. reaches code s (h e)" using nx Wait_Read by (auto simp: next_points_def)
    show ?thesis
    proof (cases "w_current w")
      case None
      then show ?thesis using Suc.prems(1,3) Wait_Read Suc.IH [OF _ n(2)] by simp
    next
      case (Some c)
      then have "wait_for (vt_set_read vt) (vt_resumed vt ''wait_for_read'') fd k h w = (r, w')"
        using Suc.prems(1) Wait_Read by simp
      then show ?thesis by (rule wait_for_on_course [OF _ n Suc.prems(3)])
    qed
  next
    case (Wait_Write fd k h)
    have n: "reaches code s k" "\<And>e. reaches code s (h e)" using nx Wait_Write by (auto simp: next_points_def)
    show ?thesis
    proof (cases "w_current w")
      case None
      then show ?thesis using Suc.prems(1,3) Wait_Write Suc.IH [OF _ n(2)] by simp
    next
      case (Some c)
      then have "wait_for (vt_set_write vt) (vt_resumed vt ''wait_for_write'') fd k h w = (r, w')"
        using Suc.prems(1) Wait_Write by simp
      then show ?thesis by (rule wait_for_on_course [OF _ n Suc.prems(3)])
    qed
  next
    case (Schedule c v k h)
    have n: "reaches code s k" "reaches code s (h e)" for e using nx Schedule by (auto simp: next_points_def)
    obtain x w1 where x: "schedule c v w = (x, w1)" by (rule prod.exhaust)
    then have "all_on_course code S w1" by (intro same) (auto simp: schedule_def split: if_splits)
    then show ?thesis
      using Suc.prems(1) Schedule x Suc.IH [OF _ n(1)] Suc.IH [OF _ n(2)] by (cases x) (auto simp: seg_on_course_def)
  next
    case (Spawn s' k)
    have "s' \<in> S" using assms Suc.prems(2) Spawn by (auto simp: spawn_closed_def)
    then have "all_on_course code S (snd (new_coro s' w))" using Suc.prems(3) by (rule all_on_course_new [rotated])
    moreover have "run_seg n vt code (k (length (w_coros w))) (snd (new_coro s' w)) = (r, w')"
      using Suc.prems(1) Spawn by (simp add: bindS_def new_coro_def)
    moreover have "reaches code s (k (length (w_coros w)))" using nx Spawn by (auto simp: next_points_def)
    ultimately show ?thesis using Suc.IH by blast
  next
    case (Insert_Event t c v k)
    have "all_on_course code S (insert_event t c v w)" by (rule same) (simp_all add: insert_event_def)
    then show ?thesis using Suc.prems(1) Insert_Event Suc.IH nx by (auto simp: next_points_def)
  next
    case (Exit k)
    have "can_exit code S" using assms(2) Suc.prems(2) Exit by (auto simp: can_exit_def)
    then have "all_on_course code S (exit_loop w)" using Suc.prems(3) by (simp add: all_on_course_def exit_loop_def)
    then show ?thesis using Suc.prems(1) Exit Suc.IH nx by (auto simp: next_points_def)
  next
    case (Gettime k)
    have "all_on_course code S (w\<lparr>w_ticks := Suc (w_ticks w)\<rparr>)" by (rule same) simp_all
    then show ?thesis using Suc.prems(1) Gettime Suc.IH nx by (auto simp: bindS_def gettimeofday_def next_points_def)
  next
    case (Current k)
    then show ?thesis using Suc.prems Suc.IH nx by (auto simp: next_points_def)
  qed (use Suc.prems in \<open>auto simp: seg_on_course_def at_end_def\<close>)
qed

lemma upd_on_course:
  assumes "all_on_course code S w" "c < length (w_coros w)"
    and "co_start (f (w_coros w ! c)) = co_start (w_coros w ! c)"
    and "\<And>k v. co_copy (f (w_coros w ! c)) = Some k \<Longrightarrow> reaches code (co_start (w_coros w ! c)) (k v)"
    and "co_dead (f (w_coros w ! c)) \<Longrightarrow> \<exists>p. reaches code (co_start (w_coros w ! c)) p \<and> at_end code p"
  shows "all_on_course code S (upd_coro c f w)"
  using assms all_on_courseD [OF assms(1,2)] by (intro all_on_course_upd) (auto simp: on_course_def)

lemma turn_on_course:
  assumes sc: "spawn_closed code S" and wf: "wf_world w" and c: "valid_cid w c"
    and w: "all_on_course code S w" and t: "turn n vt code c v w = (r, w')"
  shows "all_on_course code S w'"
proof (cases "is_dead w c")
  case True
  then show ?thesis using t w turn_dead [OF c True, of n vt code v] by simp
next
  case False
  obtain x w1 where seg: "run_seg n vt code (frames_of (w_coros w ! c) v) (enter c v w) = (x, w1)" by (rule prod.exhaust)
  let ?s = "co_start (w_coros w ! c)"
  have len: "c < length (w_coros w)" using c by (simp add: valid_cid_def)
  have oc: "on_course code S (w_coros w ! c)" using all_on_courseD [OF w len] .
  then have p: "reaches code ?s (frames_of (w_coros w ! c) v)" by (auto simp: on_course_def frames_of_def split: option.split)
  have "all_on_course code S (upd_coro c (\<lambda>co. co\<lparr>co_started := True, co_copy := None, co_value := v\<rparr>) w)"
    by (rule upd_on_course [OF w len]) (use oc in \<open>auto simp: on_course_def\<close>)
  then have e: "all_on_course code S (enter c v w)" by (rule all_on_course_same [rotated 2]) (simp_all add: enter_def)
  have "?s \<in> S" using oc by (simp add: on_course_def)
  from run_seg_on_course [OF sc this seg p e]
  have w1: "all_on_course code S w1" and so: "seg_on_course code ?s x" by simp_all
  note a = seg_after [OF wf c False seg]
  have "no_value (w_coros w1 ! c) = no_value (w_coros (enter c v w) ! c)"
    using seg_coros [OF seg] len by (simp add: coros_kept_def enter_def)
  from no_value_eqD(2) [OF this] have s1: "co_start (w_coros w1 ! c) = ?s" using len by (simp add: enter_def nth_upd_coro)
  have "all_on_course code S (upd_coro c (\<lambda>co. co\<lparr>co_copy := None\<rparr>) w1)"
    by (rule upd_on_course [OF w1 a(3)]) (use a(5) in simp_all)
  then have none: "all_on_course code S (out_of_memory c k w1)" for k
    by (rule all_on_course_same [rotated 2]) (simp_all add: out_of_memory_def)
  have some: "all_on_course code S (suspend_as c k w1)" if "x = Val (Suspended k)" for k
  proof -
    have "all_on_course code S (upd_coro c (\<lambda>co. co\<lparr>co_copy := Some k\<rparr>) w1)"
      by (rule upd_on_course [OF w1 a(3)]) (use a(5) s1 so that in \<open>simp_all add: seg_on_course_def\<close>)
    then show ?thesis by (rule all_on_course_same [rotated 2]) (simp_all add: suspend_as_def)
  qed
  have fin: "all_on_course code S ((wrap_end c w1)\<lparr>w_stack := None\<rparr>)" if "x = Val Finished"
  proof -
    have "all_on_course code S (upd_coro c (\<lambda>co. co\<lparr>co_dead := True\<rparr>) w1)"
      by (rule upd_on_course [OF w1 a(3)]) (use a(6) s1 so that in \<open>simp_all add: seg_on_course_def\<close>)
    then have "all_on_course code S (wrap_end c w1)" unfolding wrap_end_def by (rule all_on_course_set_value)
    then show ?thesis by (rule all_on_course_same [rotated 2]) simp_all
  qed
  show ?thesis
    using t turn_alive [OF wf c False, of n vt code v] seg w1 none some fin
    by (auto split: outcome.splits ending.splits if_splits)
qed

subsection \<open>The loops\<close>

lemma resume_all_on_course:
  assumes "spawn_closed code S"
  shows "wf_world w \<Longrightarrow> \<forall>e \<in> set es. valid_cid w (fst e) \<Longrightarrow> all_on_course code S w \<Longrightarrow>
    resume_all n vt code es w = (r, w') \<Longrightarrow> all_on_course code S w'"
proof (induction es arbitrary: w)
  case Nil
  then show ?case by simp
next
  case (Cons e es)
  obtain c v where e: "e = (c, v)" by (rule prod.exhaust)
  obtain x w1 where t: "turn n vt code c v w = (x, w1)" by (rule prod.exhaust)
  have c: "valid_cid w c" using Cons.prems(2) e by simp
  have w1: "all_on_course code S w1" using turn_on_course [OF assms Cons.prems(1) c Cons.prems(3) t] .
  show ?case
  proof (cases x)
    case (Val u)
    then have "wf_world w1" "\<forall>e \<in> set es. valid_cid w1 (fst e)"
      using turn_wf [OF Cons.prems(1) c, of n vt code v w1] t Cons.prems(2) by (auto simp: valid_cid_def)
    then show ?thesis using Cons.IH [OF _ _ w1] Cons.prems(4) t Val by (simp add: e resume_all_turn bindS_def del: resume_all.simps)
  qed (use Cons.prems(4) t w1 in \<open>simp_all add: e resume_all_turn bindS_def del: resume_all.simps\<close>)
qed

lemma schedule_due_coros: "schedule_due tv w = (r, w') \<Longrightarrow> w_coros w' = w_coros w \<and> w_exit w' = w_exit w"
proof (induction tv w arbitrary: r w' rule: schedule_due.induct)
  case (1 tv w)
  let ?e = "ev_top (w_events w)" and ?w = "w\<lparr>w_events := ev_pop (w_events w)\<rparr>"
  obtain x w1 where x: "schedule (ev_coro ?e) (ev_args ?e) ?w = (x, w1)" by (rule prod.exhaust)
  then have "w_coros w1 = w_coros w" "w_exit w1 = w_exit w" by (auto simp: schedule_def split: if_splits)
  then show ?case using "1.IH" [OF _ refl, of _ w1 r w'] "1.prems" x
    by (cases x) (auto simp: schedule_due.simps [of tv w] Let_def bindS_def split: if_splits)
qed

lemma schedule_events_coros: "schedule_events w = (r, w') \<Longrightarrow> w_coros w' = w_coros w \<and> w_exit w' = w_exit w"
  by (auto simp: schedule_events_def bindS_def gettimeofday_def dest: schedule_due_coros)

lemma run_rounds_on_course:
  assumes "spawn_closed code S"
  shows "wf_world w \<Longrightarrow> all_on_course code S w \<Longrightarrow> run_rounds r n vt code w = (x, w') \<Longrightarrow> all_on_course code S w'"
proof (induction r arbitrary: w)
  case 0
  then show ?case by simp
next
  case (Suc r)
  show ?case
  proof (cases "w_pending w = []")
    case True
    then show ?thesis using Suc.prems by simp
  next
    case False
    let ?w = "swap_lists w"
    have wf: "wf_world ?w" using Suc.prems(1) by (rule swap_lists_wf)
    have val: "\<forall>e \<in> set (w_staging ?w). valid_cid ?w (fst e)"
      using wf_worldD(2) [OF wf] by (auto simp: entries_ok_def list_all_iff valid_cid_def)
    have "all_on_course code S ?w" using Suc.prems(2) by (rule all_on_course_same [rotated 2]) (simp_all add: swap_lists_def)
    obtain y w2 where a: "resume_all n vt code (w_staging ?w) ?w = (y, w2)" by (rule prod.exhaust)
    have w2: "all_on_course code S w2"
      using resume_all_on_course [OF assms wf val \<open>all_on_course code S ?w\<close> a] .
    obtain z w3 where b: "schedule_events (clear_staging w2) = (z, w3)" by (rule prod.exhaust)
    have w3: "all_on_course code S w3"
      using w2 schedule_events_coros [OF b] by (simp add: all_on_course_def clear_staging_def)
    have "wf_world w3" if "y = Val ()"
      using resume_all_wf [OF wf val] a that schedule_events_wf [OF b clear_staging_wf] by blast
    then show ?thesis using Suc.IH [OF _ w3] Suc.prems(3) False a b w2 w3
      by (cases y; cases z) (auto simp: Let_def bindS_def)
  qed
qed

lemma run_pending_on_course:
  assumes "spawn_closed code S" "wf_world w" "all_on_course code S w" "run_pending r n vt code w = (x, w')"
  shows "all_on_course code S w'"
proof -
  obtain y w1 where s: "schedule_events w = (y, w1)" by (rule prod.exhaust)
  have "all_on_course code S w1" using schedule_events_coros [OF s] all_on_course_same [OF _ _ assms(3)] by blast
  then show ?thesis
    using assms(4) s run_rounds_on_course [OF assms(1) schedule_events_wf [OF s assms(2)]]
    by (cases y) (auto simp: run_pending_def bindS_def)
qed

context poller
begin

lemma event_loop_on_course:
  assumes "spawn_closed code S"
  shows "wf_world w \<Longrightarrow> all_on_course code S w \<Longrightarrow> event_loop l r n vt code w = (x, w') \<Longrightarrow> all_on_course code S w'"
proof (induction l arbitrary: w)
  case 0
  then show ?case by simp
next
  case (Suc l)
  obtain y w1 where p: "run_pending r n vt code w = (y, w1)" by (rule prod.exhaust)
  have w1: "all_on_course code S w1" by (rule run_pending_on_course [OF assms Suc.prems(1,2) p])
  show ?case
  proof (cases "w_exit w \<or> y \<noteq> Val () \<or> w_exit w1")
    case True
    then show ?thesis using Suc.prems p w1 by (cases y) (auto simp: bindS_def split: if_splits)
  next
    case False
    obtain t w2 where t: "time_to_next_event w1 = (t, w2)" by (rule prod.exhaust)
    have w2: "w_coros w2 = w_coros w1" "w_exit w2 = w_exit w1" "\<exists>t'. t = Val t'"
      using t by (auto simp: time_to_next_event_def bindS_def gettimeofday_def Let_def split: if_splits)
    have wf: "wf_world w2" using run_pending_wf [of r n vt code w w1] p False Suc.prems(1) time_to_next_event_wf [OF t] by simp
    obtain t' where t': "t = Val t'" using w2(3) by blast
    obtain z w3 where q: "vt_poll vt t' w2 = (z, w3)" by (rule prod.exhaust)
    have o: "only_schedules w2 w3" using q by (rule poll_only_schedules)
    then have "w_coros w3 = w_coros w1" "w_exit w3 = w_exit w1" using w2(1,2) by (auto simp: only_schedules_def)
    then have w3: "all_on_course code S w3" using w1 by (rule all_on_course_same)
    show ?thesis
      using Suc.IH [OF only_schedules_wf [OF o wf] w3] Suc.prems(3) False p t t' q w3 by (cases z) (auto simp: bindS_def)
  qed
qed

end

end
