(* ===== verification/Progress.thy ===== *)
theory Progress
  imports Echo_Server
begin

section \<open>Progress\<close>

text \<open>
  No loop of the classes spins on its own: each pass uses up an answer of the kernel or bytes that have
  been read before.  \<open>served m\<close> says this of an operation: what is left to come does not grow, and if
  the operation does not come back then the kernel has no answer or no wake-up left.  From it
  follows that an echo session ends with any fuel above the amount that is left to come.
\<close>

text \<open>What is left to come: the answers and the bytes in them.\<close>

definition answer_weight :: "answer \<Rightarrow> nat" where
  "answer_weight a = Suc (case a of Data bs \<Rightarrow> length bs | _ \<Rightarrow> 0)"

definition to_come :: "io \<Rightarrow> nat" where
  "to_come e = sum_list (map answer_weight (io_answers e))"

definition hungry :: "io \<Rightarrow> bool" where
  "hungry e \<longleftrightarrow> io_answers e = [] \<or> io_wakes e = []"

definition served :: "(io, 'a) op \<Rightarrow> bool" where
  "served m \<longleftrightarrow> (\<forall>e r e'. m e = (r, e') \<longrightarrow> to_come e' \<le> to_come e \<and> (r = Stuck \<longrightarrow> hungry e'))"

lemma servedD: "served m \<Longrightarrow> m e = (r, e') \<Longrightarrow> to_come e' \<le> to_come e \<and> (r = Stuck \<longrightarrow> hungry e')"
  by (simp add: served_def)

lemma answers_to_come: "length (io_answers e) \<le> to_come e"
proof -
  have "length as \<le> sum_list (map answer_weight as)" for as
    by (induction as) (simp_all add: answer_weight_def)
  then show ?thesis by (simp add: to_come_def)
qed

lemma served_bindS: "served m \<Longrightarrow> (\<And>a. served (f a)) \<Longrightarrow> served (bindS m f)"
  unfolding served_def bindS_def by (fastforce split: prod.splits outcome.splits)

lemma served_basic [simp]: "served (ret a)" "served (raise ex)" "served errno" "served (throw_os fun)"
  by (simp_all add: served_def errno_def throw_os_def bindS_def)

lemma ask_to_come: "ask c norm e = (Val a, e') \<Longrightarrow> \<exists>b. a = norm b \<and> to_come e = to_come e' + answer_weight b"
  by (auto simp: ask_def to_come_def split: list.splits)

lemma served_ask [simp]: "served (ask c norm)"
  unfolding served_def by (auto simp: ask_def to_come_def hungry_def split: list.splits)

lemma served_calls [simp]: "served (sys_num c)" "served (sys_write fd bs)" "served (sys_read fd n)"
  unfolding sys_num_def sys_write_def sys_read_def by (rule served_bindS; simp)+

lemma served_wait [simp]: "served (sys_wait c)"
  unfolding served_def by (auto simp: sys_wait_def to_come_def hungry_def split: list.splits option.splits)

lemma served_waits [simp]: "served (wait_for_read fd)" "served (wait_for_write fd)"
  using servedD [OF served_wait] by (auto simp: served_def wait_for_read_def wait_for_write_def split: if_splits)

lemma served_close [simp]: "served (cf_close fd)" "served (cs_shutdown fd how)"
  unfolding cf_close_def cs_shutdown_def by (rule served_bindS; simp)+

lemma served_destroy [simp]: "served (cf_destroy fd)"
  by (simp add: cf_destroy_def)

text \<open>A call that comes back has used up an answer.\<close>

lemma ask_less_to_come: "ask c norm e = (Val a, e') \<Longrightarrow> to_come e' < to_come e"
  using ask_to_come by (fastforce simp: answer_weight_def)

lemma sys_write_to_come: "sys_write fd p e = (Val r, e') \<Longrightarrow> to_come e' < to_come e"
  by (auto simp: sys_write_def bindS_iffs dest: ask_less_to_come)

lemma sys_read_to_come: "sys_read fd n e = (Val r, e') \<Longrightarrow> to_come e' + length (snd r) < to_come e"
proof -
  assume "sys_read fd n e = (Val r, e')"
  then obtain a where a: "ask (C_Read fd n) (read_answer n) e = (Val a, e')"
    and r: "r = (case a of Data bs \<Rightarrow> (int (length bs), bs) | _ \<Rightarrow> (- 1, []))"
    by (auto simp: sys_read_def bindS_iffs)
  obtain b where "a = read_answer n b" "to_come e = to_come e' + answer_weight b" using ask_to_come [OF a] by blast
  then show ?thesis unfolding r by (cases b) (simp_all add: read_answer_def answer_weight_def)
qed

lemma cf_write_progress:
  "cf_write fd p e = (r, e') \<Longrightarrow>
   to_come e' \<le> to_come e \<and> (r = Stuck \<longrightarrow> hungry e') \<and> (r = Val () \<longrightarrow> p \<noteq> [] \<longrightarrow> to_come e' < to_come e)"
proof (induction fd p e arbitrary: r e' rule: cf_write.induct)
  case (1 fd p e)
  show ?case
  proof (cases "length p = 0")
    case True
    then show ?thesis using "1.prems" by auto
  next
    case ne: False
    obtain x e1 where w: "sys_write fd p e = (x, e1)" by (rule prod.exhaust)
    obtain y e2 where wait: "wait_for_write fd e1 = (y, e2)" by (rule prod.exhaust)
    have sw: "to_come e1 \<le> to_come e \<and> (x = Stuck \<longrightarrow> hungry e1)" using servedD [OF served_calls(2) w] .
    have ww: "to_come e2 \<le> to_come e1 \<and> (y = Stuck \<longrightarrow> hungry e2)" using servedD [OF served_waits(2) wait] .
    note eq = cf_write_more [OF ne, of fd e]
    show ?thesis
    proof (cases x)
      case (Val n)
      then have l: "to_come e1 < to_come e" using w sys_write_to_come by blast
      show ?thesis
      proof (cases "n > 0 \<or> io_errno e1 = EWOULDBLOCK \<and> y = Val ()")
        case True
        then obtain q e3 where "cf_write fd q e3 = (r, e')" "to_come e3 \<le> to_come e1"
          "cf_write fd q e3 = (r, e') \<Longrightarrow> to_come e' \<le> to_come e3 \<and> (r = Stuck \<longrightarrow> hungry e')"
        proof (cases "n > 0")
          case True
          show ?thesis
            by (rule that [of "drop (nat n) p" e1])
              (use "1.prems" "1.IH"(1) [OF ne w [unfolded Val] True] w Val True in \<open>auto simp: eq bindS_def\<close>)
        next
          case False
          then have w1: "io_errno e1 = EWOULDBLOCK" "wait_for_write fd e1 = (Val (), e2)" using True wait by simp_all
          show ?thesis
            by (rule that [of p e2])
              (use "1.prems" "1.IH"(2) [OF ne w [unfolded Val] False w1] w Val False w1 ww in \<open>auto simp: eq bindS_def\<close>)
        qed
        then show ?thesis using l by auto
      next
        case False
        then show ?thesis using "1.prems" w Val wait ww l
          by (cases y) (auto simp: eq bindS_def split: if_splits)
      qed
    qed (use "1.prems" w sw in \<open>auto simp: eq bindS_def\<close>)
  qed
qed

lemma served_cf_write [simp]: "served (cf_write fd p)"
  using cf_write_progress by (simp add: served_def)

lemma cf_read_progress:
  "cf_read fd n e = (r, e') \<Longrightarrow>
   to_come e' \<le> to_come e \<and> (r = Stuck \<longrightarrow> hungry e') \<and> (\<forall>bs. r = Val bs \<longrightarrow> to_come e' + length bs < to_come e)"
proof (induction fd n e arbitrary: r e' rule: cf_read.induct)
  case (1 fd n e)
  obtain x e1 where w: "sys_read fd n e = (x, e1)" by (rule prod.exhaust)
  obtain y e2 where wait: "wait_for_read fd e1 = (y, e2)" by (rule prod.exhaust)
  have sw: "to_come e1 \<le> to_come e \<and> (x = Stuck \<longrightarrow> hungry e1)" using servedD [OF served_calls(3) w] .
  have ww: "to_come e2 \<le> to_come e1 \<and> (y = Stuck \<longrightarrow> hungry e2)" using servedD [OF served_waits(1) wait] .
  show ?case
  proof (cases x)
    case (Val v)
    then have l: "to_come e1 + length (snd v) < to_come e" using w sys_read_to_come by blast
    show ?thesis
    proof (cases "\<not> 0 \<le> fst v \<and> io_errno e1 = EWOULDBLOCK \<and> y = Val ()")
      case True
      then have w1: "\<not> 0 \<le> fst v" "io_errno e1 = EWOULDBLOCK" "wait_for_read fd e1 = (Val (), e2)"
        using wait by simp_all
      have "cf_read fd n e2 = (r, e')"
        using "1.prems" w Val w1 by (simp add: cf_read.simps [of fd n e] bindS_def)
      from "1.IH" [OF w [unfolded Val] w1 this] show ?thesis using l ww by auto
    next
      case False
      then show ?thesis using "1.prems" w Val wait ww l
        by (cases y) (auto simp: cf_read.simps [of fd n e] bindS_def split: if_splits)
    qed
  qed (use "1.prems" w sw in \<open>auto simp: cf_read.simps [of fd n e] bindS_def\<close>)
qed

subsection \<open>Through the buffer\<close>

text \<open>
  The same for the functions of a connection that an echo session calls: \<open>left\<close> is what is left to come, and \<open>starved\<close> says that
  the kernel has nothing more for the thread.  The measure of the loops also counts the bytes that wait in the buffer.
\<close>

locale fed_transport =
  fixes rd :: "nat \<Rightarrow> ('e, byte list) op" and wr :: "byte list \<Rightarrow> ('e, unit) op" and sh :: "('e, unit) op" and cl :: "('e, int) op"
    and left :: "'e \<Rightarrow> nat" and starved :: "'e \<Rightarrow> bool"
  assumes rd_left: "rd n e = (r, e') \<Longrightarrow>
      left e' \<le> left e \<and> (r = Stuck \<longrightarrow> starved e') \<and> (\<forall>bs. r = Val bs \<longrightarrow> left e' + length bs < left e)"
    and wr_left: "wr p e = (u, e') \<Longrightarrow> left e' \<le> left e \<and> (u = Stuck \<longrightarrow> starved e')"
    and sh_left: "sh e = (u, e') \<Longrightarrow> left e' \<le> left e \<and> (u = Stuck \<longrightarrow> starved e')"
    and cl_left: "cl e = (k, e') \<Longrightarrow> left e' \<le> left e \<and> (k = Stuck \<longrightarrow> starved e')"
begin

lemma get_loop_progress:
  "get_loop n rd d m sl (b, e) = (r, (b', e')) \<Longrightarrow>
   length b' + left e' \<le> length b + left e
   \<and> (\<forall>c sl'. r = Val (c, sl') \<longrightarrow> length (concat sl') + length b' + left e' \<le> length (concat sl) + length b + left e)
   \<and> (\<forall>sl'. r = Val (False, sl') \<longrightarrow> length b' + left e' < length b + left e)
   \<and> (left e + (if b = [] then 0 else 1) < n \<longrightarrow> r = Stuck \<longrightarrow> starved e')"
proof (induction n arbitrary: m sl b e)
  case 0
  then show ?case by simp
next
  case (Suc n)
  show ?case
  proof (cases "b = []")
    case True
    obtain x e1 where rd: "rd 8192 e = (x, e1)" by (rule prod.exhaust)
    note p = rd_left [OF rd]
    show ?thesis
    proof (cases x)
      case (Val bs)
      show ?thesis
      proof (cases "bs = []")
        case e: True
        then show ?thesis using Suc.prems True rd Val p by (auto simp: read_string_def bindS_def)
      next
        case ne: False
        show ?thesis
        proof (cases "scan d m 0 bs")
          case (Inl i)
          then show ?thesis using Suc.prems True rd Val p ne scan_bounds [OF Inl]
            by (auto simp: read_string_def bindS_def)
        next
          case (Inr m')
          then have "get_loop n rd d m' (sl @ [bs]) ([], e1) = (r, (b', e'))"
            using Suc.prems True rd Val ne by (simp add: read_string_def bindS_def)
          from Suc.IH [OF this] show ?thesis using p Val True by (cases n) auto
        qed
      qed
    qed (use Suc.prems True rd p in \<open>auto simp: read_string_def bindS_def\<close>)
  next
    case False
    show ?thesis
    proof (cases "scan d m 0 b")
      case (Inl i)
      then show ?thesis using Suc.prems False scan_bounds [OF Inl] by auto
    next
      case (Inr m')
      then have "get_loop n rd d m' (sl @ [b]) ([], e) = (r, (b', e'))"
        using Suc.prems False by simp
      from Suc.IH [OF this] show ?thesis using False by auto
    qed
  qed
qed

definition due :: "'e buf \<Rightarrow> nat" where
  "due s = length (fst s) + left (snd s)"

lemma get_line_progress:
  assumes "get_line g rd s = (r, s')"
  shows "due s' \<le> due s" "\<And>line. r = Val (False, line) \<Longrightarrow> due s' < due s"
    and "due s + 1 < g \<Longrightarrow> r = Stuck \<Longrightarrow> starved (snd s')"
proof -
  obtain b e b' e' where s: "s = (b, e)" "s' = (b', e')" by (metis prod.collapse)
  obtain x where x: "get_loop g rd CRLF 0 [] (b, e) = (x, (b', e'))"
    and r: "r = (case x of Val v \<Rightarrow> Val (fst v, string_join [] (snd v)) | Raise ex \<Rightarrow> Raise ex | Stuck \<Rightarrow> Stuck)"
    using assms by (auto simp: s get_line_def get_string_def get_list_def bindS_def split: prod.splits outcome.splits)
  note p = get_loop_progress [OF x]
  show "due s' \<le> due s" using p by (simp add: s due_def)
  show "due s' < due s" if "r = Val (False, line)" for line
    using p r that by (auto simp: s due_def split: outcome.splits)
  show "starved (snd s')" if "due s + 1 < g" "r = Stuck"
    using p r that by (auto simp: s due_def split: outcome.splits if_splits)
qed

lemma on_file_left:
  assumes "on_file m s = (r, s')" "\<And>e r e'. m e = (r, e') \<Longrightarrow> left e' \<le> left e \<and> (r = Stuck \<longrightarrow> starved e')"
  shows "due s' \<le> due s" "r = Stuck \<Longrightarrow> starved (snd s')"
  using assms by (auto simp: on_file_eq due_def)

lemma loop_returns:
  assumes "due s < n" "due s + 1 < g" "echo_loop_over n g rd wr sh cl bench s = (Stuck, s')"
  shows "starved (snd s')"
  using assms
proof (induction n arbitrary: s)
  case 0
  then show ?case by simp
next
  case (Suc n)
  let ?loop = "echo_loop_over n g rd wr sh cl bench"
  obtain x s1 where l: "get_line g rd s = (x, s1)" by (rule prod.exhaust)
  note p = get_line_progress [OF l]
  show ?case
  proof (cases x)
    case (Val v)
    obtain closed line where v: "v = (closed, line)" by (rule prod.exhaust)
    have next_pass: "starved (snd s')" if "\<not> closed" "due t \<le> due s1" "?loop t = (Stuck, s')" for t
    proof (rule Suc.IH [OF _ _ that(3)])
      have "due s1 < due s" using p(2) Val v that(1) by simp
      then show "due t < n" "due t + 1 < g" using that(2) Suc.prems(1,2) by simp_all
    qed
    have wr: "due t' \<le> due t" "v = Stuck \<Longrightarrow> starved (snd t')" if "on_file (wr q) t = (v, t')" for q t v t'
      using that wr_left [of q] by (auto simp: on_file_eq due_def)
    have close: "on_file cl t = (Stuck, s') \<Longrightarrow> starved (snd s')" for t using on_file_left(2) [OF _ cl_left] by blast
    have put: "starved (snd s')" if st: "bindS (on_file (wr q)) (\<lambda>_. ?loop) s1 = (Stuck, s')" "\<not> closed" for q
    proof -
      obtain y s2 where w: "on_file (wr q) s1 = (y, s2)" by (rule prod.exhaust)
      show ?thesis using st next_pass [OF st(2) wr(1) [OF w]] wr(2) [OF w] w by (cases y) (simp_all add: bindS_def)
    qed
    have put': "bindS (\<lambda>s. on_file (wr (bench (snd s))) s) (\<lambda>_. ?loop) s1 = (Stuck, s') \<Longrightarrow> \<not> closed \<Longrightarrow> starved (snd s')"
      using put [of "bench (snd s1)"] by (simp add: bindS_def)
    have shut: "on_file sh t = (Stuck, s') \<Longrightarrow> starved (snd s')" for t using on_file_left(2) [OF _ sh_left] by blast
    have stop: "bindS (on_file sh) (\<lambda>_. bindS (on_file cl) (\<lambda>_. ret a)) s1 = (Stuck, s') \<Longrightarrow> starved (snd s')" for a :: echo_end
      using close shut [of s1] by (auto simp: bindS_iffs)
    have fin: "bindS (on_file cl) (\<lambda>_. ret a) s1 = (Stuck, s') \<Longrightarrow> starved (snd s')" for a :: echo_end
      using close [of s1] by (auto simp: bindS_iffs)
    show ?thesis
      using Suc.prems(3) fin stop put put' next_pass [OF _ le_refl] l Val v
      by (simp add: bindS_Val [where m = "get_line g rd"] Let_def split: if_splits)
  qed (use Suc.prems l p in \<open>auto simp: bindS_def\<close>)
qed

end

interpretation plain_fed: fed_transport "cf_read fd" "cf_write fd" "cs_shutdown fd SHUT_RDWR" "cf_close fd" to_come hungry
  using cf_read_progress cf_write_progress servedD [OF served_close(1)] servedD [OF served_close(2)] by unfold_locales blast+

lemma on_file_progress:
  assumes "on_file m s = (r, s')" "served m"
  shows "plain_fed.due s' \<le> plain_fed.due s" "r = Stuck \<Longrightarrow> hungry (snd s')"
  using plain_fed.on_file_left [OF assms(1) servedD [OF assms(2)]] by blast+

subsection \<open>The echo session\<close>

text \<open>
  C22: an echo session ends.  If the fuel of the two loops is above the number of answers and bytes that are
  left to come, then the model of the session is \<open>Stuck\<close> only because the kernel has no answer or
  no wake-up left: the session always returns, throws or waits for the kernel, and never spins.
\<close>

theorem echo_session_ends:
  assumes "to_come e < n" "to_come e + 1 < g" "echo_session n g fd bench e = (Stuck, e')"
  shows "io_answers e' = [] \<or> io_wakes e' = []"
proof -
  obtain x b e1 where l: "echo_loop n g fd bench ([], e) = (x, (b, e1))" by (metis prod.collapse)
  have "hungry e'"
  proof (cases x)
    case Stuck
    then have "e' = e1" using assms(3) l by (simp add: echo_session_def)
    then show ?thesis
      using plain_fed.loop_returns [OF _ _ l [unfolded echo_loop_def Stuck]] assms(1,2) by (simp add: plain_fed.due_def)
  qed (use assms(3) l in \<open>auto simp: echo_session_def bindS_iffs dest: servedD [OF served_destroy]\<close>)
  then show ?thesis by (simp add: hungry_def)
qed

theorem echo_session_ends_witness:
  "io_answers (snd (echo_session 8 9 4 (\<lambda>_. []) (ex_io [Data [104, 13, 10]]))) = []
   \<or> io_wakes (snd (echo_session 8 9 4 (\<lambda>_. []) (ex_io [Data [104, 13, 10]]))) = []"
proof -
  let ?e = "ex_io [Data [104, 13, 10]]"
  obtain e1 where g: "get_line 9 (cf_read 4) ([], ?e) = (Val (False, [104, 13, 10]), ([], e1))" "io_answers e1 = []"
    by (simp add: get_line_def get_simps)
  have "cf_write 4 [104, 13, 10] e1 = (Stuck, e1)"
    using g(2) by (simp add: cf_write.simps [of 4 "[104, 13, 10]"] sys_write_def bindS_def ask_def)
  then have "fst (echo_session 8 9 4 (\<lambda>_. []) ?e) = Stuck"
    by (simp add: echo_session_def echo_loop_numeral bindS_def g char_at_def on_file_def)
  then have r: "echo_session 8 9 4 (\<lambda>_. []) ?e = (Stuck, snd (echo_session 8 9 4 (\<lambda>_. []) ?e))"
    by (metis prod.collapse)
  show ?thesis by (rule echo_session_ends [OF _ _ r]) (simp_all add: to_come_def answer_weight_def ex_io_def)
qed

end
