(* ===== verification/Server_Program.thy ===== *)
theory Server_Program
  imports Replay Thread_Points Demo_Mains Progress
begin

section \<open>A server on the scheduler\<close>

text \<open>
  The threads of a server on the scheduler, for the echo server and the SMTP server alike: the server thread, which spawns a coroutine for
  each connection, and the sessions.  A point of such a thread is the list of its wake-ups so far: what it does next is found by
  replaying its operation (theory \<open>Replay\<close>) on the answers that the kernel gives to this thread.  The two operations are parameters:
  \<open>srv\<close> gives, for the wake-ups of the server, how it has ended, its calls and the connections it has started a session for; \<open>ses\<close>
  gives, for a session, whether it has called \<open>coro::exit\<close> when it has ended, and its calls.
\<close>

type_synonym wakes = "exn option list"

type_synonym calls = "(call \<times> answer) list"

type_synonym server_part = "wakes \<Rightarrow> unit outcome \<times> calls \<times> int list"

type_synonym session_part = "int \<Rightarrow> nat \<Rightarrow> wakes \<Rightarrow> bool outcome \<times> calls"

text \<open>
  \<open>Server_Spawned\<close> is the server between \<open>new coro\<close> and \<open>schedule ()\<close>; \<open>Ended\<close> is the end of a thread function.
\<close>

datatype server_point =
    Server_At wakes nat
  | Server_Spawned wakes nat cid
  | Session_At int nat wakes
  | Ended

text \<open>
  The wait that the scheduler is to register.  A thread in a call that the kernel does not answer any more does not come back to the
  scheduler: it stays at its point, and with it the process.
\<close>

definition wait_action :: "call option \<Rightarrow> (exn option \<Rightarrow> 's) \<Rightarrow> 's \<Rightarrow> 's action" where
  "wait_action c k p =
     (case c of
        Some (C_Wait_Read fd) \<Rightarrow> Wait_Read fd (k None) (\<lambda>ex. k (Some ex))
      | Some (C_Wait_Write fd) \<Rightarrow> Wait_Write fd (k None) (\<lambda>ex. k (Some ex))
      | _ \<Rightarrow> Current (\<lambda>_. p))"

definition server_threads :: "server_part \<Rightarrow> session_part \<Rightarrow> server_point \<Rightarrow> server_point action" where
  "server_threads srv ses p =
     (case p of
        Server_At ws k \<Rightarrow>
          (case srv ws of (r, l, started) \<Rightarrow>
             if k < length started then Spawn (Session_At (started ! k) k []) (Server_Spawned ws k)
             else (case r of
                 Val _ \<Rightarrow> Finish
               | Raise _ \<Rightarrow> Uncaught
               | Stuck \<Rightarrow> wait_action (next_call l (fst (snd (srv (ws @ [None]))))) (\<lambda>x. Server_At (ws @ [x]) k) p))
      | Server_Spawned ws k c \<Rightarrow> Schedule c 0 (Server_At ws (Suc k)) (\<lambda>_. Ended)
      | Session_At fd j ws \<Rightarrow>
          (case ses fd j ws of (r, l) \<Rightarrow>
             (case r of
                Val stops \<Rightarrow> if stops then Exit Ended else Finish
              | Raise _ \<Rightarrow> Uncaught
              | Stuck \<Rightarrow> wait_action (next_call l (snd (ses fd j (ws @ [None])))) (\<lambda>x. Session_At fd j (ws @ [x])) p))
      | Ended \<Rightarrow> Finish)"

subsection \<open>Where the threads get to\<close>

lemma next_points_wait [simp]: "next_points (wait_action c k p) \<subseteq> insert p (range k)"
  by (cases c) (auto simp: wait_action_def next_points_def split: call.split)

lemma wait_action_goes_on:
  "\<not> (case wait_action c k p of Finish \<Rightarrow> True | Uncaught \<Rightarrow> True | _ \<Rightarrow> False)"
  "\<not> (case map_action f (wait_action c k p) of Finish \<Rightarrow> True | Uncaught \<Rightarrow> True | _ \<Rightarrow> False)"
  by (simp_all add: wait_action_def split: option.split call.split)

lemma wait_action_not [simp]:
  "wait_action c k p \<noteq> Finish" "wait_action c k p \<noteq> Uncaught" "wait_action c k p \<noteq> Spawn s f" "wait_action c k p \<noteq> Exit q"
  by (auto simp: wait_action_def split: option.split call.split)

lemma session_next:
  "ses fd j ws = (r, l) \<Longrightarrow> q \<in> next_points (server_threads srv ses (Session_At fd j ws)) \<Longrightarrow>
   (\<exists>ws. q = Session_At fd j ws) \<or> q = Ended \<and> r = Val True"
proof (cases r)
  case Stuck
  assume r: "ses fd j ws = (r, l)" and "q \<in> next_points (server_threads srv ses (Session_At fd j ws))"
  then have "q \<in> insert (Session_At fd j ws) (range (\<lambda>x. Session_At fd j (ws @ [x])))"
    using Stuck subsetD [OF next_points_wait] by (simp only: server_threads_def server_point.case prod.case outcome.case)
  then show ?thesis by blast
qed (auto simp: server_threads_def next_points_def split: if_splits)

lemma server_next:
  assumes "q \<in> next_points (server_threads srv ses (Server_At ws k))"
  shows "(\<exists>ws. q = Server_At ws k) \<or> (\<exists>c. q = Server_Spawned ws k c)"
proof -
  obtain r l started where r: "srv ws = (r, l, started)" by (metis prod.collapse)
  show ?thesis
  proof (cases "k < length started \<or> r \<noteq> Stuck")
    case True
    then show ?thesis using assms r by (cases r) (auto simp: server_threads_def next_points_def split: if_splits)
  next
    case False
    then have "\<not> k < length started" "r = Stuck" by simp_all
    then have "q \<in> insert (Server_At ws k) (range (\<lambda>x. Server_At (ws @ [x]) k))"
      using assms r subsetD [OF next_points_wait]
      by (simp only: server_threads_def server_point.case prod.case outcome.case if_False simp_thms)
    then show ?thesis by blast
  qed
qed

lemma session_reaches:
  "reaches (server_threads srv ses) (Session_At fd j []) p \<Longrightarrow>
   (\<exists>ws. p = Session_At fd j ws) \<or> p = Ended \<and> (\<exists>ws. fst (ses fd j ws) = Val True)"
proof (induction rule: rtranclp_induct)
  case (step p q)
  have s: "q \<in> next_points (server_threads srv ses p)" using step.hyps(2) by (simp add: point_step_def)
  from step.IH consider (run) ws where "p = Session_At fd j ws" | (over) "p = Ended" by blast
  then show ?case
  proof cases
    case run
    obtain r l where r: "ses fd j ws = (r, l)" by (rule prod.exhaust)
    then show ?thesis using session_next [where srv = srv, OF r s [unfolded run]] by (metis fst_conv)
  next
    case over
    then show ?thesis using s by (simp add: server_threads_def next_points_def)
  qed
qed simp

lemma session_spawns_none: "server_threads srv ses (Session_At fd j ws) \<noteq> Spawn s k" "server_threads srv ses Ended \<noteq> Spawn s k"
  by (auto simp: server_threads_def split: prod.split outcome.split)

lemma server_reaches:
  "reaches (server_threads srv ses) (Server_At [] 0) p \<Longrightarrow> \<exists>ws k c. p = Server_At ws k \<or> p = Server_Spawned ws k c \<or> p = Ended"
proof (induction rule: rtranclp_induct)
  case (step p q)
  have s: "q \<in> next_points (server_threads srv ses p)" using step.hyps(2) by (simp add: point_step_def)
  from step.IH consider (run) ws k where "p = Server_At ws k" | (spawned) ws k c where "p = Server_Spawned ws k c" | (over) "p = Ended"
    by blast
  then show ?case
  proof cases
    case run
    then show ?thesis using server_next s by blast
  qed (use s in \<open>auto simp: server_threads_def next_points_def\<close>)
qed blast

text \<open>The points at which a thread may start: the server, and a session for a connection that the server has accepted.\<close>

definition accepted :: "server_part \<Rightarrow> int \<Rightarrow> nat \<Rightarrow> bool" where
  "accepted srv fd j \<longleftrightarrow> (\<exists>ws r l started. srv ws = (r, l, started) \<and> j < length started \<and> fd = started ! j)"

definition server_starts :: "server_part \<Rightarrow> server_point set" where
  "server_starts srv = insert (Server_At [] 0) {Session_At fd j [] | fd j. accepted srv fd j}"

lemma server_startsE:
  assumes "s \<in> server_starts srv"
  obtains (server) "s = Server_At [] 0" | (session) fd j where "s = Session_At fd j []" "accepted srv fd j"
  using assms by (auto simp: server_starts_def)

lemma threads_spawn_closed: "spawn_closed (server_threads srv ses) (server_starts srv)"
  unfolding spawn_closed_def
proof (intro allI impI)
  fix s p s' k
  assume s: "s \<in> server_starts srv" "reaches (server_threads srv ses) s p" "server_threads srv ses p = Spawn s' k"
  then have "s = Server_At [] 0"
    using session_reaches session_spawns_none by (elim server_startsE) blast+
  then obtain ws i c where p: "p = Server_At ws i \<or> p = Server_Spawned ws i c \<or> p = Ended" using server_reaches s(2) by blast
  then have p: "p = Server_At ws i" using s(3) by (auto simp: server_threads_def)
  obtain r l started where r: "srv ws = (r, l, started)" by (metis prod.collapse)
  have "i < length started" "s' = Session_At (started ! i) i []"
    using s(3) r unfolding p by (auto simp: server_threads_def split: if_splits outcome.splits)
  then show "s' \<in> server_starts srv" using r unfolding server_starts_def accepted_def by blast
qed

lemma tidy_threads: "tidy (\<lambda>p. \<forall>ws k c. p \<noteq> Server_Spawned ws k c) (server_threads srv ses)"
  unfolding tidy_def
proof (intro allI impI)
  fix p assume p: "\<forall>ws k c. p \<noteq> Server_Spawned ws k c"
  show "tidy_at (\<lambda>p. \<forall>ws k c. p \<noteq> Server_Spawned ws k c) (server_threads srv ses) p"
    using p by (cases p)
      (auto simp: tidy_at_def server_threads_def wait_action_def schedules_new_def
        split: prod.split outcome.split option.split call.split)
qed

text \<open>
  What holds of a coroutine at any time: it is the server, or it is the session of a connection that the server has
  accepted; and when a session is dead, then \<open>good\<close> holds of its connection.
\<close>

definition accounted :: "server_part \<Rightarrow> (int \<Rightarrow> nat \<Rightarrow> bool) \<Rightarrow> server_point \<Rightarrow> bool \<Rightarrow> bool" where
  "accounted srv good p dead \<longleftrightarrow>
     p = Server_At [] 0 \<or> (\<exists>fd j. p = Session_At fd j [] \<and> accepted srv fd j \<and> (dead \<longrightarrow> good fd j))"

lemma session_at_end:
  assumes "reaches (server_threads srv ses) (Session_At fd j []) q" "at_end (server_threads srv ses) q"
  shows "\<exists>ws. fst (ses fd j ws) \<noteq> Stuck"
proof -
  obtain ws where ws: "q = Session_At fd j ws \<or> q = Ended \<and> fst (ses fd j ws) = Val True"
    using session_reaches [OF assms(1)] by blast
  show ?thesis
  proof (cases "q = Ended")
    case False
    then have q: "q = Session_At fd j ws" using ws by blast
    obtain r l where r: "ses fd j ws = (r, l)" by (rule prod.exhaust)
    have "r \<noteq> Stuck"
    proof
      assume "r = Stuck"
      then obtain c k p' where "server_threads srv ses q = wait_action c k p'" unfolding q server_threads_def using r by auto
      then show False using assms(2) by (simp add: at_end_def wait_action_goes_on)
    qed
    then show ?thesis using r by (intro exI [of _ ws]) simp
  qed (use ws in \<open>auto intro!: exI [of _ ws]\<close>)
qed

text \<open>The loop is told to end only by a session that calls \<open>coro::exit\<close>.\<close>

lemma exit_by_session:
  assumes "x \<in> server_starts srv" "reaches (server_threads srv ses) x q" "server_threads srv ses q = Exit k"
  shows "\<exists>fd j ws. accepted srv fd j \<and> fst (ses fd j ws) = Val True"
  using assms(1)
proof (cases rule: server_startsE)
  case server
  then obtain ws i c where "q = Server_At ws i \<or> q = Server_Spawned ws i c \<or> q = Ended" using server_reaches assms(2) by blast
  then show ?thesis using assms(3) by (auto simp: server_threads_def split: prod.splits outcome.splits if_splits)
next
  case (session fd j)
  then obtain ws where "q = Session_At fd j ws \<or> q = Ended" using session_reaches assms(2) by blast
  then have q: "q = Session_At fd j ws" using assms(3) by (auto simp: server_threads_def)
  obtain r l where r: "ses fd j ws = (r, l)" by (rule prod.exhaust)
  have "r = Val True" using assms(3) r unfolding q server_threads_def by (cases r) (auto split: if_splits)
  then show ?thesis using r session(2) by (metis fst_conv)
qed

lemma threads_can_exit:
  "can_exit (server_threads srv ses) (server_starts srv) \<Longrightarrow> \<exists>fd j ws. accepted srv fd j \<and> fst (ses fd j ws) = Val True"
  unfolding can_exit_def using exit_by_session by blast

lemma threads_accounted:
  assumes "s \<in> server_starts srv"
    and "dead \<Longrightarrow> \<exists>q. reaches (server_threads srv ses) s q \<and> at_end (server_threads srv ses) q"
    and "\<And>fd j ws. accepted srv fd j \<Longrightarrow> fst (ses fd j ws) \<noteq> Stuck \<Longrightarrow> good fd j"
  shows "accounted srv good s dead"
  using assms(1)
proof (cases rule: server_startsE)
  case (session fd j)
  have "good fd j" if "dead"
    using assms(2) [OF that] assms(3) session session_at_end by blast
  then show ?thesis using session by (simp add: accounted_def)
qed (simp add: accounted_def)

subsection \<open>The programs\<close>

text \<open>The threads of the echo program are those of the server and \<open>thing\<close>.\<close>

definition program_starts :: "server_part \<Rightarrow> (server_point + thing) set" where
  "program_starts srv = Inl ` server_starts srv \<union> range Inr"

lemma next_points_map: "next_points (map_action f a) = f ` next_points a"
  by (cases a) (auto simp: next_points_def)

lemma reaches_server_code:
  "reaches (server_code code) (Inl s) p \<Longrightarrow> \<exists>q. p = Inl q \<and> reaches code s q"
proof (induction rule: rtranclp_induct)
  case (step p p')
  then obtain q where q: "p = Inl q" "reaches code s q" by blast
  then have "p' \<in> Inl ` next_points (code q)"
    using step.hyps(2) by (simp add: point_step_def server_code_def next_points_map)
  then show ?case using reaches_step [OF q(2)] by blast
qed blast

lemma reaches_thing: "reaches (server_code code) (Inr t) p \<Longrightarrow> \<exists>t'. p = Inr t'"
proof (induction rule: rtranclp_induct)
  case (step p p')
  then obtain t' where "p = Inr t'" by blast
  then show ?case using step.hyps(2) by (auto simp: point_step_def server_code_def next_points_map)
qed blast

lemma thing_actions: "map_action Inr (thing_thread t) \<noteq> Spawn s k" "map_action Inr (thing_thread t) \<noteq> Exit p"
  "map_action Inr (thing_thread t) \<noteq> Finish" "map_action Inr (thing_thread t) \<noteq> Uncaught"
  by (cases t; simp)+

lemma map_action_spawn: "map_action f a = Spawn s' k \<Longrightarrow> \<exists>s k'. a = Spawn s k' \<and> s' = f s"
  by (cases a) auto

lemma server_code_actions:
  "server_code code (Inl q) = Spawn s' k \<Longrightarrow> \<exists>s k'. code q = Spawn s k' \<and> s' = Inl s"
  "server_code code (Inl q) = Exit p \<Longrightarrow> \<exists>p'. code q = Exit p'"
  "server_code code (Inr t) \<noteq> Spawn s' k" "server_code code (Inr t) \<noteq> Exit p"
  using map_action_spawn [of Inl "code q"] by (cases "code q"; simp add: server_code_def thing_actions)+

lemma at_end_map: "at_end (server_code code) (Inl q) = at_end code q"
  by (cases "code q") (simp_all add: at_end_def server_code_def)

lemma program_spawn_closed: "spawn_closed (server_code (server_threads srv ses)) (program_starts srv)"
  unfolding spawn_closed_def
proof (intro allI impI)
  let ?code = "server_threads srv ses"
  fix s p s' k
  assume s: "s \<in> program_starts srv" "reaches (server_code ?code) s p" "server_code ?code p = Spawn s' k"
  show "s' \<in> program_starts srv"
  proof (cases s)
    case (Inl x)
    then have x: "x \<in> server_starts srv" using s(1) by (auto simp: program_starts_def)
    obtain q where q: "p = Inl q" "reaches ?code x q" using reaches_server_code [OF s(2) [unfolded Inl]] by blast
    obtain y k' where y: "?code q = Spawn y k'" "s' = Inl y" using server_code_actions(1) [OF s(3) [unfolded q(1)]] by blast
    have "y \<in> server_starts srv" by (rule threads_spawn_closed [unfolded spawn_closed_def, rule_format, OF x q(2) y(1)])
    then show ?thesis by (simp add: y(2) program_starts_def)
  next
    case (Inr t)
    then show ?thesis using reaches_thing s(2,3) server_code_actions(3) by blast
  qed
qed

text \<open>What holds of a coroutine of the echo program: it is \<open>thing\<close>, or it is accounted for.\<close>

definition coro_accounted :: "server_part \<Rightarrow> (int \<Rightarrow> nat \<Rightarrow> bool) \<Rightarrow> (server_point + thing) coro \<Rightarrow> bool" where
  "coro_accounted srv good co \<longleftrightarrow>
     (case co_start co of Inr t \<Rightarrow> True | Inl p \<Rightarrow> accounted srv good p (co_dead co))"

lemma on_course_accounted:
  assumes "on_course (server_code (server_threads srv ses)) (program_starts srv) co"
    and "\<And>fd j ws. accepted srv fd j \<Longrightarrow> fst (ses fd j ws) \<noteq> Stuck \<Longrightarrow> good fd j"
  shows "coro_accounted srv good co"
proof (cases "co_start co")
  case (Inl p)
  have "accounted srv good p (co_dead co)"
  proof (rule threads_accounted [where ses = ses])
    show "p \<in> server_starts srv" using assms(1) Inl by (auto simp: on_course_def program_starts_def)
    show "\<exists>q. reaches (server_threads srv ses) p q \<and> at_end (server_threads srv ses) q" if "co_dead co"
      using assms(1) that Inl at_end_map reaches_server_code unfolding on_course_def by metis
  qed (rule assms(2))
  then show ?thesis using Inl by (simp add: coro_accounted_def)
qed (simp add: coro_accounted_def)

lemma program_can_exit:
  assumes "can_exit (server_code (server_threads srv ses)) (program_starts srv)"
  shows "\<exists>fd j ws. accepted srv fd j \<and> fst (ses fd j ws) = Val True"
proof -
  obtain s p k where s: "s \<in> program_starts srv" "reaches (server_code (server_threads srv ses)) s p"
    "server_code (server_threads srv ses) p = Exit k"
    using assms by (auto simp: can_exit_def)
  show ?thesis
  proof (cases s)
    case (Inr t)
    then show ?thesis using reaches_thing s(2,3) server_code_actions(4) by blast
  next
    case (Inl x)
    obtain q where q: "p = Inl q" "reaches (server_threads srv ses) x q" using reaches_server_code [OF s(2) [unfolded Inl]] by blast
    obtain k' where "server_threads srv ses q = Exit k'" using server_code_actions(2) [OF s(3) [unfolded q(1)]] by blast
    moreover have "x \<in> server_starts srv" using s(1) Inl by (auto simp: program_starts_def)
    ultimately show ?thesis using exit_by_session q(2) by blast
  qed
qed

text \<open>
  The whole run of the two kinds of \<open>main\<close>, on a poller that keeps the contract of theory \<open>Wakeups\<close>, when a session
  that ends has done \<open>good\<close> to its connection.
\<close>

lemma all_on_course_spawned: "all_on_course code S w \<Longrightarrow> s \<in> S \<Longrightarrow> all_on_course code S (spawned s v w)"
  using all_on_course_new [of code S w s] by (simp add: all_on_course_def spawned_def Let_def)

lemma server_main_serves:
  assumes "waking_poller vt waits ok faults" "ok p" "waits p = {#}"
    and good: "\<And>fd j ws. accepted srv fd j \<Longrightarrow> fst (ses fd j ws) \<noteq> Stuck \<Longrightarrow> good fd j"
    and "server_main vt l r n (server_threads srv ses) (Server_At [] 0) (init_world clock malloc p) = (x, w')"
  shows "ends_with x (insert no_memory faults - range Undef) (faults \<inter> range Undef)
    \<and> list_all (coro_accounted srv good) (w_coros w')
    \<and> (x = Val None \<longrightarrow> (\<exists>fd j ws. accepted srv fd j \<and> fst (ses fd j ws) = Val True))"
proof (intro conjI impI)
  let ?code = "server_code (server_threads srv ses)"
  let ?w = "spawned (Inr (Thing_Begin 99)) 0 (spawned (Inl (Server_At [] 0)) 0 (init_world clock malloc p))"
  show "ends_with x (insert no_memory faults - range Undef) (faults \<inter> range Undef)"
    using server_main_ends [OF assms(1-3) tidy_threads, of "Server_At [] 0" l r n srv ses clock malloc] assms(5) by simp
  have pl: "poller vt" using assms(1) by (simp add: waking_poller_def)
  obtain y where e: "event_loop l r n vt ?code ?w = (y, w')" and y: "x = Val None \<Longrightarrow> y = Val ()"
    using assms(5)
    by (auto simp: server_main_def bindS_Val [OF start_coro_spawned] catch_all_def
        split: prod.splits outcome.splits exn.splits)
  have w: "all_on_course ?code (program_starts srv) ?w"
    by (intro all_on_course_spawned all_on_course_init) (auto simp: program_starts_def server_starts_def)
  have wf: "wf_world ?w" by (intro spawned_wf wf_init_world)
  have c: "all_on_course ?code (program_starts srv) w'"
    by (rule poller.event_loop_on_course [OF pl program_spawn_closed wf w e])
  then show "list_all (coro_accounted srv good) (w_coros w')"
    using on_course_accounted good by (auto simp: all_on_course_def list_all_iff)
  show "\<exists>fd j ws. accepted srv fd j \<and> fst (ses fd j ws) = Val True" if "x = Val None"
  proof -
    have "w_exit w'" using poller.event_loop_keeps [OF pl _ wf] e y [OF that] by simp
    then show ?thesis using c program_can_exit by (simp add: all_on_course_def)
  qed
qed

lemma smtp_main_serves:
  assumes "waking_poller vt waits ok faults" "ok p" "waits p = {#}"
    and good: "\<And>fd j ws. accepted srv fd j \<Longrightarrow> fst (ses fd j ws) \<noteq> Stuck \<Longrightarrow> good fd j"
    and "smtp_main vt l r n (server_threads srv ses) (Server_At [] 0) (init_world clock malloc p) = (x, w')"
  shows "throws_only x (insert no_memory faults)
    \<and> list_all (\<lambda>co. accounted srv good (co_start co) (co_dead co)) (w_coros w')
    \<and> (x = Val () \<longrightarrow> (\<exists>fd j ws. accepted srv fd j \<and> fst (ses fd j ws) = Val True))"
proof (intro conjI impI)
  let ?code = "server_threads srv ses" and ?w = "spawned (Server_At [] 0) 0 (init_world clock malloc p)"
  show "throws_only x (insert no_memory faults)"
    using waking_poller.smtp_main_ends [OF assms(1-3) tidy_threads, of "Server_At [] 0" l r n srv ses clock malloc] assms(5) by simp
  have pl: "poller vt" using assms(1) by (simp add: waking_poller_def)
  have e: "event_loop l r n vt ?code ?w = (x, w')"
    using assms(5) by (simp add: smtp_main_def bindS_Val [OF start_coro_spawned])
  have w: "all_on_course ?code (server_starts srv) ?w"
    by (intro all_on_course_spawned all_on_course_init) (simp add: server_starts_def)
  have wf: "wf_world ?w" by (intro spawned_wf wf_init_world)
  have c: "all_on_course ?code (server_starts srv) w'"
    by (rule poller.event_loop_on_course [OF pl threads_spawn_closed wf w e])
  have "accounted srv good (co_start co) (co_dead co)" if "on_course ?code (server_starts srv) co" for co
    using that good by (intro threads_accounted [where ses = ses]) (auto simp: on_course_def)
  then show "list_all (\<lambda>co. accounted srv good (co_start co) (co_dead co)) (w_coros w')"
    using c by (auto simp: all_on_course_def list_all_iff)
  show "\<exists>fd j ws. accepted srv fd j \<and> fst (ses fd j ws) = Val True" if "x = Val ()"
    using poller.event_loop_keeps [OF pl _ wf] e c that threads_can_exit by (auto simp: all_on_course_def)
qed

subsection \<open>The connections\<close>

lemma accept_loop_positive:
  assumes "\<And>e c e1. acc e = (Val c, e1) \<Longrightarrow> 0 < c"
  shows "accept_loop n acc (e, started) = (r, (e', started')) \<Longrightarrow> \<forall>c \<in> set started. 0 < c \<Longrightarrow> \<forall>c \<in> set started'. 0 < c"
proof (induction n arbitrary: e started)
  case (Suc n)
  obtain x e1 where x: "acc e = (x, e1)" by (rule prod.exhaust)
  then show ?case using Suc.IH [of e1 "started @ [_]"] Suc.prems assms by (cases x) auto
qed simp

lemma on_io_started: "on_io m s = (r, s') \<Longrightarrow> snd s' = snd s"
  by (auto simp: on_io_def split: prod.splits)

lemma serve_on_positive:
  assumes acc: "\<And>s e c e1. acc s e = (Val c, e1) \<Longrightarrow> 0 < c"
    and "serve_on mk listen acc n (e, []) = (x, (e', started))" "c \<in> set started"
  shows "0 < c"
proof -
  obtain y s1 where y: "on_io mk (e, [] :: int list) = (y, s1)" by (rule prod.exhaust)
  note s1 = on_io_started [OF y]
  show ?thesis
  proof (cases y)
    case (Val s)
    obtain z s2 where z: "on_io (listen s) s1 = (z, s2)" by (rule prod.exhaust)
    note s2 = on_io_started [OF z]
    show ?thesis
    proof (cases z)
      case (Val u)
      then have "accept_loop n (acc s) (fst s2, []) = (x, (e', started))"
        using assms(2) y z s1 s2 \<open>y = Val s\<close> by (cases s2) (simp add: serve_on_def bindS_def del: accept_loop.simps)
      from accept_loop_positive [of "acc s", OF acc this] show ?thesis using assms(3) by simp
    qed (use assms(2,3) y z s1 s2 Val in \<open>auto simp: serve_on_def bindS_def\<close>)
  qed (use assms(2,3) y s1 in \<open>auto simp: serve_on_def bindS_def\<close>)
qed

lemma cs_accept_positive:
  assumes "cs_accept fd e = (Val c, e1)"
  shows "0 < c"
proof -
  obtain d e2 where a: "accept_fd fd e = (Val d, e2)" and n: "new_socket d PF_INET SOCK_STREAM 0 e2 = (Val c, e1)"
    using assms by (auto simp: cs_accept_def bindS_iffs)
  have "0 < d" using accept_fd_log [OF a] by simp
  then show ?thesis using n by (simp add: new_socket_def)
qed

lemma serve_positive: "serve n port zero (e, []) = (x, (e', started)) \<Longrightarrow> c \<in> set started \<Longrightarrow> 0 < c"
  unfolding serve_def by (rule serve_on_positive [OF cs_accept_positive])

subsection \<open>The answers of the kernel\<close>

text \<open>
  What the kernel answers to each thread, one list for the server and one for each session, and the port.  The wake-ups are those of the scheduler.
\<close>

record server_env =
  env_server :: io
  env_session :: "nat \<Rightarrow> io"
  env_port :: "16 word"
  env_zero :: "byte list"

definition asleep :: "io \<Rightarrow> io" where
  "asleep e = e\<lparr>io_wakes := []\<rparr>"

lemma of_asleep [simp]:
  "received fd (more_wakes ws (asleep e)) = received fd e" "sent fd (more_wakes ws (asleep e)) = sent fd e"
  "closes fd (more_wakes ws (asleep e)) = closes fd e" "to_come (more_wakes ws e) = to_come e"
  by (simp_all add: received_def sent_def asleep_def closes_def to_come_def)

text \<open>A server or a session on these answers.\<close>

definition server_part_of :: "(io \<times> int list, unit) op \<Rightarrow> io \<Rightarrow> server_part" where
  "server_part_of m e0 ws =
     (case m (more_wakes ws (asleep e0), []) of (r, e, started) \<Rightarrow> (r, io_log e, started))"

definition session_part_of :: "('a \<Rightarrow> bool) \<Rightarrow> (int \<Rightarrow> nat \<Rightarrow> wakes \<Rightarrow> 'a outcome \<times> io) \<Rightarrow> session_part" where
  "session_part_of stops run fd j ws = (case run fd j ws of (r, e) \<Rightarrow> (map_outcome stops r, io_log e))"

lemma session_part_of_simps:
  "fst (session_part_of stops run fd j ws) = Stuck \<longleftrightarrow> fst (run fd j ws) = Stuck"
  "fst (session_part_of stops run fd j ws) = Val b \<longleftrightarrow> (\<exists>x. fst (run fd j ws) = Val x \<and> b = stops x)"
  by (cases "run fd j ws"; cases "fst (run fd j ws)"; auto simp: session_part_of_def)+

lemma server_part_replays:
  assumes "wsrv.causal m"
  shows "replays (\<lambda>ws. (fst (server_part_of m e0 ws), fst (snd (server_part_of m e0 ws))))"
  using wsrv.causal_replays [OF assms, of "(asleep e0, [])"] by (simp add: server_part_of_def case_prod_beta)

lemma server_part_positive:
  assumes "\<And>e x e' started c. m (e, []) = (x, (e', started)) \<Longrightarrow> c \<in> set started \<Longrightarrow> 0 < c"
    and "accepted (server_part_of m e0) fd j"
  shows "0 < fd"
proof -
  obtain ws r l started where a: "server_part_of m e0 ws = (r, l, started)" "j < length started" "fd = started ! j"
    using assms(2) by (auto simp: accepted_def)
  then obtain e where "m (more_wakes ws (asleep e0), []) = (r, (e, started))"
    by (auto simp: server_part_of_def split: prod.splits)
  then show ?thesis using assms(1) nth_mem [OF a(2)] a(3) by blast
qed

end
