(* ===== verification/Echo_Program.thy ===== *)
theory Echo_Program
  imports Server_Program
begin

section \<open>The echo server as a whole program\<close>

text \<open>
  The threads of \<open>demo/echo_server.cc\<close> on the scheduler: \<open>echo_server\<close>, which spawns a coroutine for each connection, its sessions
  and \<open>thing\<close>, as an instance of theory \<open>Server_Program\<close>.  The answers of the kernel are a parameter, the record \<open>echo_env\<close>, which
  also has the line that \<open>bench\<close> prints.
\<close>

record echo_env = server_env +
  env_bench :: "io \<Rightarrow> byte list"

text \<open>
  The runs up to the wait after the given wake-ups.  The fuel is above what the kernel still gives
  (\<open>echo_session_ends\<close>), so a run is stuck only where it waits or the kernel does not answer.
\<close>

definition echo_server_part :: "echo_env \<Rightarrow> server_part" where
  "echo_server_part env ws =
     server_part_of (echo_server (Suc (length (io_answers (env_server env)))) (env_port env) (env_zero env)) (env_server env) ws"

definition session_run_on ::
    "(nat \<Rightarrow> nat \<Rightarrow> int \<Rightarrow> (io \<Rightarrow> byte list) \<Rightarrow> (io, echo_end option) op) \<Rightarrow> echo_env
      \<Rightarrow> int \<Rightarrow> nat \<Rightarrow> wakes \<Rightarrow> echo_end option outcome \<times> io" where
  "session_run_on session env fd j ws =
     (let e = env_session env j
      in session (Suc (to_come e)) (to_come e + 2) fd (env_bench env) (more_wakes ws (asleep e)))"

definition session_run :: "echo_env \<Rightarrow> int \<Rightarrow> nat \<Rightarrow> wakes \<Rightarrow> echo_end option outcome \<times> io" where
  "session_run = session_run_on echo_session"

lemma session_run_on_replays:
  assumes "\<And>n g. wio.causal (session n g fd (env_bench env))"
  shows "replays (\<lambda>ws. (fst (session_run_on session env fd j ws), io_log (snd (session_run_on session env fd j ws))))"
  unfolding session_run_on_def Let_def by (rule wio.causal_replays) (rule assms)

lemma session_part_returns:
  assumes "fst (session_part_of stops (session_run_on session env) fd j ws) \<noteq> Stuck"
    and "\<And>n g e ex e'. session n g fd (env_bench env) e \<noteq> (Raise ex, e')"
  obtains x e where "session_run_on session env fd j ws = (Val x, e)"
proof -
  obtain r e where r: "session_run_on session env fd j ws = (r, e)" by (rule prod.exhaust)
  then show ?thesis
    using assms that session_part_of_simps(1) [of stops "session_run_on session env" fd j ws]
    by (cases r) (auto simp: session_run_on_def Let_def)
qed

definition echo_session_part :: "echo_env \<Rightarrow> session_part" where
  "echo_session_part env = session_part_of (\<lambda>x. x = Some At_Shutdown) (session_run env)"

definition echo_code :: "echo_env \<Rightarrow> server_point \<Rightarrow> server_point action" where
  "echo_code env = server_threads (echo_server_part env) (echo_session_part env)"

subsection \<open>The replay is faithful\<close>


subsection \<open>The program\<close>

text \<open>\<open>echo_session\<close> catches everything, so it throws nothing itself.\<close>

lemma echo_session_no_raise: "echo_session n g fd bench e \<noteq> (Raise ex, e')"
  using cf_destroy_no_raise by (auto simp: echo_session_def bindS_iffs split: prod.splits outcome.splits)

text \<open>What the program may do with a connection: the session as its specification says.\<close>

definition served_well :: "echo_env \<Rightarrow> int \<Rightarrow> nat \<Rightarrow> bool" where
  "served_well env fd j \<longleftrightarrow>
     (\<exists>ws x e. session_run env fd j ws = (Val x, e)
       \<and> closes fd e = closes fd (env_session env j) + 1
       \<and> (x \<noteq> None \<longrightarrow> (\<exists>lines outs rest. received fd e = received fd (env_session env j) @ concat lines @ rest
           \<and> sent fd e = sent fd (env_session env j) @ concat outs \<and> list_all2 echo_reply lines outs \<and> list_all is_line lines)))"

lemma run_served_well:
  assumes "fst (session_run env fd j ws) = Val x" "fd \<noteq> - 1"
  shows "served_well env fd j"
proof -
  obtain e where e: "session_run env fd j ws = (Val x, e)" using assms(1) by (metis prod.collapse)
  note run = e [unfolded session_run_def session_run_on_def Let_def]
  have "closes fd e = closes fd (env_session env j) + 1"
    using session_closes_once [OF run assms(2)] by simp
  moreover have "\<exists>lines outs rest. received fd e = received fd (env_session env j) @ concat lines @ rest
      \<and> sent fd e = sent fd (env_session env j) @ concat outs \<and> list_all2 echo_reply lines outs \<and> list_all is_line lines"
    if "x = Some y" for y
  proof -
    show ?thesis using session_echoes [OF run [unfolded that]] by simp
  qed
  ultimately show ?thesis using e unfolding served_well_def by blast
qed

lemma echo_server_positive: "echo_server n port zero (e, []) = (x, (e', started)) \<Longrightarrow> c \<in> set started \<Longrightarrow> 0 < c"
  by (cases "serve n port zero (e, [])"; cases "fst (serve n port zero (e, []))")
    (auto simp: echo_server_def echo_handlers_def split: if_splits dest: serve_positive)

lemma accepted_positive: "accepted (echo_server_part env) fd j \<Longrightarrow> 0 < fd"
  unfolding echo_server_part_def [abs_def] by (rule server_part_positive [OF echo_server_positive])

lemma session_part_served:
  assumes "accepted (echo_server_part env) fd j" "fst (echo_session_part env fd j ws) \<noteq> Stuck"
  shows "served_well env fd j"
proof -
  obtain x e where "session_run env fd j ws = (Val x, e)"
    using session_part_returns [OF assms(2) [unfolded echo_session_part_def session_run_def] echo_session_no_raise]
    unfolding session_run_def by blast
  moreover have "fd \<noteq> - 1" using accepted_positive [OF assms(1)] by simp
  ultimately show ?thesis by (intro run_served_well [of env fd j ws x]) simp_all
qed


text \<open>A client that connects and resets the connection.\<close>

definition ex_env :: echo_env where
  "ex_env =
     \<lparr>env_server = ex_io [Num 3, Num 2, Num 0, Num 0, Num 0, Num 0, Num 0, Num 5, Fail 11],
      env_session = (\<lambda>_. ex_io [Fail 104, Num 0]),
      env_port = 9001, env_zero = [], env_bench = (\<lambda>_. [])\<rparr>"

definition ex_main :: "exn option outcome \<times> (server_point + thing, poll_poller) world" where
  "ex_main = server_main pp_vtable 1 3 3 (echo_code ex_env) (Server_At [] 0) (init_world ex_clock (\<lambda>_. True) (new_poll_poller [] []))"


text \<open>A session whose first \<open>read\<close> would block.\<close>

definition ex_env_slow :: echo_env where
  "ex_env_slow = ex_env\<lparr>env_session := (\<lambda>_. ex_io [Fail 11, Data [], Num 0])\<rparr>"


end
