(* ===== verification/Smtp_Server.thy ===== *)
theory Smtp_Server
  imports Echo_Server
begin

section \<open>The SMTP server\<close>

text \<open>
  \<open>demo/smtp_server.cc\<close>: the two string functions, the command loop of \<open>smtp_session\<close> with its state, and
  the coroutine around it.  The host name is a parameter.  \<open>_rcpts\<close> is only ever cleared, as the line
  that would fill it is commented out.  The specification of a session is \<open>smtp_run\<close>, which says what is
  answered to a list of commands, without sockets, buffers and loops.
\<close>

definition str :: "string \<Rightarrow> byte list" where
  "str s = map of_char s"

subsection \<open>Strings\<close>

fun find_first_of :: "byte list \<Rightarrow> byte list \<Rightarrow> nat option" where
  "find_first_of [] chars = None"
| "find_first_of (x # xs) chars = (if x \<in> set chars then Some 0 else map_option Suc (find_first_of xs chars))"

definition find_last_of :: "byte list \<Rightarrow> byte list \<Rightarrow> nat option" where
  "find_last_of xs chars = map_option (\<lambda>k. length xs - Suc k) (find_first_of (rev xs) chars)"

definition substr :: "byte list \<Rightarrow> nat \<Rightarrow> 64 word \<Rightarrow> byte list" where
  "substr s pos len = take (unat len) (drop pos s)"

definition split_first :: "byte list \<Rightarrow> byte list \<Rightarrow> byte list \<times> nat" where
  "split_first source delims =
     (case find_first_of source delims of None \<Rightarrow> ([], 0) | Some i \<Rightarrow> (substr source 0 (of_nat i), i))"

text \<open>\<open>result\<close> is the string before the call; the values are of type \<open>size_type\<close>, so the difference wraps.\<close>

definition find_email_addr :: "byte list \<Rightarrow> byte list \<Rightarrow> byte list \<times> 64 word" where
  "find_email_addr result line =
     (case (find_first_of line (str ''<''), find_last_of line (str ''>'')) of
        (Some i, Some j) \<Rightarrow> (substr line (i + 1) (of_nat j - 1), of_nat j - of_nat i - 2)
      | _ \<Rightarrow> (result, 0))"

definition tolower :: "byte \<Rightarrow> byte" where
  "tolower c = (if 65 \<le> c \<and> c \<le> 90 then c + 32 else c)"

subsection \<open>The session\<close>

record smtp =
  ss_env_from :: "byte list"
  ss_rcpts :: "byte list list"

text \<open>
  \<open>set_hostname\<close> hands a buffer of 1024 bytes on the stack to \<open>gethostname\<close>, which is a parameter: what it writes to a buffer of
  the given size, nothing when it fails.  Its result is not looked at, and the buffer is then read as a string.
\<close>

definition set_hostname :: "(nat \<Rightarrow> byte list) \<Rightarrow> byte list \<Rightarrow> byte list outcome" where
  "set_hostname gethostname stack =
     (let written = gethostname 1024; buffer = written @ drop (length written) stack
      in if 0 \<in> set buffer then Val (takeWhile (\<lambda>c. c \<noteq> 0) buffer) else Raise (Undef Out_Of_Bounds))"

definition send_reply :: "int \<Rightarrow> byte list \<Rightarrow> (io buf, unit) op" where
  "send_reply fd c = on_file (cf_write fd (c @ CRLF))"

definition smtp_command ::
    "byte list \<Rightarrow> nat \<Rightarrow> int \<Rightarrow> byte list \<Rightarrow> byte list \<Rightarrow> smtp \<Rightarrow> (io buf, smtp option) op" where
  "smtp_command host g fd command line ss =
     (if command = str ''quit'' then
        bindS (send_reply fd (str ''221 bye.'')) (\<lambda>_. bindS (on_file (cf_close fd)) (\<lambda>_. ret None))
      else if command = str ''rcpt'' then
        if length (ss_env_from ss) \<noteq> 0 then
          if snd (find_email_addr [] line) > 0
          then bindS (send_reply fd (str ''250 Ok'')) (\<lambda>_. ret (Some ss))
          else bindS (send_reply fd (str ''501 Syntax Error'')) (\<lambda>_. ret (Some ss))
        else bindS (send_reply fd (str ''503 send MAIL command first'')) (\<lambda>_. ret (Some ss))
      else if command = str ''helo'' then
        bindS (send_reply fd (str ''250 '' @ host)) (\<lambda>_. ret (Some ss))
      else if command = str ''ehlo'' then
        bindS (send_reply fd (str ''250-'' @ host @ CRLF @ str ''250-PIPELINING'' @ CRLF @ str ''250 8BITMIME''))
          (\<lambda>_. ret (Some ss))
      else if command = str ''mail'' then
        (let found = find_email_addr (ss_env_from ss) line; ss' = ss\<lparr>ss_env_from := fst found\<rparr> in
         if snd found > 0
         then bindS (send_reply fd (str ''250 Ok'')) (\<lambda>_. ret (Some ss'))
         else bindS (send_reply fd (str ''501 Syntax Error'')) (\<lambda>_. ret (Some ss')))
      else if command = str ''data'' then
        bindS (send_reply fd (str ''354 Ok'')) (\<lambda>_.
          bindS (get_list g (cf_read fd) DOT_LINE []) (\<lambda>_.
            bindS (send_reply fd (str ''250 Ok'')) (\<lambda>_. ret (Some (ss\<lparr>ss_env_from := [], ss_rcpts := []\<rparr>)))))
      else if command = str ''rset'' then
        bindS (send_reply fd (str ''250 Ok'')) (\<lambda>_. ret (Some (ss\<lparr>ss_env_from := [], ss_rcpts := []\<rparr>)))
      else bindS (send_reply fd (str ''502 command not implemented'')) (\<lambda>_. ret (Some ss)))"

definition DELIMS :: "byte list" where "DELIMS = [32, 9, 13, 10]"

definition command_of :: "byte list \<Rightarrow> byte list" where
  "command_of line = map tolower (fst (split_first line DELIMS))"

fun smtp_loop :: "nat \<Rightarrow> nat \<Rightarrow> byte list \<Rightarrow> int \<Rightarrow> smtp \<Rightarrow> (io buf, unit) op" where
  "smtp_loop 0 g host fd ss s = (Stuck, s)"
| "smtp_loop (Suc n) g host fd ss s =
     bindS (get_string g (cf_read fd) CRLF) (\<lambda>r.
       let line = snd r in
       bindS (smtp_command host g fd (command_of line) line ss) (\<lambda>x.
         case x of None \<Rightarrow> ret () | Some ss' \<Rightarrow> smtp_loop n g host fd ss')) s"

lemmas smtp_loop_numeral = smtp_loop.simps(2) [of "pred_numeral k" for k, folded numeral_eq_Suc]

definition smtp_go :: "nat \<Rightarrow> nat \<Rightarrow> byte list \<Rightarrow> int \<Rightarrow> (io buf, unit) op" where
  "smtp_go n g host fd =
     bindS (send_reply fd (str ''250 '' @ host @ str '' SMTP''))
       (\<lambda>_. smtp_loop n g host fd \<lparr>ss_env_from = [], ss_rcpts = []\<rparr>)"

text \<open>
  \<open>smtp_session_entry\<close>: the session object deletes its socket when it is destroyed, and when an exception
  leaves \<open>go\<close> that happens before the handler runs, which then uses the socket.
\<close>

definition smtp_session_entry :: "nat \<Rightarrow> nat \<Rightarrow> byte list \<Rightarrow> int \<Rightarrow> (io, unit) op" where
  "smtp_session_entry n g host fd e =
     (case smtp_go n g host fd ([], e) of
        (Val _, (_, e1)) \<Rightarrow> bindS (cf_destroy (- 1)) (\<lambda>_. ret ()) e1
      | (Raise ex, (_, e1)) \<Rightarrow> bindS (cf_destroy fd) (\<lambda>_. raise (Undef Use_After_Free)) e1
      | (Stuck, (_, e1)) \<Rightarrow> (Stuck, e1))"

text \<open>\<open>smtp_server\<close> does what \<open>echo_server\<close> does, without handlers.\<close>

definition smtp_server :: "nat \<Rightarrow> 16 word \<Rightarrow> byte list \<Rightarrow> (io \<times> int list, unit) op" where
  "smtp_server n port sin_zero = serve n port sin_zero"

subsection \<open>The host name\<close>

text \<open>
  a flaw.  A host name that fits with its terminator is taken as it is.  One that does not, which \<open>gethostname\<close> may cut without
  terminating it, is read past the end of the buffer; and when \<open>gethostname\<close> fails the name is what was on the stack.
\<close>

theorem set_hostname_fits:
  assumes "0 \<notin> set name" "length stack = 1024"
    and "gethostname 1024 = take 1024 (name @ [0])"
  shows "set_hostname gethostname stack = (if length name < 1024 then Val name else Raise (Undef Out_Of_Bounds))"
proof (cases "length name < 1024")
  case True
  then have "gethostname 1024 = name @ [0]" using assms(3) by simp
  moreover have "takeWhile (\<lambda>c. c \<noteq> 0) (name @ 0 # xs) = name" for xs
    using assms(1) by (induction name) auto
  ultimately show ?thesis using True by (simp add: set_hostname_def Let_def)
next
  case False
  then have "length (take 1024 name) = 1024" "0 \<notin> set (take 1024 name)" using assms(1) by (auto dest: in_set_takeD)
  then show ?thesis using False assms(2,3) by (simp add: set_hostname_def Let_def)
qed

theorem set_hostname_fits_witness:
  "set_hostname (\<lambda>n. take n (str ''mx'' @ [0])) (replicate 1024 7) = Val (str ''mx'')"
  using set_hostname_fits [of "str ''mx''" "replicate 1024 7" "\<lambda>n. take n (str ''mx'' @ [0])"] by (simp add: str_def)

subsection \<open>Addresses\<close>

lemma find_first_of_None: "(\<And>x. x \<in> set xs \<Longrightarrow> x \<notin> set cs) \<Longrightarrow> find_first_of xs cs = None"
  by (induction xs) auto

lemma find_first_of_Some: "(\<And>x. x \<in> set xs \<Longrightarrow> x \<notin> set cs) \<Longrightarrow> c \<in> set cs \<Longrightarrow> find_first_of (xs @ c # ys) cs = Some (length xs)"
  by (induction xs) auto

lemma find_last_of_Some: "(\<And>x. x \<in> set ys \<Longrightarrow> x \<notin> set cs) \<Longrightarrow> c \<in> set cs \<Longrightarrow> find_last_of (xs @ c # ys) cs = Some (length xs)"
  using find_first_of_Some [of "rev ys" cs c "rev xs"] by (simp add: find_last_of_def)

text \<open>
  a flaw.  From a line \<open>p<a>rest\<close> \<open>find_email_addr\<close> does not take the address \<open>a\<close> but \<open>length p\<close> bytes
  more, the closing bracket and what follows it, since the second argument of \<open>substr\<close> is a length; and
  it returns one less than the length of the address, modulo \<open>2 ^ 64\<close>, so that an address of one byte
  is refused and the empty address is accepted.
\<close>

theorem find_email_addr_off:
  assumes "60 \<notin> set p" "62 \<notin> set rest" "length p + length a < 2 ^ 64"
  shows "find_email_addr old (p @ 60 # a @ 62 # rest) = (a @ take (length p) (62 # rest), of_nat (length a) - 1)"
proof -
  have s: "str ''<'' = [60]" "str ''>'' = [62]" by (simp_all add: str_def)
  have i: "find_first_of (p @ 60 # a @ 62 # rest) [60] = Some (length p)"
    using assms(1) by (intro find_first_of_Some) auto
  have j: "find_last_of ((p @ 60 # a) @ 62 # rest) [62] = Some (length (p @ 60 # a))"
    using assms(2) by (intro find_last_of_Some) auto
  have w: "of_nat (length (p @ 60 # a)) - 1 = (of_nat (length p + length a) :: 64 word)" by simp
  have "unat (of_nat (length p + length a) :: 64 word) = length p + length a"
    using assms(3) by (simp only: unat_of_nat) simp
  then have "substr (p @ 60 # a @ 62 # rest) (length p + 1) (of_nat (length (p @ 60 # a)) - 1)
      = a @ take (length p) (62 # rest)"
    unfolding substr_def w by simp
  moreover have "of_nat (length (p @ 60 # a)) - of_nat (length p) - 2 = (of_nat (length a) - 1 :: 64 word)" by simp
  ultimately show ?thesis using i j by (simp add: find_email_addr_def s)
qed

theorem find_email_addr_off_witness:
  "find_email_addr [] (str ''to:<a>xyz'') = (str ''a>xy'', 0) \<and> find_email_addr [] (str ''<>'') = ([], - 1)"
proof -
  have "find_email_addr [] (str ''to:'' @ 60 # str ''a'' @ 62 # str ''xyz'') = (str ''a'' @ take (length (str ''to:'')) (62 # str ''xyz''), of_nat (length (str ''a'')) - 1)"
    by (rule find_email_addr_off) (simp_all add: str_def)
  moreover have "find_email_addr [] [60, 62] = ([], - 1)"
    using find_email_addr_off [of "[]" "[]" "[]" "[]"] by simp
  ultimately show ?thesis by (simp add: str_def)
qed

subsection \<open>The dialogue\<close>

text \<open>
  The specification: what the client sends is a list of inputs, a command line or the \<open>data\<close> command with
  the body, and \<open>smtp_run\<close> gives the state after them and everything the server answers.
\<close>

datatype smtp_input = Line "byte list" | Data_Line "byte list" "byte list"

primrec input_bytes :: "smtp_input \<Rightarrow> byte list" where
  "input_bytes (Line l) = l"
| "input_bytes (Data_Line l body) = l @ body"

definition smtp_answer :: "byte list \<Rightarrow> byte list \<Rightarrow> byte list \<Rightarrow> byte list \<times> byte list" where
  "smtp_answer host env line =
     (let c = command_of line in
      if c = str ''quit'' then (env, str ''221 bye.'')
      else if c = str ''rcpt'' then
        (env, if env = [] then str ''503 send MAIL command first''
              else if snd (find_email_addr [] line) > 0 then str ''250 Ok'' else str ''501 Syntax Error'')
      else if c = str ''helo'' then (env, str ''250 '' @ host)
      else if c = str ''ehlo'' then
        (env, str ''250-'' @ host @ CRLF @ str ''250-PIPELINING'' @ CRLF @ str ''250 8BITMIME'')
      else if c = str ''mail'' then
        (fst (find_email_addr env line),
         if snd (find_email_addr env line) > 0 then str ''250 Ok'' else str ''501 Syntax Error'')
      else if c = str ''data'' then ([], str ''354 Ok'' @ CRLF @ str ''250 Ok'')
      else if c = str ''rset'' then ([], str ''250 Ok'')
      else (env, str ''502 command not implemented''))"

primrec input_line :: "smtp_input \<Rightarrow> byte list" where
  "input_line (Line l) = l"
| "input_line (Data_Line l body) = l"

fun smtp_run :: "byte list \<Rightarrow> byte list \<Rightarrow> smtp_input list \<Rightarrow> byte list" where
  "smtp_run host env [] = []"
| "smtp_run host env (i # is) =
     snd (smtp_answer host env (input_line i)) @ CRLF @ smtp_run host (fst (smtp_answer host env (input_line i))) is"

text \<open>\<open>data\<close> comes with a body, the other commands do not, and \<open>quit\<close> is the last command and only that.\<close>

definition input_ok :: "smtp_input \<Rightarrow> bool" where
  "input_ok i \<longleftrightarrow> (case i of Line l \<Rightarrow> command_of l \<noteq> str ''data'' | Data_Line l b \<Rightarrow> command_of l = str ''data'')"

fun dialogue_ok :: "smtp_input list \<Rightarrow> bool" where
  "dialogue_ok [] = False"
| "dialogue_ok [i] = (command_of (input_line i) = str ''quit'')"
| "dialogue_ok (i # j # is) = (command_of (input_line i) \<noteq> str ''quit'' \<and> dialogue_ok (j # is))"

text \<open>From the state \<open>s\<close> to \<open>s'\<close>: the bytes \<open>i\<close> have been used up and \<open>out\<close> has been sent.\<close>

definition io_step :: "int \<Rightarrow> io buf \<Rightarrow> byte list \<Rightarrow> byte list \<Rightarrow> io buf \<Rightarrow> bool" where
  "io_step fd s i out s' \<longleftrightarrow>
     (\<exists>new. received fd (snd s') = received fd (snd s) @ new \<and> fst s @ new = i @ fst s')
     \<and> sent fd (snd s') = sent fd (snd s) @ out"

lemma io_step_trans:
  assumes "io_step fd s i out t" "io_step fd t j out' u"
  shows "io_step fd s (i @ j) (out @ out') u"
proof -
  obtain x y where "received fd (snd t) = received fd (snd s) @ x" "fst s @ x = i @ fst t"
    "received fd (snd u) = received fd (snd t) @ y" "fst t @ y = j @ fst u"
    using assms by (auto simp: io_step_def)
  then have "received fd (snd u) = received fd (snd s) @ (x @ y) \<and> fst s @ (x @ y) = (i @ j) @ fst u"
    by (metis append.assoc)
  then show ?thesis using assms unfolding io_step_def by auto
qed

lemma send_reply_step: "send_reply fd c s = (Val (), s') \<Longrightarrow> io_step fd s [] (c @ CRLF) s'"
  by (auto simp: send_reply_def on_file_eq io_step_def dest!: cf_write_returns)

lemma get_string_step:
  "get_string g (cf_read fd) CRLF s = (Val (closed, line), s') \<Longrightarrow> io_step fd s line [] s'"
  using get_line_returns [of g fd "fst s" "snd s" closed line "fst s'" "snd s'"]
  by (auto simp: get_line_def io_step_def)

lemma get_list_step:
  assumes "get_list g (cf_read fd) d [] s = (Val (closed, sl), s')"
  shows "io_step fd s (concat sl) [] s'"
proof -
  obtain new where "received fd (snd s') = received fd (snd s) @ new"
    "if closed then fst s' = [] \<and> concat sl = concat [] @ fst s @ new \<and> (\<exists>m'. scan d 0 0 (fst s @ new) = Inr m')
      else \<exists>i. scan d 0 0 (fst s @ new) = Inl i \<and> concat sl = concat [] @ take (i + 1) (fst s @ new)
        \<and> fst s' = drop (i + 1) (fst s @ new)"
    using cf.get_loop_spec [of g fd d 0 "[]" "fst s" "snd s" closed sl "fst s'" "snd s'"] assms
    by (auto simp: get_list_def)
  then have "fst s @ new = concat sl @ fst s'"
    by (metis append_Nil append_Nil2 append_take_drop_id concat.simps(1))
  moreover have "sent fd (snd s') = sent fd (snd s)"
    using get_loop_steady [of "sent fd" "cf_read fd" g d 0 "[]" s] assms by (simp add: get_list_def steady_cf_read)
  ultimately show ?thesis using \<open>received fd (snd s') = _\<close> by (auto simp: io_step_def)
qed

lemma close_step: "on_file (cf_close fd) s = (r, s') \<Longrightarrow> io_step fd s [] [] s'"
  by (auto simp: on_file_eq io_step_def dest: quiet_close)

lemma str_distinct:
  "str ''quit'' \<noteq> str ''data''" "str ''rcpt'' \<noteq> str ''data''" "str ''helo'' \<noteq> str ''data''"
  "str ''ehlo'' \<noteq> str ''data''" "str ''mail'' \<noteq> str ''data''" "str ''rset'' \<noteq> str ''data''"
  by (simp_all add: str_def)

definition body_of :: "smtp_input \<Rightarrow> byte list" where
  "body_of i = (case i of Line l \<Rightarrow> [] | Data_Line l b \<Rightarrow> b)"

lemma input_bytes_split: "input_bytes i = input_line i @ body_of i"
  by (cases i) (simp_all add: body_of_def)

lemma data_command_step:
  assumes "bindS (send_reply fd (str ''354 Ok'')) (\<lambda>_.
          bindS (get_list g (cf_read fd) DOT_LINE []) (\<lambda>_.
            bindS (send_reply fd (str ''250 Ok'')) (\<lambda>_. ret x))) s = (Val y, s')"
  shows "y = x \<and> (\<exists>body. io_step fd s body (str ''354 Ok'' @ CRLF @ str ''250 Ok'' @ CRLF) s')"
proof -
  obtain closed sl s1 s2 where r: "send_reply fd (str ''354 Ok'') s = (Val (), s1)"
    "get_list g (cf_read fd) DOT_LINE [] s1 = (Val (closed, sl), s2)" "send_reply fd (str ''250 Ok'') s2 = (Val (), s')"
    and y: "y = x"
    using assms by (auto simp: bindS_iffs)
  show ?thesis
    using io_step_trans [OF io_step_trans [OF send_reply_step [OF r(1)] get_list_step [OF r(2)]] send_reply_step [OF r(3)]] y
    by auto
qed

lemma reply_then:
  "bindS (send_reply fd c) (\<lambda>_. ret x) s = (Val y, s') \<longleftrightarrow> y = x \<and> send_reply fd c s = (Val (), s')"
  by (cases s') (auto simp: bindS_iffs)

lemma smtp_command_reply:
  assumes "command_of line \<noteq> str ''quit''" "command_of line \<noteq> str ''data''"
  shows "\<exists>ss'. smtp_command host g fd (command_of line) line ss
      = bindS (send_reply fd (snd (smtp_answer host (ss_env_from ss) line))) (\<lambda>_. ret (Some ss'))
    \<and> ss_env_from ss' = fst (smtp_answer host (ss_env_from ss) line)"
proof -
  let ?ss = "ss\<lparr>ss_env_from := fst (smtp_answer host (ss_env_from ss) line)\<rparr>"
  show ?thesis
  proof (cases "command_of line = str ''rset''")
    case True
    then show ?thesis using assms
      by (intro exI [of _ "ss\<lparr>ss_env_from := [], ss_rcpts := []\<rparr>"])
        (simp add: smtp_command_def smtp_answer_def Let_def str_def)
  next
    case False
    then show ?thesis using assms
      by (intro exI [of _ ?ss], cases ss) (simp add: smtp_command_def smtp_answer_def Let_def)
  qed
qed

lemma smtp_command_step:
  assumes "smtp_command host g fd (command_of line) line ss s = (Val x, s')"
  shows "\<exists>i. input_line i = line \<and> input_ok i
    \<and> io_step fd s (body_of i) (snd (smtp_answer host (ss_env_from ss) line) @ CRLF) s'
    \<and> (x = None \<longleftrightarrow> command_of line = str ''quit'')
    \<and> (\<forall>ss'. x = Some ss' \<longrightarrow> ss_env_from ss' = fst (smtp_answer host (ss_env_from ss) line))"
proof (cases "command_of line = str ''data''")
  case True
  then have "bindS (send_reply fd (str ''354 Ok'')) (\<lambda>_. bindS (get_list g (cf_read fd) DOT_LINE []) (\<lambda>_.
      bindS (send_reply fd (str ''250 Ok'')) (\<lambda>_. ret (Some (ss\<lparr>ss_env_from := [], ss_rcpts := []\<rparr>))))) s = (Val x, s')"
    using assms str_distinct [symmetric] by (simp add: smtp_command_def)
  from data_command_step [OF this] obtain body where
    "x = Some (ss\<lparr>ss_env_from := [], ss_rcpts := []\<rparr>)"
    "io_step fd s body (str ''354 Ok'' @ CRLF @ str ''250 Ok'' @ CRLF) s'" by blast
  then show ?thesis using True str_distinct [symmetric]
    by (intro exI [of _ "Data_Line line body"]) (simp add: input_ok_def body_of_def smtp_answer_def Let_def)
next
  case False
  have "io_step fd s [] (snd (smtp_answer host (ss_env_from ss) line) @ CRLF) s'
    \<and> (x = None \<longleftrightarrow> command_of line = str ''quit'')
    \<and> (\<forall>ss'. x = Some ss' \<longrightarrow> ss_env_from ss' = fst (smtp_answer host (ss_env_from ss) line))"
  proof (cases "command_of line = str ''quit''")
    case True
    then obtain s1 k where r: "send_reply fd (str ''221 bye.'') s = (Val (), s1)"
      and k: "on_file (cf_close fd) s1 = (Val k, s')" and x: "x = None"
      using assms by (cases s') (auto simp: smtp_command_def bindS_iffs)
    show ?thesis
      using io_step_trans [OF send_reply_step [OF r] close_step [OF k]] True x
      by (simp add: smtp_answer_def Let_def)
  next
    case nq: False
    obtain ss' where eq: "smtp_command host g fd (command_of line) line ss
        = bindS (send_reply fd (snd (smtp_answer host (ss_env_from ss) line))) (\<lambda>_. ret (Some ss'))"
      and env: "ss_env_from ss' = fst (smtp_answer host (ss_env_from ss) line)"
      using smtp_command_reply [OF nq False] by blast
    have x: "x = Some ss'" and r: "send_reply fd (snd (smtp_answer host (ss_env_from ss) line)) s = (Val (), s')"
      using assms unfolding eq reply_then by blast+
    show ?thesis using send_reply_step [OF r] nq env by (simp add: x)
  qed
  moreover have "input_line (Line line) = line" "input_ok (Line line)" "body_of (Line line) = []"
    using False by (simp_all add: input_ok_def body_of_def)
  ultimately show ?thesis by metis
qed

lemma dialogue_ok_Cons:
  "is \<noteq> [] \<Longrightarrow> dialogue_ok (i # is) \<longleftrightarrow> command_of (input_line i) \<noteq> str ''quit'' \<and> dialogue_ok is"
  by (cases "is") simp_all

lemma smtp_loop_dialogue:
  "smtp_loop n g host fd ss s = (Val (), s') \<Longrightarrow>
   \<exists>is. list_all input_ok is \<and> dialogue_ok is
     \<and> io_step fd s (concat (map input_bytes is)) (smtp_run host (ss_env_from ss) is) s'"
proof (induction n arbitrary: ss s)
  case 0
  then show ?case by simp
next
  case (Suc n)
  then obtain closed line s1 x s2 where l: "get_string g (cf_read fd) CRLF s = (Val (closed, line), s1)"
    and c: "smtp_command host g fd (command_of line) line ss s1 = (Val x, s2)"
    and r: "(case x of None \<Rightarrow> ret () | Some ss' \<Rightarrow> smtp_loop n g host fd ss') s2 = (Val (), s')"
    by (auto simp: bindS_iffs Let_def)
  obtain i where i: "input_line i = line" "input_ok i"
    "io_step fd s1 (body_of i) (snd (smtp_answer host (ss_env_from ss) line) @ CRLF) s2"
    "x = None \<longleftrightarrow> command_of line = str ''quit''"
    "\<forall>ss'. x = Some ss' \<longrightarrow> ss_env_from ss' = fst (smtp_answer host (ss_env_from ss) line)"
    using smtp_command_step [OF c] by blast
  have one: "io_step fd s (input_bytes i) (snd (smtp_answer host (ss_env_from ss) (input_line i)) @ CRLF) s2"
    using io_step_trans [OF get_string_step [OF l] i(3)] by (simp add: input_bytes_split i(1))
  show ?case
  proof (cases x)
    case None
    then show ?thesis using r one i by (intro exI [of _ "[i]"]) simp
  next
    case (Some ss')
    then have "smtp_loop n g host fd ss' s2 = (Val (), s')" using r by simp
    from Suc.IH [OF this] obtain js where ok: "list_all input_ok js" and d: "dialogue_ok js"
      and rest: "io_step fd s2 (concat (map input_bytes js)) (smtp_run host (ss_env_from ss') js) s'"
      by (elim exE conjE) (rule that)
    have ne: "js \<noteq> []" using d by (cases js) simp_all
    have env: "ss_env_from ss' = fst (smtp_answer host (ss_env_from ss) (input_line i))"
      using i(1,5) Some by simp
    have "io_step fd s (concat (map input_bytes (i # js))) (smtp_run host (ss_env_from ss) (i # js)) s'"
      using io_step_trans [OF one rest] by (simp add: env)
    moreover have "dialogue_ok (i # js)" using d i(1,4) Some by (simp add: dialogue_ok_Cons [OF ne])
    moreover have "list_all input_ok (i # js)" using ok i(2) by simp
    ultimately show ?thesis by blast
  qed
qed

lemma smtp_go_refined:
  assumes "smtp_go n g host fd ([], e) = (Val (), (b', e'))"
  shows "\<exists>is. list_all input_ok is \<and> dialogue_ok is
    \<and> received fd e' = received fd e @ concat (map input_bytes is) @ b'
    \<and> sent fd e' = sent fd e @ str ''250 '' @ host @ str '' SMTP'' @ CRLF @ smtp_run host [] is"
proof -
  obtain s1 where r: "send_reply fd (str ''250 '' @ host @ str '' SMTP'') ([], e) = (Val (), s1)"
    and l: "smtp_loop n g host fd \<lparr>ss_env_from = [], ss_rcpts = []\<rparr> s1 = (Val (), (b', e'))"
    using assms by (auto simp: smtp_go_def bindS_iffs)
  obtain "is" where "list_all input_ok is" "dialogue_ok is"
    "io_step fd s1 (concat (map input_bytes is)) (smtp_run host [] is) (b', e')"
    using smtp_loop_dialogue [OF l] by auto
  then show ?thesis using io_step_trans [OF send_reply_step [OF r]] by (fastforce simp: io_step_def)
qed

text \<open>
  C17: the SMTP session follows the specification.  When \<open>go\<close> returns, what the client has sent is a list
  of commands that ends with the first \<open>quit\<close>, the \<open>data\<close> commands followed by their bodies, and what
  the server has sent is the greeting and then, command by command, the answer that \<open>smtp_run\<close> gives: in
  particular \<open>rcpt\<close> is refused unless a \<open>mail\<close> after the last \<open>data\<close> or \<open>rset\<close> has set the sender.
\<close>

theorem smtp_go_refines_dialogue:
  assumes "smtp_go n g host fd ([], e) = (Val (), (b', e'))"
  shows "\<exists>is. list_all input_ok is \<and> dialogue_ok is
    \<and> received fd e' = received fd e @ concat (map input_bytes is) @ b'
    \<and> sent fd e' = sent fd e @ str ''250 '' @ host @ str '' SMTP'' @ CRLF @ smtp_run host [] is"
  by (rule smtp_go_refined [OF assms])

theorem smtp_go_refines_dialogue_witness:
  "\<exists>b e'. smtp_go 3 3 (str ''h'') 4 ([], ex_io [Num 99, Data (str ''QUIT'' @ CRLF), Num 99, Num 0]) = (Val (), (b, e'))
     \<and> (\<exists>is. dialogue_ok is \<and> received 4 e' = concat (map input_bytes is) @ b)"
proof -
  let ?as = "[Data (str ''QUIT'' @ CRLF), Num 99, Num 0]"
  let ?e = "ex_io (Num 99 # ?as)"
  let ?p = "str ''250 '' @ str ''h'' @ str '' SMTP'' @ CRLF"
  have "cf_write 4 ?p ?e = (Val (), ?e\<lparr>io_answers := ?as, io_log := io_log ?e @ [(C_Write 4 ?p, Num (int (length ?p)))]\<rparr>)"
    by (rule cf_write_Num [of _ 99]) (simp_all add: ex_io_def str_def CRLF_def max_rw_def)
  then obtain e1 where w: "cf_write 4 ?p ?e = (Val (), e1)" "io_answers e1 = ?as" by simp
  obtain e2 where l: "get_string 3 (cf_read 4) CRLF ([], e1) = (Val (False, str ''QUIT'' @ CRLF), ([], e2))"
    "io_answers e2 = [Num 99, Num 0]"
    using w(2) by (simp add: get_simps str_def)
  have c: "command_of (str ''QUIT'' @ CRLF) = str ''quit''" by code_simp
  obtain e3 where w2: "cf_write 4 (str ''221 bye.'' @ CRLF) e2 = (Val (), e3)" "io_answers e3 = [Num 0]"
    using cf_write_Num [of e2 99 "[Num 0]" "str ''221 bye.'' @ CRLF" 4] l(2)
    by (simp add: str_def CRLF_def max_rw_def)
  have "fst (smtp_go 3 3 (str ''h'') 4 ([], ?e)) = Val ()"
    by (simp add: smtp_go_def send_reply_def on_file_def bindS_def w smtp_loop_numeral l c smtp_command_def w2
        cf_close_def sys_num_def ask_def num_answer_def)
  then obtain b e' where r: "smtp_go 3 3 (str ''h'') 4 ([], ?e) = (Val (), (b, e'))" by (metis prod.collapse)
  have "received 4 ?e = []" by (simp add: received_def ex_io_def)
  then show ?thesis using smtp_go_refines_dialogue [OF r] r by auto
qed

subsection \<open>The end of the stream\<close>

lemma eof_command: "command_of [] = []" "str ''502 command not implemented'' \<noteq> []"
  by (simp_all add: command_of_def split_first_def str_def)

lemma smtp_command_eof:
  "smtp_command host g fd [] line ss
     = bindS (send_reply fd (str ''502 command not implemented'')) (\<lambda>_. ret (Some ss))"
  by (simp add: smtp_command_def str_def)

lemma get_string_eof:
  "io_answers e = Data [] # as \<Longrightarrow> 0 < g \<Longrightarrow>
   get_string g (cf_read fd) CRLF ([], e)
     = (Val (True, []), ([], e\<lparr>io_answers := as, io_log := io_log e @ [(C_Read fd 8192, Data [])]\<rparr>))"
  by (cases g) (simp_all add: get_string_def get_list_def read_string_def bindS_def cf_read_Data max_rw_def)

text \<open>What the server sends on each pass when nothing comes any more.\<close>

definition reply_502 :: "byte list" where "reply_502 = str ''502 command not implemented'' @ CRLF"

lemma smtp_loop_eof:
  assumes "io_answers e = concat (replicate m [Data [], Num 1000])" "0 < g"
  shows "fst (smtp_loop n g host fd ss ([], e)) = Stuck
    \<and> sent fd (snd (snd (smtp_loop m g host fd ss ([], e)))) = sent fd e @ concat (replicate m reply_502)"
  using assms
proof (induction m arbitrary: n ss e)
  case 0
  then have "fst (smtp_loop n g host fd ss ([], e)) = Stuck" for ss
    by (cases n; cases g) (simp_all add: bindS_def get_string_def get_list_def read_string_def
        cf_read.simps [of fd _ e] sys_read_def ask_def)
  then show ?case by simp
next
  case (Suc m)
  let ?as = "concat (replicate m [Data [], Num 1000])"
  let ?e1 = "e\<lparr>io_answers := Num 1000 # ?as, io_log := io_log e @ [(C_Read fd 8192, Data [])]\<rparr>"
  let ?e2 = "?e1\<lparr>io_answers := ?as, io_log := io_log ?e1 @ [(C_Write fd reply_502, Num (int (length reply_502)))]\<rparr>"
  have g: "get_string g (cf_read fd) CRLF ([], e) = (Val (True, []), ([], ?e1))"
    using get_string_eof [of e "Num 1000 # ?as" g fd] Suc.prems by simp
  have w: "cf_write fd reply_502 ?e1 = (Val (), ?e2)"
    by (rule cf_write_Num [of _ 1000]) (simp_all add: reply_502_def str_def CRLF_def max_rw_def)
  have step: "smtp_loop (Suc k) g host fd ss ([], e) = smtp_loop k g host fd ss ([], ?e2)" for k
    using w by (simp add: bindS_def g eof_command smtp_command_eof send_reply_def on_file_def reply_502_def)
  have a: "io_answers ?e2 = ?as" by simp
  have s: "sent fd ?e2 = sent fd e @ reply_502" by (simp add: sent_def)
  have "fst (smtp_loop n g host fd ss ([], e)) = Stuck"
    using conjunct1 [OF Suc.IH [OF a Suc.prems(2)]] step by (cases n) simp_all
  moreover have "sent fd (snd (snd (smtp_loop (Suc m) g host fd ss ([], e))))
      = sent fd e @ concat (replicate (Suc m) reply_502)"
    using conjunct2 [OF Suc.IH [OF a Suc.prems(2)]] step s by simp
  ultimately show ?case by blast
qed

text \<open>
  C39: a flaw.  \<open>go\<close> does not look at the result of \<open>get\<close>, which says that the stream has ended.  When the
  client closes its side without \<open>quit\<close>, each pass of the loop gets an empty line at once and sends
  another 502, and the loop never ends, however often the kernel answers.
\<close>

theorem smtp_spins_at_eof:
  assumes "io_answers e = concat (replicate m [Data [], Num 1000])" "0 < g"
  shows "fst (smtp_loop n g host fd ss ([], e)) = Stuck
    \<and> sent fd (snd (snd (smtp_loop m g host fd ss ([], e)))) = sent fd e @ concat (replicate m reply_502)"
  by (rule smtp_loop_eof [OF assms])

theorem smtp_spins_at_eof_witness:
  "sent 4 (snd (snd (smtp_loop 2 1 [] 4 \<lparr>ss_env_from = [], ss_rcpts = []\<rparr>
      ([], ex_io [Data [], Num 1000, Data [], Num 1000])))) = reply_502 @ reply_502"
  using smtp_spins_at_eof [of "ex_io [Data [], Num 1000, Data [], Num 1000]" 2 1 2 "[]" 4 "\<lparr>ss_env_from = [], ss_rcpts = []\<rparr>"]
  by (simp add: ex_io_def sent_def numeral_2_eq_2)

text \<open>
  a flaw.  An exception out of \<open>go\<close>, for example because the client has gone and \<open>write\<close> fails,
  destroys the session object and with it the socket, and the handler then calls \<open>close\<close> on it:
  every such session ends in a use after free.
\<close>

theorem smtp_handler_uses_freed_socket:
  assumes "smtp_go n g host fd ([], e) = (Raise ex, (b, e1))" "io_answers e1 \<noteq> []"
  shows "fst (smtp_session_entry n g host fd e) = Raise (Undef Use_After_Free)"
  using assms
  by (cases "io_answers e1") (auto simp: smtp_session_entry_def cf_destroy_def cf_close_def sys_num_def bindS_def ask_def)

theorem smtp_handler_uses_freed_socket_witness:
  "fst (smtp_session_entry 3 3 (str ''h'') 4 (ex_io [Fail 32, Num 0])) = Raise (Undef Use_After_Free)"
proof -
  obtain e1 where "smtp_go 3 3 (str ''h'') 4 ([], ex_io [Fail 32, Num 0]) = (Raise (OS_Error ''write'' 32), ([], e1))"
    "io_answers e1 = [Num 0]"
    by (simp add: smtp_go_def send_reply_def on_file_def bindS_def ex_io_def str_def cf_write.simps [of 4 "_ # _"]
        sys_write_def ask_def write_answer_def EWOULDBLOCK_def)
  then show ?thesis using smtp_handler_uses_freed_socket by simp
qed

end
