(* ===== verification/Smtp_Program.thy ===== *)
theory Smtp_Program
  imports Server_Program Smtp_Server
begin

section \<open>The SMTP server as a whole program\<close>

text \<open>
  The threads of \<open>demo/smtp_server.cc\<close> on the scheduler, as an instance of theory \<open>Server_Program\<close>, and its \<open>main\<close>.  Before that, what
  the session does on its own: it ends or waits for the kernel, it is causal, and it closes its connection once.
\<close>

subsection \<open>A session waits for the kernel\<close>

text \<open>An operation that uses up no more than there is, and that stops with less fuel than \<open>g\<close> to come only where the kernel has nothing more for it.\<close>

definition drains :: "nat \<Rightarrow> (io buf, 'a) op \<Rightarrow> bool" where
  "drains g m \<longleftrightarrow>
     (\<forall>s r s'. m s = (r, s') \<longrightarrow>
        plain_fed.due s' \<le> plain_fed.due s \<and> (r = Stuck \<longrightarrow> plain_fed.due s + 1 < g \<longrightarrow> hungry (snd s')))"

lemma drainsD:
  "drains g m \<Longrightarrow> m s = (r, s') \<Longrightarrow>
   plain_fed.due s' \<le> plain_fed.due s \<and> (r = Stuck \<longrightarrow> plain_fed.due s + 1 < g \<longrightarrow> hungry (snd s'))"
  unfolding drains_def by blast

lemma drains_ret [simp]: "drains g (ret a)"
  by (simp add: drains_def)

lemma drains_bindS:
  assumes "drains g m" "\<And>a. drains g (f a)"
  shows "drains g (bindS m f)"
  unfolding drains_def
proof (intro allI impI)
  fix s r s' assume b: "bindS m f s = (r, s')"
  obtain x s1 where m: "m s = (x, s1)" by (rule prod.exhaust)
  note d = drainsD [OF assms(1) m]
  show "plain_fed.due s' \<le> plain_fed.due s \<and> (r = Stuck \<longrightarrow> plain_fed.due s + 1 < g \<longrightarrow> hungry (snd s'))"
  proof (cases x)
    case (Val a)
    then have "f a s1 = (r, s')" using b m by (simp add: bindS_def)
    from drainsD [OF assms(2) this] show ?thesis using d by auto
  qed (use b m d in \<open>auto simp: bindS_def\<close>)
qed

lemma drains_on_file: "served m \<Longrightarrow> drains g (on_file m)"
  unfolding drains_def using on_file_progress by blast

lemma drains_send_reply [simp]: "drains g (send_reply fd c)"
  unfolding send_reply_def by (simp add: drains_on_file)

lemma drains_get_list [simp]: "drains g (get_list g (cf_read fd) d [])"
  unfolding drains_def
proof (intro allI impI)
  fix s r s' assume r: "get_list g (cf_read fd) d [] s = (r, s')"
  obtain b e b' e' where s: "s = (b, e)" "s' = (b', e')" by (metis prod.collapse)
  have "get_loop g (cf_read fd) d 0 [] (b, e) = (r, (b', e'))" using r by (simp add: s get_list_def)
  from plain_fed.get_loop_progress [OF this]
  show "plain_fed.due s' \<le> plain_fed.due s \<and> (r = Stuck \<longrightarrow> plain_fed.due s + 1 < g \<longrightarrow> hungry (snd s'))"
    by (auto simp: s plain_fed.due_def split: if_splits)
qed

lemma drains_get_string [simp]: "drains g (get_string g (cf_read fd) d)"
  unfolding get_string_def by (rule drains_bindS) simp_all

text \<open>A reply is never empty, so sending one uses up an answer of the kernel.\<close>

lemma send_reply_less:
  assumes "send_reply fd c s = (Val u, s')"
  shows "plain_fed.due s' < plain_fed.due s"
proof -
  have "cf_write fd (c @ CRLF) (snd s) = (Val (), snd s') \<and> fst s' = fst s"
    using assms by (auto simp: send_reply_def on_file_eq)
  moreover have "c @ CRLF \<noteq> []" by (simp add: CRLF_def)
  ultimately show ?thesis using cf_write_progress [of fd "c @ CRLF" "snd s" "Val ()" "snd s'"] by (simp add: plain_fed.due_def)
qed

definition replies :: "nat \<Rightarrow> (io buf, 'a) op \<Rightarrow> bool" where
  "replies g m \<longleftrightarrow> drains g m \<and> (\<forall>s a s'. m s = (Val a, s') \<longrightarrow> plain_fed.due s' < plain_fed.due s)"

lemma replies_first: "(\<And>a. drains g (f a)) \<Longrightarrow> replies g (bindS (send_reply fd c) f)"
  unfolding replies_def
proof (intro conjI allI impI)
  assume f: "\<And>a. drains g (f a)"
  then show "drains g (bindS (send_reply fd c) f)" by (intro drains_bindS) simp_all
  fix s x s' assume "bindS (send_reply fd c) f s = (Val x, s')"
  then obtain s1 where "send_reply fd c s = (Val (), s1)" "f () s1 = (Val x, s')" by (auto simp: bindS_iffs)
  then show "plain_fed.due s' < plain_fed.due s" using send_reply_less drainsD [OF f] by (metis order_le_less_trans)
qed

lemma replies_if: "replies g m \<Longrightarrow> replies g n \<Longrightarrow> replies g (if b then m else n)"
  by simp

lemma smtp_command_replies: "replies g (smtp_command host g fd c line ss)"
proof -
  have q: "drains g (bindS (on_file (cf_close fd)) (\<lambda>_. ret None))"
    "drains g (bindS (get_list g (cf_read fd) DOT_LINE []) (\<lambda>_. bindS (send_reply fd r) (\<lambda>_. ret x)))" for r x
    by (intro drains_bindS drains_on_file; simp)+
  show ?thesis unfolding smtp_command_def Let_def by (intro replies_if replies_first q drains_ret)
qed

lemma smtp_loop_returns:
  assumes "plain_fed.due s < n" "plain_fed.due s + 1 < g" "smtp_loop n g host fd ss s = (Stuck, s')"
  shows "hungry (snd s')"
  using assms
proof (induction n arbitrary: s ss)
  case 0
  then show ?case by simp
next
  case (Suc n)
  obtain x s1 where l: "get_string g (cf_read fd) CRLF s = (x, s1)" by (rule prod.exhaust)
  note p = drainsD [OF drains_get_string l]
  show ?case
  proof (cases x)
    case (Val v)
    obtain y s2 where c: "smtp_command host g fd (command_of (snd v)) (snd v) ss s1 = (y, s2)" by (rule prod.exhaust)
    note r = smtp_command_replies [unfolded replies_def, of g host fd "command_of (snd v)" "snd v" ss]
    note d = drainsD [OF conjunct1 [OF r] c]
    show ?thesis
    proof (cases y)
      case (Val z)
      then have less: "plain_fed.due s2 < plain_fed.due s1" using conjunct2 [OF r] c by blast
      show ?thesis
      proof (cases z)
        case (Some ss')
        then have "smtp_loop n g host fd ss' s2 = (Stuck, s')"
          using Suc.prems(3) l \<open>x = Val v\<close> c Val by (simp add: bindS_def Let_def)
        from Suc.IH [OF _ _ this] show ?thesis using less p Suc.prems(1,2) by simp
      qed (use Suc.prems(3) l \<open>x = Val v\<close> c Val in \<open>simp add: bindS_def Let_def\<close>)
    qed (use Suc.prems l \<open>x = Val v\<close> c p d in \<open>auto simp: bindS_def Let_def\<close>)
  qed (use Suc.prems l p in \<open>auto simp: bindS_def\<close>)
qed

text \<open>
  with fuel above what is left to come, an SMTP session is stuck only because the kernel has no answer or no wake-up left: it
  returns, throws, waits for the kernel, or goes on for as long as the kernel goes on answering (\<open>smtp_spins_at_eof\<close>).
\<close>

theorem smtp_session_waits:
  assumes "to_come e < n" "to_come e + 1 < g" "smtp_session_entry n g host fd e = (Stuck, e')"
  shows "io_answers e' = [] \<or> io_wakes e' = []"
proof -
  obtain x b e1 where l: "smtp_go n g host fd ([], e) = (x, (b, e1))" by (metis prod.collapse)
  have "hungry e'"
  proof (cases x)
    case Stuck
    obtain y s1 where r: "send_reply fd (str ''250 '' @ host @ str '' SMTP'') ([], e) = (y, s1)" by (rule prod.exhaust)
    note d = drainsD [OF drains_send_reply r, of g]
    have e': "e' = e1" using assms(3) l Stuck by (simp add: smtp_session_entry_def)
    show ?thesis
    proof (cases y)
      case (Val u)
      then have "smtp_loop n g host fd \<lparr>ss_env_from = [], ss_rcpts = []\<rparr> s1 = (Stuck, (b, e1))"
        using l r Stuck by (simp add: smtp_go_def bindS_def)
      from smtp_loop_returns [OF _ _ this] show ?thesis using assms(1,2) d e' by (simp add: plain_fed.due_def)
    qed (use l r Stuck d assms(2) e' in \<open>auto simp: smtp_go_def bindS_def plain_fed.due_def\<close>)
  qed (use assms(3) l in \<open>auto simp: smtp_session_entry_def bindS_iffs dest: servedD [OF served_destroy]\<close>)
  then show ?thesis by (simp add: hungry_def)
qed

subsection \<open>A session is causal\<close>

lemma causal_send_reply [simp]: "wbuf.causal (send_reply fd c)"
  by (simp add: send_reply_def causal_on_file)

lemma causal_get_list [simp]: "(\<And>n. wio.causal (rd n)) \<Longrightarrow> wbuf.causal (get_list g rd d sl)"
  unfolding get_list_def by (rule causal_get_loop)

lemma causal_get_string [simp]: "(\<And>n. wio.causal (rd n)) \<Longrightarrow> wbuf.causal (get_string g rd d)"
  unfolding get_string_def by (intro wbuf.causal_bindS) simp_all

lemma causal_if: "wbuf.causal m \<Longrightarrow> wbuf.causal n \<Longrightarrow> wbuf.causal (if b then m else n)"
  by simp

lemma causal_smtp_command [simp]: "wbuf.causal (smtp_command host g fd c line ss)"
  unfolding smtp_command_def Let_def
  by (intro causal_if wbuf.causal_bindS wbuf.causal_basic causal_on_file causal_send_reply causal_get_list causal_close causal_cf_read)

lemma causal_smtp_loop [simp]: "wbuf.causal (smtp_loop n g host fd ss)"
proof (induction n arbitrary: ss)
  case 0
  have "smtp_loop 0 g host fd ss = (\<lambda>s. (Stuck, s))" by (rule ext) simp
  then show ?case by (simp add: wbuf.causal_stuck)
next
  case (Suc n)
  have "smtp_loop (Suc n) g host fd ss = bindS (get_string g (cf_read fd) CRLF) (\<lambda>r.
       bindS (smtp_command host g fd (command_of (snd r)) (snd r) ss) (\<lambda>x.
         case x of None \<Rightarrow> ret () | Some ss' \<Rightarrow> smtp_loop n g host fd ss'))"
    by (rule ext) (simp add: Let_def)
  then show ?case by (auto intro!: wbuf.causal_bindS Suc split: option.split)
qed

lemma causal_smtp_session [simp]: "wio.causal (smtp_session_entry n g host fd)"
proof -
  let ?m = "wbuf.handle (smtp_go n g host fd) (\<lambda>_. bindS (on_file (cf_destroy (- 1))) (\<lambda>_. ret ()))
    (\<lambda>ex. bindS (on_file (cf_destroy fd)) (\<lambda>_. raise (Undef Use_After_Free)))"
  have "wbuf.causal ?m"
    unfolding smtp_go_def by (intro wbuf.causal_handle wbuf.causal_bindS causal_on_file) simp_all
  then have "wio.causal (\<lambda>e. (fst (?m ([], e)), snd (snd (?m ([], e)))))" by (rule causal_from_buffer)
  moreover have "(\<lambda>e. (fst (?m ([], e)), snd (snd (?m ([], e))))) = smtp_session_entry n g host fd"
    by (rule ext) (auto simp: wbuf.handle_def smtp_session_entry_def bindS_def on_file_def split: prod.split outcome.split)
  ultimately show ?thesis by simp
qed

subsection \<open>A session closes its connection\<close>

text \<open>A command closes the connection if it is the last one, and only then.\<close>

definition closes_at_quit :: "int \<Rightarrow> (io buf, 'a option) op \<Rightarrow> bool" where
  "closes_at_quit fd m \<longleftrightarrow>
     (\<forall>s. closes fd (snd (snd (m s))) = closes fd (snd s) + (case fst (m s) of Val None \<Rightarrow> 1 | _ \<Rightarrow> 0))"

lemma closes_at_quit_bindS:
  "closes_by (closes fd) 0 m \<Longrightarrow> (\<And>a. closes_at_quit fd (f a)) \<Longrightarrow> closes_at_quit fd (bindS m f)"
  unfolding closes_at_quit_def closes_by_def bindS_def
  by (intro allI, erule_tac x = s in allE) (auto split: prod.splits outcome.splits)

lemma closes_at_quit_basic:
  "closes_at_quit fd (ret (Some x))" "closes_at_quit fd (bindS (on_file (cf_close fd)) (\<lambda>_. ret None))"
  unfolding closes_at_quit_def on_file_def bindS_def ret_def
  by (auto split: prod.split outcome.split dest: cf_close_closes)

lemma closes_at_quit_if: "closes_at_quit fd m \<Longrightarrow> closes_at_quit fd n \<Longrightarrow> closes_at_quit fd (if b then m else n)"
  by simp

lemma closes_by_reply: "closes_by (closes fd) 0 (send_reply fd c)"
  unfolding send_reply_def by (rule closes_by_steady) (simp add: steady_cf_write)

lemma closes_by_get_list: "closes_by (closes fd) 0 (get_list g (cf_read fd) d [])"
  unfolding closes_by_def get_list_def
  using get_loop_steady [of "closes fd" "cf_read fd" g d 0 "[]"] steady_cf_read [of "closes fd"]
  by (auto split: outcome.splits)

lemma closes_by_get_string: "closes_by (closes fd) 0 (get_string g (cf_read fd) d)"
  unfolding get_string_def by (rule closes_by_last [OF closes_by_get_list])

lemma smtp_command_closes: "closes_at_quit fd (smtp_command host g fd c line ss)"
  unfolding smtp_command_def Let_def
  by (intro closes_at_quit_if closes_at_quit_bindS closes_at_quit_basic closes_by_reply closes_by_get_list)

lemma smtp_loop_closes: "closes_by (closes fd) 1 (smtp_loop n g host fd ss)"
proof (induction n arbitrary: ss)
  case 0
  then show ?case by (simp add: closes_by_def)
next
  case (Suc n)
  have "closes_by (closes fd) 1 (bindS (smtp_command host g fd c line ss) (\<lambda>x. case x of None \<Rightarrow> ret () | Some ss' \<Rightarrow> smtp_loop n g host fd ss'))"
    for c line
    using smtp_command_closes [of fd host g c line ss] Suc
    unfolding closes_by_def closes_at_quit_def bindS_def ret_def
    by (intro allI, erule_tac x = s in allE) (auto split: prod.splits outcome.splits option.splits)
  then have "closes_by (closes fd) 1 (bindS (get_string g (cf_read fd) CRLF) (\<lambda>r.
       bindS (smtp_command host g fd (command_of (snd r)) (snd r) ss) (\<lambda>x.
         case x of None \<Rightarrow> ret () | Some ss' \<Rightarrow> smtp_loop n g host fd ss')))"
    by (intro closes_by_bindS [OF closes_by_get_string])
  moreover have "smtp_loop (Suc n) g host fd ss = bindS (get_string g (cf_read fd) CRLF) (\<lambda>r.
       bindS (smtp_command host g fd (command_of (snd r)) (snd r) ss) (\<lambda>x.
         case x of None \<Rightarrow> ret () | Some ss' \<Rightarrow> smtp_loop n g host fd ss'))"
    by (rule ext) (simp add: Let_def)
  ultimately show ?case by simp
qed

text \<open>How a session can end: it has closed its connection once, and it has served it or it is at the use of the freed socket.\<close>

lemma smtp_session_end:
  assumes "smtp_session_entry n g host fd e = (r, e')" "r \<noteq> Stuck" "fd \<noteq> - 1"
  shows "closes fd e' = closes fd e + 1
    \<and> (r = Val () \<and> (\<exists>is rest. list_all input_ok is \<and> dialogue_ok is
          \<and> received fd e' = received fd e @ concat (map input_bytes is) @ rest
          \<and> sent fd e' = sent fd e @ str ''250 '' @ host @ str '' SMTP'' @ CRLF @ smtp_run host [] is)
      \<or> r = Raise (Undef Use_After_Free))"
proof -
  obtain x b e1 where l: "smtp_go n g host fd ([], e) = (x, (b, e1))" by (metis prod.collapse)
  have "closes_by (closes fd) 1 (smtp_go n g host fd)"
    unfolding smtp_go_def by (intro closes_by_bindS closes_by_reply smtp_loop_closes)
  from spec [OF this [unfolded closes_by_def], of "([], e)"]
  have c: "closes fd e1 = closes fd e + (case x of Val _ \<Rightarrow> 1 | _ \<Rightarrow> 0)" using l by simp
  show ?thesis
  proof (cases x)
    case (Val u)
    then have "r = Val ()" "e' = e1" using assms(1) l by (simp_all add: smtp_session_entry_def cf_destroy_def bindS_def)
    moreover have "closes fd e1 = closes fd e + 1" using c Val by simp
    ultimately show ?thesis using smtp_go_refined [of n g host fd e b e1] l Val by auto
  next
    case (Raise ex)
    then obtain y where "cf_close fd e1 = (Val y, e')" "r = Raise (Undef Use_After_Free)"
      using assms l
      by (auto simp: smtp_session_entry_def cf_destroy_def bindS_def cf_close_def sys_num_def ask_def
          split: prod.splits outcome.splits list.splits)
    then show ?thesis using cf_close_closes [of fd e1 "Val y" e'] c Raise by simp
  qed (use assms l in \<open>simp add: smtp_session_entry_def\<close>)
qed

subsection \<open>The program\<close>

text \<open>
  The runs up to the wait after the given wake-ups, with the fuel of \<open>smtp_session_waits\<close>.  A session that is at the use of the freed
  socket, from where on C++ promises nothing, ends here with an exception that \<open>_wrap1\<close> catches.
\<close>

definition smtp_server_part :: "server_env \<Rightarrow> server_part" where
  "smtp_server_part env ws =
     server_part_of (smtp_server (Suc (length (io_answers (env_server env)))) (env_port env) (env_zero env)) (env_server env) ws"

definition smtp_session_run :: "server_env \<Rightarrow> byte list \<Rightarrow> int \<Rightarrow> nat \<Rightarrow> wakes \<Rightarrow> unit outcome \<times> io" where
  "smtp_session_run env host fd j ws =
     (let e = env_session env j
      in smtp_session_entry (Suc (to_come e)) (to_come e + 2) host fd (more_wakes ws (asleep e)))"

definition smtp_session_part :: "server_env \<Rightarrow> byte list \<Rightarrow> session_part" where
  "smtp_session_part env host = session_part_of (\<lambda>_. False) (smtp_session_run env host)"

definition smtp_code :: "server_env \<Rightarrow> byte list \<Rightarrow> server_point \<Rightarrow> server_point action" where
  "smtp_code env host = server_threads (smtp_server_part env) (smtp_session_part env host)"

definition smtp_program ::
    "(server_point, 'p) vtable \<Rightarrow> nat \<Rightarrow> nat \<Rightarrow> nat \<Rightarrow> server_env \<Rightarrow> (nat \<Rightarrow> byte list) \<Rightarrow> byte list
      \<Rightarrow> ((server_point, 'p) world, unit) op" where
  "smtp_program vt l r n env gethostname stack w =
     (case set_hostname gethostname stack of
        Val host \<Rightarrow> smtp_main vt l r n (smtp_code env host) (Server_At [] 0) w
      | Raise e \<Rightarrow> (Raise e, w)
      | Stuck \<Rightarrow> (Stuck, w))"

text \<open>
  the threads of the SMTP server can be run by replaying them, as those of the echo server: no call is lost, made twice or
  made in another order when a thread goes on from a wait.
\<close>

theorem smtp_threads_replay:
  "replays (\<lambda>ws. (fst (smtp_session_run env host fd j ws), io_log (snd (smtp_session_run env host fd j ws))))
    \<and> replays (\<lambda>ws. (fst (smtp_server_part env ws), fst (snd (smtp_server_part env ws))))"
proof
  show "replays (\<lambda>ws. (fst (smtp_session_run env host fd j ws), io_log (snd (smtp_session_run env host fd j ws))))"
    unfolding smtp_session_run_def Let_def by (rule wio.causal_replays) simp
  show "replays (\<lambda>ws. (fst (smtp_server_part env ws), fst (snd (smtp_server_part env ws))))"
    unfolding smtp_server_part_def smtp_server_def by (rule server_part_replays) simp
qed

text \<open>What the program may do with a connection.\<close>

definition smtp_served :: "server_env \<Rightarrow> byte list \<Rightarrow> int \<Rightarrow> nat \<Rightarrow> bool" where
  "smtp_served env host fd j \<longleftrightarrow>
     (\<exists>ws r e. smtp_session_run env host fd j ws = (r, e)
       \<and> closes fd e = closes fd (env_session env j) + 1
       \<and> (r = Val () \<and> (\<exists>is rest. list_all input_ok is \<and> dialogue_ok is
             \<and> received fd e = received fd (env_session env j) @ concat (map input_bytes is) @ rest
             \<and> sent fd e = sent fd (env_session env j) @ str ''250 '' @ host @ str '' SMTP'' @ CRLF @ smtp_run host [] is)
          \<or> r = Raise (Undef Use_After_Free)))"

lemma smtp_accepted_positive: "accepted (smtp_server_part env) fd j \<Longrightarrow> 0 < fd"
  unfolding smtp_server_part_def [abs_def] smtp_server_def by (rule server_part_positive [OF serve_positive])

lemma smtp_part_served:
  assumes "accepted (smtp_server_part env) fd j" "fst (smtp_session_part env host fd j ws) \<noteq> Stuck"
  shows "smtp_served env host fd j"
proof -
  obtain r e where r: "smtp_session_run env host fd j ws = (r, e)" by (rule prod.exhaust)
  then have "r \<noteq> Stuck" using assms(2) by (simp add: smtp_session_part_def session_part_of_simps)
  moreover have "fd \<noteq> - 1" using smtp_accepted_positive [OF assms(1)] by simp
  ultimately show ?thesis
    using smtp_session_end [OF r [unfolded smtp_session_run_def Let_def]] r unfolding smtp_served_def of_asleep by blast
qed

text \<open>
  C15: the SMTP server as a whole program, from \<open>main\<close> on, with its server thread and its sessions on the scheduler, on any
  poller that keeps the contract of \<open>Wakeups\<close>.  Whatever the kernel answers, whatever the clock does and in
  whatever order the coroutines run: \<open>main\<close> never returns, and it throws only because there is no memory or the poller failed; at any time every
  coroutine is the server or the session of a connection that the server has accepted; and a session that is dead has closed its connection exactly
  once, and it has followed the dialogue of \<open>smtp_run\<close> up to \<open>quit\<close>, in spite of the other sessions
  that ran in between, or it is at the use of its freed socket.
\<close>

theorem smtp_program_serves:
  assumes "waking_poller vt waits ok faults" "ok p" "waits p = {#}" "set_hostname gethostname stack = Val host"
    and "smtp_program vt l r n env gethostname stack (init_world clock malloc p) = (x, w')"
  shows "throws_only x (insert no_memory faults) \<and> x \<noteq> Val ()
    \<and> list_all (\<lambda>co. accounted (smtp_server_part env) (smtp_served env host) (co_start co) (co_dead co)) (w_coros w')"
proof -
  have m: "smtp_main vt l r n (server_threads (smtp_server_part env) (smtp_session_part env host)) (Server_At [] 0) (init_world clock malloc p) = (x, w')"
    using assms(4,5) by (simp add: smtp_program_def smtp_code_def)
  show ?thesis
    using smtp_main_serves [where good = "smtp_served env host", OF assms(1-3) smtp_part_served m]
    by (auto simp: smtp_session_part_def session_part_of_simps)
qed

text \<open>A client that has gone before the greeting.\<close>

definition ex_smtp_env :: server_env where
  "ex_smtp_env =
     \<lparr>env_server = ex_io [Num 3, Num 2, Num 0, Num 0, Num 0, Num 0, Num 0, Num 5, Fail 11],
      env_session = (\<lambda>_. ex_io [Fail 32, Num 0]),
      env_port = 9025, env_zero = []\<rparr>"

definition ex_smtp_main :: "unit outcome \<times> (server_point, poll_poller) world" where
  "ex_smtp_main = smtp_program pp_vtable 1 3 3 ex_smtp_env (\<lambda>n. take n [104, 0]) (replicate 1024 0)
     (init_world ex_clock (\<lambda>_. True) (new_poll_poller [] []))"

theorem smtp_program_serves_witness:
  "map co_dead (w_coros (snd ex_smtp_main)) = [False, True]
    \<and> list_all (\<lambda>co. accounted (smtp_server_part ex_smtp_env) (smtp_served ex_smtp_env [104]) (co_start co) (co_dead co)) (w_coros (snd ex_smtp_main))"
proof -
  let ?p = "new_poll_poller [] []"
  have r: "map co_dead (w_coros (snd ex_smtp_main)) = [False, True]" by code_simp
  have p: "maps_ok ?p" "waiting ?p = {#}" by (simp_all add: new_poll_poller_def waiting_def maps_ok_def map_ok_def)
  have h: "set_hostname (\<lambda>n. take n [104, 0]) (replicate 1024 0) = Val [104]" by (simp add: set_hostname_def Let_def)
  have m: "smtp_program pp_vtable 1 3 3 ex_smtp_env (\<lambda>n. take n [104, 0]) (replicate 1024 0)
      (init_world ex_clock (\<lambda>_. True) ?p) = (fst ex_smtp_main, snd ex_smtp_main)"
    by (simp add: ex_smtp_main_def)
  from smtp_program_serves [OF pp.waking_poller_axioms p h m] show ?thesis using r by simp
qed

end
