(* ===== verification/Coro_OpenSSL.thy ===== *)
theory Coro_OpenSSL
  imports Echo_Server
begin

unbundle bit_operations_syntax

section \<open>TLS with OpenSSL\<close>

text \<open>
  \<open>coro_openssl.h\<close>: the context with its list of protocols, and \<open>coro_ssl\<close> with the loops that retry a call of
  OpenSSL until it does not want to read or write any more.  The functions of OpenSSL are not under
  verification: they are calls like those of the kernel, and their results are answers of the
  list \<open>io_answers\<close>.  A connection is named by its descriptor.  What is relied on is documented:
  \<open>SSL_read\<close> stores at most what it is asked for, and a positive result of \<open>SSL_write\<close> means that all bytes
  have been written, as partial writes are not enabled.  \<open>ERR_error_string\<close> is the parameter \<open>msg\<close>.
  Lengths are below \<open>2 ^ 31\<close>, so that the conversions to \<open>int\<close> are exact.
\<close>

subsection \<open>Calls of OpenSSL\<close>

definition SSL_ERROR_WANT_READ :: int where "SSL_ERROR_WANT_READ = 2"
definition SSL_ERROR_WANT_WRITE :: int where "SSL_ERROR_WANT_WRITE = 3"
definition SSL_ERROR_SYSCALL :: int where "SSL_ERROR_SYSCALL = 5"

definition ptr_answer :: "answer \<Rightarrow> answer" where
  "ptr_answer a = (case a of Num n \<Rightarrow> Num n | _ \<Rightarrow> Num 0)"

text \<open>Calls that return a pointer or a flag: whether it is not 0.\<close>

definition sys_ok :: "call \<Rightarrow> (io, bool) op" where
  "sys_ok c = bindS (ask c ptr_answer) (\<lambda>a. ret (a \<noteq> Num 0))"

definition int_answer :: "answer \<Rightarrow> answer" where
  "int_answer a = (case a of Data bs \<Rightarrow> Num (int (length bs)) | _ \<Rightarrow> a)"

definition ssl_read_answer :: "nat \<Rightarrow> answer \<Rightarrow> answer" where
  "ssl_read_answer len a =
     (case a of Fail n \<Rightarrow> Fail n | Num n \<Rightarrow> if n < 0 then Num n else Data [] | Data bs \<Rightarrow> Data (take len bs))"

definition ssl_write_answer :: "nat \<Rightarrow> answer \<Rightarrow> answer" where
  "ssl_write_answer len a = (case a of Num n \<Rightarrow> if n > 0 then Num (int len) else Num n | Fail n \<Rightarrow> Fail n | Data bs \<Rightarrow> Num (int len))"

definition value_of :: "answer \<Rightarrow> int" where
  "value_of a = (case a of Fail n \<Rightarrow> - 1 | Num n \<Rightarrow> n | Data bs \<Rightarrow> int (length bs))"

definition sys_int :: "call \<Rightarrow> (io, int) op" where
  "sys_int c = bindS (ask c int_answer) (\<lambda>a. ret (value_of a))"

subsection \<open>The context\<close>

record ssl_ctx =
  ctx_ok :: bool
  ctx_next_protos :: "byte list"

definition new_ssl_ctx :: "string \<Rightarrow> (io, ssl_ctx) op" where
  "new_ssl_ctx combined_file =
     bindS (sys_ok (C_CTX CTX_New)) (\<lambda>ctx.
       if \<not> ctx then raise (SSL_Error ''SSL_CTX_new()'')
       else bindS (sys_ok (C_CTX (CTX_Certificate combined_file))) (\<lambda>crt.
         if \<not> crt then raise (SSL_Error ''SSL_CTX_use_certificate_chain_file()'')
         else bindS (sys_ok (C_CTX (CTX_Key combined_file))) (\<lambda>key.
           if \<not> key then raise (SSL_Error ''SSL_CTX_use_PrivateKey_file()'')
           else ret \<lparr>ctx_ok = True, ctx_next_protos = []\<rparr>)))"

definition destroy_ssl_ctx :: "ssl_ctx \<Rightarrow> (io, unit) op" where
  "destroy_ssl_ctx ctx = (if ctx_ok ctx then bindS (sys_ok (C_CTX CTX_Free)) (\<lambda>_. ret ()) else ret ())"

definition set_proto :: "64 word \<Rightarrow> (io, unit) op" where
  "set_proto proto =
     bindS (sys_int (C_CTX CTX_Get_Options)) (\<lambda>old.
       bindS (sys_int (C_CTX (CTX_Set_Options (word_of_int old OR proto)))) (\<lambda>_. ret ()))"

text \<open>The length of a protocol name goes through \<open>(char)\<close>: it is taken modulo 256.\<close>

fun add_protos :: "byte list \<Rightarrow> byte list list \<Rightarrow> byte list" where
  "add_protos protos [] = protos"
| "add_protos protos (p # ps) = add_protos (protos @ [of_nat (length p)] @ p) ps"

definition set_next_protos :: "ssl_ctx \<Rightarrow> byte list list \<Rightarrow> ssl_ctx" where
  "set_next_protos ctx next_protos = ctx\<lparr>ctx_next_protos := add_protos (ctx_next_protos ctx) next_protos\<rparr>"

definition next_protos_server_callback :: "ssl_ctx \<Rightarrow> byte list \<times> nat" where
  "next_protos_server_callback self = (ctx_next_protos self, length (ctx_next_protos self))"

subsection \<open>The connection\<close>

definition new_ssl :: "int \<Rightarrow> (io, int) op" where
  "new_ssl fd =
     bindS (new_socket fd PF_INET SOCK_STREAM 0) (\<lambda>fd'.
       on_throw
         (bindS (sys_ok (C_SSL fd' SSL_New)) (\<lambda>ssl.
            if \<not> ssl then raise (SSL_Error ''SSL_new()'')
            else bindS (sys_ok (C_SSL fd' SSL_Set_Fd)) (\<lambda>r.
              if \<not> r then raise (SSL_Error ''SSL_set_fd()'') else ret fd')))
         (cf_destroy fd'))"

definition get_next_proto_negotiated :: "int \<Rightarrow> (io, byte list) op" where
  "get_next_proto_negotiated fd =
     bindS (ask (C_SSL fd SSL_Next_Proto) id) (\<lambda>a. ret (case a of Data bs \<Rightarrow> bs | _ \<Rightarrow> []))"

definition throw_ssl_error :: "(int \<Rightarrow> string) \<Rightarrow> (io, unit) op" where
  "throw_ssl_error msg =
     bindS (sys_int (C_CTX ERR_Get_Error)) (\<lambda>error.
       if error = SSL_ERROR_SYSCALL then throw_os ''ssl''
       else bindS (sys_int (C_CTX ERR_Clear)) (\<lambda>_. raise (SSL_Error (msg error))))"

definition wait_or_error :: "(int \<Rightarrow> string) \<Rightarrow> int \<Rightarrow> int \<Rightarrow> (io, unit) op" where
  "wait_or_error msg fd code =
     bindS (sys_int (C_SSL fd (SSL_Get_Error code))) (\<lambda>error.
       if error = SSL_ERROR_WANT_READ then wait_for_read fd
       else if error = SSL_ERROR_WANT_WRITE then wait_for_write fd
       else if error = SSL_ERROR_SYSCALL then throw_os ''wait_or_error''
       else throw_ssl_error msg)"

text \<open>
  The four loops have the same form: \<open>c\<close> is the call, \<open>norm\<close> what it can answer, and \<open>again\<close> the test of its result
  for another pass.
\<close>

lemma sys_int_answers: "sys_int c e = (Val r, e') \<Longrightarrow> length (io_answers e') < length (io_answers e)"
  by (auto simp: sys_int_def bindS_iffs dest: ask_less)

lemma throw_ssl_error_answers: "throw_ssl_error msg e \<noteq> (Val u, e')"
  by (auto simp: throw_ssl_error_def throw_os_def bindS_iffs errno_def split: if_splits)

lemma wait_or_error_answers: "wait_or_error msg fd code e = (Val u, e') \<Longrightarrow> length (io_answers e') < length (io_answers e)"
  using throw_ssl_error_answers
  by (auto simp: wait_or_error_def throw_os_def bindS_iffs errno_def split: if_splits dest!: sys_int_answers wait_answers)

function ssl_retry ::
    "(int \<Rightarrow> string) \<Rightarrow> int \<Rightarrow> call \<Rightarrow> (answer \<Rightarrow> answer) \<Rightarrow> (int \<Rightarrow> bool) \<Rightarrow> (io, answer) op" where
  "ssl_retry msg fd c norm again e =
     bindS (ask c norm) (\<lambda>a e1.
       if again (value_of a)
       then bindS (wait_or_error msg fd (value_of a)) (\<lambda>_. ssl_retry msg fd c norm again) e1
       else (Val a, e1)) e"
  by pat_completeness auto
termination
  by (relation "measure (\<lambda>(msg, fd, c, norm, again, e). length (io_answers e))")
    (auto dest!: ask_less wait_or_error_answers)

declare ssl_retry.simps [simp del]

definition ssl_read :: "(int \<Rightarrow> string) \<Rightarrow> int \<Rightarrow> nat \<Rightarrow> (io, byte list) op" where
  "ssl_read msg fd len =
     bindS (ssl_retry msg fd (C_SSL fd (SSL_Read len)) (ssl_read_answer len) (\<lambda>r. r < 0))
       (\<lambda>a. ret (case a of Data bs \<Rightarrow> bs | _ \<Rightarrow> []))"

definition ssl_write :: "(int \<Rightarrow> string) \<Rightarrow> int \<Rightarrow> byte list \<Rightarrow> (io, unit) op" where
  "ssl_write msg fd bs =
     bindS (ssl_retry msg fd (C_SSL fd (SSL_Write bs)) (ssl_write_answer (length bs)) (\<lambda>r. r \<le> 0)) (\<lambda>_. ret ())"

definition ssl_listen :: "int \<Rightarrow> nat \<Rightarrow> (io, unit) op" where
  "ssl_listen fd backlog = bindS (cs_listen fd backlog) (\<lambda>_. bindS (sys_int (C_SSL fd SSL_Set_Accept)) (\<lambda>_. ret ()))"

definition ssl_accept :: "(int \<Rightarrow> string) \<Rightarrow> int \<Rightarrow> (io, unit) op" where
  "ssl_accept msg fd = bindS (ssl_retry msg fd (C_SSL fd SSL_Accept) int_answer (\<lambda>r. r \<le> 0)) (\<lambda>_. ret ())"

definition ssl_shutdown :: "(int \<Rightarrow> string) \<Rightarrow> int \<Rightarrow> int \<Rightarrow> (io, unit) op" where
  "ssl_shutdown msg fd how = bindS (ssl_retry msg fd (C_SSL fd SSL_Shutdown) int_answer (\<lambda>r. r < 0)) (\<lambda>_. ret ())"

function ssl_conn_accept :: "(int \<Rightarrow> string) \<Rightarrow> int \<Rightarrow> (io, int) op" where
  "ssl_conn_accept msg fd e =
     bindS (sys_num (C_Accept fd)) (\<lambda>c e1.
       if c > 0 then bindS (new_ssl c) (\<lambda>conn. bindS (ssl_accept msg conn) (\<lambda>_. ret conn)) e1
       else if io_errno e1 = EWOULDBLOCK then bindS (wait_for_read fd) (\<lambda>_. ssl_conn_accept msg fd) e1
       else (Raise (OS_Error ''accept'' (io_errno e1)), e1)) e"
  by pat_completeness auto
termination
  by (relation "measure (\<lambda>(msg, fd, e). length (io_answers e))") (auto dest!: sys_num_less wait_answers)

declare ssl_conn_accept.simps [simp del]

subsection \<open>The retry loops\<close>

text \<open>
  \<open>tries fd c again log\<close>: the log of the passes that did not succeed.  In each the call \<open>c\<close> is made and fails,
  OpenSSL is asked why, and the coroutine waits for exactly the event that it has named.
\<close>

inductive tries :: "int \<Rightarrow> call \<Rightarrow> (int \<Rightarrow> bool) \<Rightarrow> (call \<times> answer) list \<Rightarrow> bool" for fd c again where
  tries_none: "tries fd c again []"
| tries_read: "again (value_of a) \<Longrightarrow> tries fd c again log \<Longrightarrow>
    tries fd c again ((c, a) # (C_SSL fd (SSL_Get_Error (value_of a)), Num 2) # (C_Wait_Read fd, Num 0) # log)"
| tries_write: "again (value_of a) \<Longrightarrow> tries fd c again log \<Longrightarrow>
    tries fd c again ((c, a) # (C_SSL fd (SSL_Get_Error (value_of a)), Num 3) # (C_Wait_Write fd, Num 0) # log)"

definition retry_entry :: "int \<Rightarrow> call \<Rightarrow> (int \<Rightarrow> bool) \<Rightarrow> call \<times> answer \<Rightarrow> bool" where
  "retry_entry fd c again x \<longleftrightarrow>
     fst x = c \<and> again (value_of (snd x)) \<or> (\<exists>k. fst x = C_SSL fd (SSL_Get_Error k)) \<or> (\<exists>k. fst x = C_CTX k)
     \<or> fst x = C_Wait_Read fd \<or> fst x = C_Wait_Write fd"

lemma ask_log: "ask c norm e = (r, e') \<Longrightarrow>
   (\<exists>x. r = Val (norm x) \<and> io_log e' = io_log e @ [(c, norm x)]) \<or> r = Stuck \<and> e' = e"
  by (auto simp: ask_def split: list.splits)

lemma sys_int_log: "sys_int c e = (r, e') \<Longrightarrow>
   (\<exists>x. r = Val (value_of (int_answer x)) \<and> io_log e' = io_log e @ [(c, int_answer x)]) \<or> r = Stuck \<and> e' = e"
  by (auto simp: sys_int_def bindS_def ask_def split: list.splits)

lemma wait_log:
  "wait_for_read fd e = (r, e') \<Longrightarrow> io_log e' = io_log e @ [(C_Wait_Read fd, Num 0)] \<or> io_log e' = io_log e \<and> r \<noteq> Val ()"
  "wait_for_write fd e = (r, e') \<Longrightarrow> io_log e' = io_log e @ [(C_Wait_Write fd, Num 0)] \<or> io_log e' = io_log e \<and> r \<noteq> Val ()"
  by (auto simp: wait_for_read_def wait_for_write_def sys_wait_def split: if_splits list.splits)

lemma int_answer_value: "value_of (int_answer x) = n \<Longrightarrow> n \<noteq> - 1 \<Longrightarrow> int_answer x = Num n"
  by (cases x) (auto simp: value_of_def int_answer_def)

lemma throw_ssl_error_log:
  assumes "throw_ssl_error msg e = (r, e')"
  shows "\<exists>new. io_log e' = io_log e @ new \<and> list_all (retry_entry fd c again) new \<and> r \<noteq> Val ()"
proof -
  obtain x e1 where x: "sys_int (C_CTX ERR_Get_Error) e = (x, e1)" by (rule prod.exhaust)
  obtain y e2 where y: "sys_int (C_CTX ERR_Clear) e1 = (y, e2)" by (rule prod.exhaust)
  show ?thesis
    using assms sys_int_log [OF x] sys_int_log [OF y]
    by (auto simp: throw_ssl_error_def throw_os_def errno_def bindS_def x y retry_entry_def split: if_splits)
qed

lemma wait_or_error_log:
  assumes "wait_or_error msg fd code e = (r, e')"
  shows "\<exists>new. io_log e' = io_log e @ new \<and> list_all (retry_entry fd c again) new \<and>
    (r = Val () \<longrightarrow> new = [(C_SSL fd (SSL_Get_Error code), Num 2), (C_Wait_Read fd, Num 0)]
      \<or> new = [(C_SSL fd (SSL_Get_Error code), Num 3), (C_Wait_Write fd, Num 0)])"
proof -
  obtain x e1 where x: "sys_int (C_SSL fd (SSL_Get_Error code)) e = (x, e1)" by (rule prod.exhaust)
  obtain y e2 where y: "wait_for_read fd e1 = (y, e2)" by (rule prod.exhaust)
  obtain z e3 where z: "wait_for_write fd e1 = (z, e3)" by (rule prod.exhaust)
  obtain t e4 where t: "throw_ssl_error msg e1 = (t, e4)" by (rule prod.exhaust)
  note logs = wait_log(1) [OF y] wait_log(2) [OF z] throw_ssl_error_log [OF t, of fd c again]
  from sys_int_log [OF x] show ?thesis
  proof (elim disjE exE conjE)
    fix v assume v: "x = Val (value_of (int_answer v))"
      "io_log e1 = io_log e @ [(C_SSL fd (SSL_Get_Error code), int_answer v)]"
    then show ?thesis using assms logs int_answer_value [OF refl, of v]
      by (auto simp: wait_or_error_def throw_os_def errno_def bindS_def x y z t retry_entry_def
          SSL_ERROR_WANT_READ_def SSL_ERROR_WANT_WRITE_def SSL_ERROR_SYSCALL_def split: if_splits)
  next
    assume "x = Stuck" "e1 = e"
    then show ?thesis using assms by (auto simp: wait_or_error_def bindS_def x)
  qed
qed

lemma ssl_retry_log:
  "ssl_retry msg fd c norm again e = (r, e') \<Longrightarrow>
   \<exists>pre. io_log e' = io_log e @ pre @ (case r of Val a \<Rightarrow> [(c, a)] | _ \<Rightarrow> []) \<and> list_all (retry_entry fd c again) pre
     \<and> (\<forall>a. r = Val a \<longrightarrow> tries fd c again pre \<and> \<not> again (value_of a) \<and> (\<exists>x. a = norm x))"
proof (induction msg fd c norm again e arbitrary: r e' rule: ssl_retry.induct)
  case (1 msg fd c norm again e)
  note eq = ssl_retry.simps [of msg fd c norm again e]
  obtain x e1 where x: "ask c norm e = (x, e1)" by (rule prod.exhaust)
  from ask_log [OF x] show ?case
  proof (elim disjE exE conjE)
    fix v assume v: "x = Val (norm v)" and log1: "io_log e1 = io_log e @ [(c, norm v)]"
    show ?thesis
    proof (cases "again (value_of (norm v))")
      case True
      obtain y e2 where w: "wait_or_error msg fd (value_of (norm v)) e1 = (y, e2)" by (rule prod.exhaust)
      obtain new where new: "io_log e2 = io_log e1 @ new" "list_all (retry_entry fd c again) new"
        "y = Val () \<Longrightarrow> new = [(C_SSL fd (SSL_Get_Error (value_of (norm v))), Num 2), (C_Wait_Read fd, Num 0)]
          \<or> new = [(C_SSL fd (SSL_Get_Error (value_of (norm v))), Num 3), (C_Wait_Write fd, Num 0)]"
        using wait_or_error_log [OF w, of c again] by blast
      have ok: "list_all (retry_entry fd c again) ((c, norm v) # new)" using new(2) True by (simp add: retry_entry_def)
      show ?thesis
      proof (cases y)
        case (Val u)
        then have w': "wait_or_error msg fd (value_of (norm v)) e1 = (Val (), e2)" using w by simp
        have "ssl_retry msg fd c norm again e2 = (r, e')"
          using "1.prems" x v True w' by (simp add: eq bindS_def)
        from "1.IH" [OF x [unfolded v] True w' this] obtain pre where pre:
          "io_log e' = io_log e2 @ pre @ (case r of Val a \<Rightarrow> [(c, a)] | _ \<Rightarrow> [])" "list_all (retry_entry fd c again) pre"
          "\<forall>a. r = Val a \<longrightarrow> tries fd c again pre \<and> \<not> again (value_of a) \<and> (\<exists>x. a = norm x)" by blast
        have "tries fd c again pre \<Longrightarrow> tries fd c again ((c, norm v) # new @ pre)"
          using new(3) Val True by (auto intro: tries_read tries_write)
        then show ?thesis using pre new(1) log1 ok by (intro exI [of _ "(c, norm v) # new @ pre"]) simp
      qed (use "1.prems" x v True w new(1) log1 ok in \<open>auto simp: eq bindS_def\<close>)
    next
      case False
      then show ?thesis using "1.prems" x v log1 by (auto simp: eq bindS_def tries_none intro!: exI [of _ "[]"])
    qed
  next
    assume "x = Stuck" "e1 = e"
    then show ?thesis using "1.prems" x by (auto simp: eq bindS_def)
  qed
qed

subsection \<open>Reading and writing\<close>

text \<open>The plain text that OpenSSL has delivered on a connection, and that it has taken.\<close>

primrec plain_in_log :: "int \<Rightarrow> (call \<times> answer) list \<Rightarrow> byte list" where
  "plain_in_log fd [] = []"
| "plain_in_log fd (x # xs) =
     (case x of (C_SSL f (SSL_Read n), Data bs) \<Rightarrow> if f = fd then bs else [] | _ \<Rightarrow> []) @ plain_in_log fd xs"

primrec plain_out_log :: "int \<Rightarrow> (call \<times> answer) list \<Rightarrow> byte list" where
  "plain_out_log fd [] = []"
| "plain_out_log fd (x # xs) =
     (case x of (C_SSL f (SSL_Write bs), Num n) \<Rightarrow> if f = fd \<and> n > 0 then bs else [] | _ \<Rightarrow> []) @ plain_out_log fd xs"

definition plain_in :: "int \<Rightarrow> io \<Rightarrow> byte list" where
  "plain_in fd e = plain_in_log fd (io_log e)"

definition plain_out :: "int \<Rightarrow> io \<Rightarrow> byte list" where
  "plain_out fd e = plain_out_log fd (io_log e)"

lemma plain_append [simp]:
  "plain_in_log fd (xs @ ys) = plain_in_log fd xs @ plain_in_log fd ys"
  "plain_out_log fd (xs @ ys) = plain_out_log fd xs @ plain_out_log fd ys"
  by (induction xs) simp_all

lemma plain_of_retries:
  "list_all (retry_entry fd (C_SSL fd (SSL_Read n)) (\<lambda>r. r < 0)) pre \<Longrightarrow> plain_in_log fd pre = []"
  "list_all (retry_entry fd (C_SSL fd (SSL_Write bs)) (\<lambda>r. r \<le> 0)) pre \<Longrightarrow> plain_out_log fd pre = []"
  by (induction pre) (auto simp: retry_entry_def value_of_def split: answer.splits)

lemma ssl_read_log:
  assumes "ssl_read msg fd len e = (r, e')"
  shows "\<exists>pre. plain_in_log fd pre = [] \<and> io_log e' = io_log e @ pre @
      (case r of Val bs \<Rightarrow> [(C_SSL fd (SSL_Read len), Data bs)] | _ \<Rightarrow> [])
    \<and> (\<forall>bs. r = Val bs \<longrightarrow> length bs \<le> len \<and> tries fd (C_SSL fd (SSL_Read len)) (\<lambda>r. r < 0) pre)"
proof -
  obtain x where x: "ssl_retry msg fd (C_SSL fd (SSL_Read len)) (ssl_read_answer len) (\<lambda>r. r < 0) e = (x, e')"
    and r: "r = (case x of Val a \<Rightarrow> Val (case a of Data bs \<Rightarrow> bs | _ \<Rightarrow> []) | Raise ex \<Rightarrow> Raise ex | Stuck \<Rightarrow> Stuck)"
    using assms by (auto simp: ssl_read_def bindS_def split: prod.splits outcome.splits)
  obtain pre where pre: "io_log e' = io_log e @ pre @ (case x of Val a \<Rightarrow> [(C_SSL fd (SSL_Read len), a)] | _ \<Rightarrow> [])"
    "list_all (retry_entry fd (C_SSL fd (SSL_Read len)) (\<lambda>r. r < 0)) pre"
    "\<And>a. x = Val a \<Longrightarrow> tries fd (C_SSL fd (SSL_Read len)) (\<lambda>r. r < 0) pre \<and> \<not> value_of a < 0
      \<and> (\<exists>y. a = ssl_read_answer len y)"
    using ssl_retry_log [OF x] by blast
  have "\<exists>bs. a = Data bs \<and> length bs \<le> len" if v: "x = Val a" for a
  proof -
    obtain y where "a = ssl_read_answer len y" "\<not> value_of a < 0" using pre(3) [OF v] by blast
    then show ?thesis by (cases y) (auto simp: ssl_read_answer_def value_of_def split: if_splits)
  qed
  then show ?thesis using pre plain_of_retries(1) [OF pre(2)] r
    by (intro exI [of _ pre]) (fastforce split: outcome.splits)
qed

lemma ssl_write_log:
  assumes "ssl_write msg fd bs e = (r, e')"
  shows "\<exists>pre. plain_out_log fd pre = [] \<and> io_log e' = io_log e @ pre @
      (case r of Val _ \<Rightarrow> [(C_SSL fd (SSL_Write bs), Num (int (length bs)))] | _ \<Rightarrow> [])
    \<and> (r = Val () \<longrightarrow> bs \<noteq> [] \<and> tries fd (C_SSL fd (SSL_Write bs)) (\<lambda>r. r \<le> 0) pre)"
proof -
  obtain x where x: "ssl_retry msg fd (C_SSL fd (SSL_Write bs)) (ssl_write_answer (length bs)) (\<lambda>r. r \<le> 0) e = (x, e')"
    and r: "r = (case x of Val a \<Rightarrow> Val () | Raise ex \<Rightarrow> Raise ex | Stuck \<Rightarrow> Stuck)"
    using assms by (auto simp: ssl_write_def bindS_def split: prod.splits outcome.splits)
  obtain pre where pre: "io_log e' = io_log e @ pre @ (case x of Val a \<Rightarrow> [(C_SSL fd (SSL_Write bs), a)] | _ \<Rightarrow> [])"
    "list_all (retry_entry fd (C_SSL fd (SSL_Write bs)) (\<lambda>r. r \<le> 0)) pre"
    "\<And>a. x = Val a \<Longrightarrow> tries fd (C_SSL fd (SSL_Write bs)) (\<lambda>r. r \<le> 0) pre \<and> \<not> value_of a \<le> 0
      \<and> (\<exists>y. a = ssl_write_answer (length bs) y)"
    using ssl_retry_log [OF x] by blast
  have "a = Num (int (length bs)) \<and> bs \<noteq> []" if v: "x = Val a" for a
  proof -
    obtain y where "a = ssl_write_answer (length bs) y" "\<not> value_of a \<le> 0" using pre(3) [OF v] by blast
    then show ?thesis by (cases y) (auto simp: ssl_write_answer_def value_of_def split: if_splits)
  qed
  then show ?thesis using pre plain_of_retries(2) [OF pre(2)] r
    by (intro exI [of _ pre]) (fastforce split: outcome.splits)
qed

text \<open>The decrypting read is a source of plain text, like \<open>coro_file::read\<close> is one of raw bytes.\<close>

interpretation ssl: byte_source "ssl_read msg fd" "plain_in fd"
proof
  show "plain_in fd e' = plain_in fd e @ bs \<and> length bs \<le> n" if "ssl_read msg fd n e = (Val bs, e')" for n e bs e'
    using ssl_read_log [OF that] by (auto simp: plain_in_def)
  show "plain_in fd e' = plain_in fd e" if "ssl_read msg fd n e = (r, e')" "\<And>bs. r \<noteq> Val bs" for n e r e'
    using ssl_read_log [OF that(1)] that(2) by (auto simp: plain_in_def split: outcome.splits)
qed

text \<open>
  C26: \<open>write\<close> over TLS hands the whole text to OpenSSL exactly once, and \<open>read\<close> returns exactly what OpenSSL
  has decrypted; until then each call that fails is followed by the question why, by a wait for
  exactly the event that OpenSSL has asked for, whatever the direction of the call, and by the
  same call again.
\<close>

theorem ssl_retries_until_done:
  "(ssl_write msg fd bs e = (Val (), e1) \<longrightarrow>
      (\<exists>pre. io_log e1 = io_log e @ pre @ [(C_SSL fd (SSL_Write bs), Num (int (length bs)))]
        \<and> tries fd (C_SSL fd (SSL_Write bs)) (\<lambda>r. r \<le> 0) pre \<and> plain_out fd e1 = plain_out fd e @ bs))
   \<and> (ssl_read msg fd len e = (Val s, e2) \<longrightarrow>
      (\<exists>pre. io_log e2 = io_log e @ pre @ [(C_SSL fd (SSL_Read len), Data s)]
        \<and> tries fd (C_SSL fd (SSL_Read len)) (\<lambda>r. r < 0) pre \<and> plain_in fd e2 = plain_in fd e @ s))"
proof (intro conjI impI)
  assume w: "ssl_write msg fd bs e = (Val (), e1)"
  show "\<exists>pre. io_log e1 = io_log e @ pre @ [(C_SSL fd (SSL_Write bs), Num (int (length bs)))]
        \<and> tries fd (C_SSL fd (SSL_Write bs)) (\<lambda>r. r \<le> 0) pre \<and> plain_out fd e1 = plain_out fd e @ bs"
    using ssl_write_log [OF w] by (auto simp: plain_out_def)
next
  assume r: "ssl_read msg fd len e = (Val s, e2)"
  show "\<exists>pre. io_log e2 = io_log e @ pre @ [(C_SSL fd (SSL_Read len), Data s)]
        \<and> tries fd (C_SSL fd (SSL_Read len)) (\<lambda>r. r < 0) pre \<and> plain_in fd e2 = plain_in fd e @ s"
    using ssl_read_log [OF r] by (auto simp: plain_in_def)
qed

theorem ssl_retries_until_done_witness:
  "plain_out 4 (snd (ssl_write (\<lambda>_. []) 4 [1, 2] (ex_io [Num (- 1), Num 2, Num 2]))) = [1, 2]
   \<and> plain_in 4 (snd (ssl_read (\<lambda>_. []) 4 5 (ex_io [Num (- 1), Num 3, Data [7]]))) = [7]"
proof -
  let ?w = "ssl_write (\<lambda>_. []) 4 [1, 2] (ex_io [Num (- 1), Num 2, Num 2])"
  let ?r = "ssl_read (\<lambda>_. []) 4 5 (ex_io [Num (- 1), Num 3, Data [7]])"
  have "fst ?w = Val ()" "fst ?r = Val [7]" by code_simp+
  then have w: "?w = (Val (), snd ?w)" and r: "?r = (Val [7], snd ?r)" by (metis prod.collapse)+
  have z: "plain_out 4 (ex_io as) = []" "plain_in 4 (ex_io as) = []" for as
    by (simp_all add: plain_out_def plain_in_def ex_io_def)
  show ?thesis
    using conjunct1 [OF ssl_retries_until_done, rule_format, OF w] conjunct2 [OF ssl_retries_until_done, rule_format, OF r]
    by (auto simp: z)
qed

subsection \<open>The buffer over a TLS connection\<close>

text \<open>
  \<open>read (char *, size_t)\<close> of \<open>coro_ssl\<close> does not have the signature of the virtual \<open>read (void *, size_t)\<close> and so
  does not override it: what \<open>coro_file::read (std::string &)\<close>, and with it \<open>coro_buffer\<close>, calls on a
  \<open>coro_ssl\<close> object is still \<open>coro_file::read\<close>.  (\<open>write\<close> has the signature of the virtual one.)
\<close>

definition ssl_virtual_read :: "int \<Rightarrow> nat \<Rightarrow> (io, byte list) op" where
  "ssl_virtual_read fd len = cf_read fd len"

lemma ignores_plain [simp]:
  "(\<And>n. c \<noteq> C_SSL fd (SSL_Read n)) \<Longrightarrow> ignores (plain_in fd) c"
  "(\<And>bs. c \<noteq> C_SSL fd (SSL_Write bs)) \<Longrightarrow> ignores (plain_out fd) c"
  by (cases c; auto simp: ignores_def plain_in_def plain_out_def split: answer.splits ssl_call.splits)+

text \<open>
  a flaw.  Over TLS a \<open>coro_buffer\<close> gives the application the raw bytes of the connection: what \<open>get\<close> returns and
  keeps comes from the descriptor itself, and OpenSSL is not asked to decrypt anything.
\<close>

theorem ssl_buffer_reads_ciphertext:
  assumes "get_line g (ssl_virtual_read fd) (b, e) = (Val (closed, line), (b', e'))"
  shows "(\<exists>raw. received fd e' = received fd e @ raw \<and> line @ b' = b @ raw) \<and> plain_in fd e' = plain_in fd e"
proof -
  have r: "ssl_virtual_read fd = cf_read fd" by (rule ext) (simp add: ssl_virtual_read_def)
  have "plain_in fd (snd (b', e')) = plain_in fd (snd (b, e))"
    using get_line_steady [of "plain_in fd" "cf_read fd" g, OF _ assms [unfolded r]] by (simp add: steady_cf_read)
  then show ?thesis using get_line_returns [OF assms [unfolded r]] by auto
qed

theorem ssl_buffer_reads_ciphertext_witness:
  "plain_in 4 (snd (snd (get_line 5 (ssl_virtual_read 4) ([], ex_io [Data [23, 3, 3, 13, 10]])))) = []"
proof -
  let ?e = "ex_io [Data [23, 3, 3, 13, 10]]"
  let ?r = "get_line 5 (ssl_virtual_read 4) ([], ?e)"
  have "fst ?r = Val (False, [23, 3, 3, 13, 10])"
    by (simp add: get_line_def get_simps ssl_virtual_read_def)
  then have r: "?r = (Val (False, [23, 3, 3, 13, 10]), (fst (snd ?r), snd (snd ?r)))" by (metis prod.collapse)
  have "plain_in 4 ?e = []" by (simp add: plain_in_def ex_io_def)
  with conjunct2 [OF ssl_buffer_reads_ciphertext [OF r]] show ?thesis by simp
qed

subsection \<open>The list of protocols\<close>

text \<open>The wire format of the list: names that each follow a byte with their length.\<close>

function decode_protos :: "byte list \<Rightarrow> byte list list option" where
  "decode_protos [] = Some []"
| "decode_protos (n # xs) =
     (if unat n \<le> length xs then map_option ((#) (take (unat n) xs)) (decode_protos (drop (unat n) xs)) else None)"
  by pat_completeness auto
termination by (relation "measure length") auto

lemma add_protos_append: "add_protos protos ps = protos @ add_protos [] ps"
proof (induction ps arbitrary: protos)
  case (Cons p ps)
  show ?case unfolding add_protos.simps
    using Cons.IH [of "protos @ [of_nat (length p)] @ p"] Cons.IH [of "[] @ [of_nat (length p)] @ p"] by simp
qed simp

text \<open>
  C29: the list that \<open>set_next_protos\<close> builds and the callback hands out can be taken apart into the names again, in
  order, if and only if no name has more than 255 bytes; the length of a longer one is cut to 8 bits.
\<close>

theorem next_protos_roundtrip:
  assumes "ctx_next_protos ctx = []"
  shows "decode_protos (fst (next_protos_server_callback (set_next_protos ctx ps))) = Some ps
    \<longleftrightarrow> (\<forall>p \<in> set ps. length p < 256)"
proof -
  have "decode_protos (add_protos [] ps) = Some ps \<longleftrightarrow> (\<forall>p \<in> set ps. length p < 256)"
  proof (induction ps)
    case (Cons p ps)
    have eq: "add_protos [] (p # ps) = of_nat (length p) # p @ add_protos [] ps"
      using add_protos_append [of "[of_nat (length p)] @ p" ps] by simp
    have u: "unat (of_nat (length p) :: byte) = length p mod 256" by (simp add: unat_of_nat)
    show ?case
    proof (cases "length p < 256")
      case True
      then show ?thesis using Cons.IH by (simp add: eq u del: add_protos.simps)
    next
      case False
      then have l: "length p mod 256 < length p" using mod_less_divisor [of 256 "length p"] by linarith
      then have "take (length p mod 256) (p @ add_protos [] ps) \<noteq> p"
        by (auto dest!: arg_cong [where f = length])
      then show ?thesis using False by (auto simp: eq u simp del: add_protos.simps)
    qed
  qed simp
  then show ?thesis using assms by (simp add: next_protos_server_callback_def set_next_protos_def)
qed

theorem next_protos_roundtrip_witness:
  "decode_protos (fst (next_protos_server_callback (set_next_protos \<lparr>ctx_ok = True, ctx_next_protos = []\<rparr>
     [[104, 50], [120]]))) = Some [[104, 50], [120]]"
  using next_protos_roundtrip [of "\<lparr>ctx_ok = True, ctx_next_protos = []\<rparr>" "[[104, 50], [120]]"] by simp

subsection \<open>A server over TLS\<close>

text \<open>
  a flaw.  \<open>accept\<close> does the handshake of the new connection in the coroutine of the server (the comment
  there says that it should not).  One client whose handshake fails makes \<open>accept\<close> throw, which ends the
  loop that accepts connections, whatever its fuel, and the new connection is never closed.
\<close>

theorem failed_handshake_stops_server:
  assumes "io_answers e = Num c # Num s # Num 1 # Num r # Num 1 # Num k # Num m # as"
    and "0 < c" "s \<noteq> 0" "r \<le> 0" "k \<noteq> 5"
  shows "\<exists>e'. accept_loop (Suc n) (ssl_conn_accept msg fd) (e, started) = (Raise (SSL_Error (msg k)), (e', started))
    \<and> closes c e' = closes c e"
proof -
  obtain e1 where a: "sys_num (C_Accept fd) e = (Val c, e1)"
    and e1: "io_answers e1 = Num s # Num 1 # Num r # Num 1 # Num k # Num m # as" "closes c e1 = closes c e"
    using assms by (simp add: sys_num_def bindS_def ask_def num_answer_def closes_def max_def)
  obtain e2 where n: "new_ssl c e1 = (Val c, e2)"
    and e2: "io_answers e2 = Num r # Num 1 # Num k # Num m # as" "closes c e2 = closes c e"
    using assms(2,3) e1
    by (simp add: new_ssl_def new_socket_def on_throw_def bindS_def sys_ok_def ask_def ptr_answer_def closes_def)
  obtain e3 where h: "ssl_accept msg c e2 = (Raise (SSL_Error (msg k)), e3)" "closes c e3 = closes c e"
    using assms(4,5) e2
    by (simp add: ssl_accept_def ssl_retry.simps [of msg c _ _ _ e2] bindS_def ask_def int_answer_def value_of_def
        wait_or_error_def throw_ssl_error_def sys_int_def SSL_ERROR_WANT_READ_def SSL_ERROR_WANT_WRITE_def
        SSL_ERROR_SYSCALL_def closes_def)
  have "ssl_conn_accept msg fd e = (Raise (SSL_Error (msg k)), e3)"
    using assms(2) by (simp add: ssl_conn_accept.simps [of msg fd e] bindS_def a n h(1))
  then show ?thesis using h(2) by simp
qed

theorem failed_handshake_stops_server_witness:
  "fst (accept_loop (Suc 8) (ssl_conn_accept (\<lambda>_. ''alert'') 3)
      (ex_io [Num 7, Num 1, Num 1, Num (- 1), Num 1, Num 99, Num 0, Num 8], [])) = Raise (SSL_Error ''alert'')"
proof -
  let ?e = "ex_io [Num 7, Num 1, Num 1, Num (- 1), Num 1, Num 99, Num 0, Num 8]"
  obtain e' where "accept_loop (Suc 8) (ssl_conn_accept (\<lambda>_. ''alert'') 3) (?e, []) = (Raise (SSL_Error ''alert''), (e', []))"
    using failed_handshake_stops_server [of ?e 7 1 "- 1" 99 0 "[Num 8]" 8 "\<lambda>_. ''alert''" 3 "[]"]
    by (auto simp: ex_io_def)
  then show ?thesis by simp
qed

end
