(* ===== verification/Coro_S2N.thy ===== *)
theory Coro_S2N
  imports Coro_OpenSSL
begin

section \<open>TLS with s2n\<close>

text \<open>
  \<open>coro_s2n.h\<close>: the configuration and \<open>coro_s2n\<close>.  The calls of s2n are answers of the list, like those of
  OpenSSL; the output parameter \<open>blocked\<close> of a call is the answer after that of the call itself.  The
  state of a connection is the flag \<open>_negotiated\<close> next to the state of the system.  What is relied on is
  documented: \<open>s2n_recv\<close> and \<open>s2n_send\<close> transfer at most what they are asked to, and \<open>blocked\<close> is always set.
\<close>

datatype blocked = Not_Blocked | On_Read | On_Write

definition blocked_answer :: "answer \<Rightarrow> answer" where
  "blocked_answer a = (if a = Num 1 \<or> a = Num 2 then a else Num 0)"

definition blocked_of :: "answer \<Rightarrow> blocked" where
  "blocked_of a = (if a = Num 1 then On_Read else if a = Num 2 then On_Write else Not_Blocked)"

definition s2n_recv_answer :: "nat \<Rightarrow> answer \<Rightarrow> answer" where
  "s2n_recv_answer len a = (case a of Fail n \<Rightarrow> Fail n | Num n \<Rightarrow> Data [] | Data bs \<Rightarrow> Data (take len bs))"

definition s2n_send_answer :: "nat \<Rightarrow> answer \<Rightarrow> answer" where
  "s2n_send_answer len a =
     (case a of Fail n \<Rightarrow> Fail n | Num n \<Rightarrow> Num (min (max 0 n) (int len)) | Data bs \<Rightarrow> Num 0)"

text \<open>A call with its result and the value of \<open>blocked\<close>.\<close>

definition s2n_call :: "int \<Rightarrow> s2n_call \<Rightarrow> (answer \<Rightarrow> answer) \<Rightarrow> (io, answer \<times> blocked) op" where
  "s2n_call fd c norm =
     bindS (ask (C_S2N fd c) norm) (\<lambda>a.
       bindS (ask (C_S2N fd S2N_Blocked) blocked_answer) (\<lambda>b. ret (a, blocked_of b)))"

subsection \<open>Configuration and connection\<close>

definition new_s2n_cfg :: "byte list \<Rightarrow> byte list \<Rightarrow> (io, bool) op" where
  "new_s2n_cfg crt key =
     bindS (sys_ok (C_S2N 0 S2N_Config_New)) (\<lambda>cfg.
       if \<not> cfg then raise (S2N_Error ''s2n_config_new()'')
       else bindS (sys_num (C_S2N 0 (S2N_Config_Add crt key))) (\<lambda>r.
         if r < 0 then raise (S2N_Error ''s2n_config_add_cert_chain_and_key()'') else ret True))"

definition destroy_s2n_cfg :: "bool \<Rightarrow> (io, unit) op" where
  "destroy_s2n_cfg cfg = (if cfg then bindS (sys_num (C_S2N 0 S2N_Config_Free)) (\<lambda>_. ret ()) else ret ())"

definition new_s2n :: "int \<Rightarrow> (io, int \<times> bool) op" where
  "new_s2n fd =
     bindS (new_socket fd PF_INET SOCK_STREAM 0) (\<lambda>fd'.
       on_throw
         (bindS (sys_ok (C_S2N fd' S2N_New)) (\<lambda>conn.
            if \<not> conn then raise (S2N_Error ''s2n_connection_new'')
            else bindS (sys_num (C_S2N fd' S2N_Set_Config)) (\<lambda>r.
              if r < 0 then raise (S2N_Error ''s2n_connection_set_config'')
              else bindS (sys_ok (C_S2N fd' S2N_Set_Fd)) (\<lambda>r2.
                if r2 then raise (S2N_Error ''s2n_connection_set_fd'') else ret (fd', False)))))
         (cf_destroy fd'))"

definition destroy_s2n :: "int \<Rightarrow> (io, int) op" where
  "destroy_s2n fd = bindS (sys_num (C_S2N fd S2N_Free)) (\<lambda>_. cf_destroy fd)"

definition s2n_accept :: "int \<Rightarrow> (io, int \<times> bool) op" where
  "s2n_accept fd = bindS (accept_fd fd) new_s2n"

subsection \<open>Reading and writing\<close>

definition check :: "string \<Rightarrow> int \<Rightarrow> (io, int) op" where
  "check fun r =
     (if r < 0 then bindS errno (\<lambda>n. if n = EWOULDBLOCK then ret 0 else raise (S2N_Error fun)) else ret r)"

definition wait_on_event :: "int \<Rightarrow> blocked \<Rightarrow> (io, bool) op" where
  "wait_on_event fd b =
     (case b of
        On_Read \<Rightarrow> bindS (wait_for_read fd) (\<lambda>_. ret False)
      | On_Write \<Rightarrow> bindS (wait_for_write fd) (\<lambda>_. ret False)
      | Not_Blocked \<Rightarrow> ret True)"

lemma s2n_call_less: "s2n_call fd c norm e = (Val r, e') \<Longrightarrow> length (io_answers e') < length (io_answers e)"
  by (fastforce simp: s2n_call_def bindS_iffs dest: ask_less)

lemma check_answers: "check fun r e = (x, e') \<Longrightarrow> e' = e"
  by (auto simp: check_def errno_def bindS_def split: if_splits)

lemma wait_on_event_answers: "wait_on_event fd b e = (r, e') \<Longrightarrow> io_answers e' = io_answers e"
  by (cases b) (auto simp: wait_on_event_def bindS_def split: prod.splits outcome.splits dest: wait_answers)

text \<open>
  One pass of a loop: the call, \<open>_check\<close> on its result and \<open>_wait_on_event\<close>.  The result is what the
  call has returned and whether the loop ends.
\<close>

definition s2n_pass :: "int \<Rightarrow> string \<Rightarrow> s2n_call \<Rightarrow> (answer \<Rightarrow> answer) \<Rightarrow> (io, answer \<times> bool) op" where
  "s2n_pass fd fun c norm =
     bindS (s2n_call fd c norm) (\<lambda>x.
       bindS (check fun (value_of (fst x))) (\<lambda>_.
         bindS (wait_on_event fd (snd x)) (\<lambda>done. ret (fst x, done))))"

lemma s2n_pass_less: "s2n_pass fd fun c norm e = (Val r, e') \<Longrightarrow> length (io_answers e') < length (io_answers e)"
  by (auto simp: s2n_pass_def bindS_iffs dest!: check_answers wait_on_event_answers s2n_call_less)

function negotiate_loop :: "int \<Rightarrow> (io, unit) op" where
  "negotiate_loop fd e =
     bindS (s2n_pass fd ''s2n_negotiate'' S2N_Negotiate num_answer) (\<lambda>x e1.
       if snd x then (Val (), e1) else negotiate_loop fd e1) e"
  by pat_completeness auto
termination by (relation "measure (\<lambda>(fd, e). length (io_answers e))") (auto dest: s2n_pass_less)

declare negotiate_loop.simps [simp del]

type_synonym tls = "io \<times> bool"

definition on_conn :: "(io, 'a) op \<Rightarrow> (tls, 'a) op" where
  "on_conn m s = (case m (fst s) of (r, e) \<Rightarrow> (r, (e, snd s)))"

definition check_negotiate :: "int \<Rightarrow> (tls, unit) op" where
  "check_negotiate fd s =
     (if \<not> snd s then bindS (on_conn (negotiate_loop fd)) (\<lambda>_ s1. (Val (), (fst s1, True))) s else (Val (), s))"

text \<open>\<open>read\<close> collects the bytes in the buffer; \<open>got\<close> is what is in it, and \<open>nbytes\<close> its length.\<close>

definition data_of :: "answer \<Rightarrow> byte list" where
  "data_of a = (case a of Data bs \<Rightarrow> bs | _ \<Rightarrow> [])"

function recv_loop :: "int \<Rightarrow> nat \<Rightarrow> byte list \<Rightarrow> (io, byte list) op" where
  "recv_loop fd len got e =
     bindS (s2n_pass fd ''s2n_recv'' (S2N_Recv (len - length got)) (s2n_recv_answer (len - length got))) (\<lambda>x e1.
       if snd x then (Val (got @ data_of (fst x)), e1) else recv_loop fd len (got @ data_of (fst x)) e1) e"
  by pat_completeness auto
termination by (relation "measure (\<lambda>(fd, len, got, e). length (io_answers e))") (auto dest: s2n_pass_less)

declare recv_loop.simps [simp del]

definition s2n_read :: "int \<Rightarrow> nat \<Rightarrow> (tls, byte list) op" where
  "s2n_read fd len = bindS (check_negotiate fd) (\<lambda>_. on_conn (recv_loop fd len []))"

text \<open>\<open>write\<close> sends what has not been taken yet.\<close>

definition count_of :: "answer \<Rightarrow> nat" where
  "count_of a = (case a of Num n \<Rightarrow> nat n | _ \<Rightarrow> 0)"

function send_loop :: "int \<Rightarrow> byte list \<Rightarrow> (io, unit) op" where
  "send_loop fd p e =
     bindS (s2n_pass fd ''s2n_send'' (S2N_Send p) (s2n_send_answer (length p))) (\<lambda>x e1.
       if snd x then (Val (), e1) else send_loop fd (drop (count_of (fst x)) p) e1) e"
  by pat_completeness auto
termination by (relation "measure (\<lambda>(fd, p, e). length (io_answers e))") (auto dest: s2n_pass_less)

declare send_loop.simps [simp del]

definition s2n_write :: "int \<Rightarrow> byte list \<Rightarrow> (tls, unit) op" where
  "s2n_write fd bs = bindS (check_negotiate fd) (\<lambda>_. on_conn (send_loop fd bs))"

function s2n_shutdown_loop :: "int \<Rightarrow> (io, unit) op" where
  "s2n_shutdown_loop fd e =
     bindS (s2n_pass fd ''s2n_shutdown'' S2N_Shutdown num_answer) (\<lambda>x e1.
       if snd x then (Val (), e1) else s2n_shutdown_loop fd e1) e"
  by pat_completeness auto
termination by (relation "measure (\<lambda>(fd, e). length (io_answers e))") (auto dest: s2n_pass_less)

declare s2n_shutdown_loop.simps [simp del]

definition s2n_shutdown :: "int \<Rightarrow> int \<Rightarrow> (tls, unit) op" where
  "s2n_shutdown fd how = on_conn (s2n_shutdown_loop fd)"

subsection \<open>What a pass does\<close>

text \<open>The entries of the log that belong to calls of a kind, their \<open>blocked\<close> and the waits.\<close>

definition entry_of :: "int \<Rightarrow> (s2n_call \<Rightarrow> bool) \<Rightarrow> call \<times> answer \<Rightarrow> bool" where
  "entry_of fd P x \<longleftrightarrow>
     (case fst x of C_S2N f c \<Rightarrow> f = fd \<and> (P c \<or> c = S2N_Blocked) | C_Wait_Read f \<Rightarrow> f = fd | C_Wait_Write f \<Rightarrow> f = fd | _ \<Rightarrow> False)"

lemma blocked_answer_cases:
  "blocked_answer w = Num 0 \<and> blocked_of (blocked_answer w) = Not_Blocked
   \<or> blocked_answer w = Num 1 \<and> blocked_of (blocked_answer w) = On_Read
   \<or> blocked_answer w = Num 2 \<and> blocked_of (blocked_answer w) = On_Write"
  by (auto simp: blocked_answer_def blocked_of_def)

lemma s2n_pass_log:
  assumes "s2n_pass fd fun c norm e = (r, e')"
  shows "\<exists>new. io_log e' = io_log e @ new \<and> (new = [] \<and> (\<forall>v. r \<noteq> Val v) \<or>
     (\<exists>x post. new = (C_S2N fd c, norm x) # post \<and> list_all (entry_of fd (\<lambda>_. False)) post
       \<and> (\<forall>a d. r = Val (a, d) \<longrightarrow> a = norm x \<and> (d \<longrightarrow> post = [(C_S2N fd S2N_Blocked, Num 0)]))))"
proof -
  obtain x e1 where x: "ask (C_S2N fd c) norm e = (x, e1)" by (rule prod.exhaust)
  obtain y e2 where y: "ask (C_S2N fd S2N_Blocked) blocked_answer e1 = (y, e2)" by (rule prod.exhaust)
  obtain z e3 where z: "wait_for_read fd e2 = (z, e3)" by (rule prod.exhaust)
  obtain t e4 where t: "wait_for_write fd e2 = (t, e4)" by (rule prod.exhaust)
  from ask_log [OF x] show ?thesis
  proof (elim disjE exE conjE)
    assume "x = Stuck" "e1 = e"
    then show ?thesis using assms x by (auto simp: s2n_pass_def s2n_call_def bindS_def)
  next
    fix v assume v: "x = Val (norm v)" "io_log e1 = io_log e @ [(C_S2N fd c, norm v)]"
    from ask_log [OF y] show ?thesis
    proof (elim disjE exE conjE)
      assume "y = Stuck" "e2 = e1"
      then show ?thesis using assms x y v by (auto simp: s2n_pass_def s2n_call_def bindS_def)
    next
      fix w assume w: "y = Val (blocked_answer w)" "io_log e2 = io_log e1 @ [(C_S2N fd S2N_Blocked, blocked_answer w)]"
      have pass: "s2n_pass fd fun c norm e = bindS (check fun (value_of (norm v))) (\<lambda>_.
          bindS (wait_on_event fd (blocked_of (blocked_answer w))) (\<lambda>done. ret (norm v, done))) e2"
        by (simp add: s2n_pass_def s2n_call_def bindS_def x y v w)
      have ex: "\<exists>post. io_log e' = io_log e @ (C_S2N fd c, norm v) # post \<and> list_all (entry_of fd (\<lambda>_. False)) post
          \<and> (\<forall>a d. r = Val (a, d) \<longrightarrow> a = norm v \<and> (d \<longrightarrow> post = [(C_S2N fd S2N_Blocked, Num 0)]))"
      proof (cases "fst (check fun (value_of (norm v)) e2)")
        case (Val k)
        then have "check fun (value_of (norm v)) e2 = (Val k, e2)" by (metis check_answers prod.collapse)
        then have r: "bindS (wait_on_event fd (blocked_of (blocked_answer w))) (\<lambda>done. ret (norm v, done)) e2 = (r, e')"
          using assms pass by (simp add: bindS_def)
        show ?thesis
        proof (cases "blocked_answer w = Num 0")
          case True
          then show ?thesis using r v w blocked_answer_cases [of w]
            by (intro exI [of _ "[(C_S2N fd S2N_Blocked, Num 0)]"]) (auto simp: wait_on_event_def entry_of_def)
        next
          case False
          then show ?thesis
            using r blocked_answer_cases [of w] wait_log(1) [OF z] wait_log(2) [OF t]
            by (auto simp: wait_on_event_def bindS_def z t v w entry_of_def split: outcome.splits)
        qed
      next
        case (Raise ex)
        then have "check fun (value_of (norm v)) e2 = (Raise ex, e2)" by (metis check_answers prod.collapse)
        then show ?thesis using assms pass v w by (auto simp: bindS_def entry_of_def)
      next
        case Stuck
        then have "check fun (value_of (norm v)) e2 = (Stuck, e2)" by (metis check_answers prod.collapse)
        then show ?thesis using assms pass v w by (auto simp: bindS_def entry_of_def)
      qed
      then show ?thesis by (elim exE conjE) (rule exI, rule conjI, assumption, blast)
    qed
  qed
qed

text \<open>The plain text that s2n has delivered and taken.\<close>

primrec s2n_in_log :: "int \<Rightarrow> (call \<times> answer) list \<Rightarrow> byte list" where
  "s2n_in_log fd [] = []"
| "s2n_in_log fd (x # xs) =
     (case x of (C_S2N f (S2N_Recv n), Data bs) \<Rightarrow> if f = fd then bs else [] | _ \<Rightarrow> []) @ s2n_in_log fd xs"

primrec s2n_out_log :: "int \<Rightarrow> (call \<times> answer) list \<Rightarrow> byte list" where
  "s2n_out_log fd [] = []"
| "s2n_out_log fd (x # xs) =
     (case x of (C_S2N f (S2N_Send bs), Num n) \<Rightarrow> if f = fd then take (nat n) bs else [] | _ \<Rightarrow> []) @ s2n_out_log fd xs"

lemma s2n_log_append [simp]:
  "s2n_in_log fd (xs @ ys) = s2n_in_log fd xs @ s2n_in_log fd ys"
  "s2n_out_log fd (xs @ ys) = s2n_out_log fd xs @ s2n_out_log fd ys"
  by (induction xs) simp_all

lemma s2n_log_other:
  "list_all (entry_of fd P) log \<Longrightarrow> (\<And>n. \<not> P (S2N_Recv n)) \<Longrightarrow> s2n_in_log fd log = []"
  "list_all (entry_of fd P) log \<Longrightarrow> (\<And>bs. \<not> P (S2N_Send bs)) \<Longrightarrow> s2n_out_log fd log = []"
  by (induction log) (auto simp: entry_of_def split: call.splits s2n_call.splits answer.splits)

lemma entry_of_mono: "list_all (entry_of fd P) log \<Longrightarrow> (\<And>c. P c \<Longrightarrow> Q c) \<Longrightarrow> list_all (entry_of fd Q) log"
  by (induction log) (auto simp: entry_of_def split: call.splits)

subsection \<open>The loops\<close>

lemma negotiate_loop_log:
  "negotiate_loop fd e = (r, e') \<Longrightarrow>
   \<exists>new. io_log e' = io_log e @ new \<and> list_all (entry_of fd (\<lambda>c. c = S2N_Negotiate)) new"
proof (induction fd e arbitrary: r e' rule: negotiate_loop.induct)
  case (1 fd e)
  note eq = negotiate_loop.simps [of fd e]
  obtain y e1 where y: "s2n_pass fd ''s2n_negotiate'' S2N_Negotiate num_answer e = (y, e1)" by (rule prod.exhaust)
  obtain new where new: "io_log e1 = io_log e @ new" "list_all (entry_of fd (\<lambda>c. c = S2N_Negotiate)) new"
    using s2n_pass_log [OF y] entry_of_mono [of fd "\<lambda>_. False" _ "\<lambda>c. c = S2N_Negotiate"]
    by (fastforce simp: entry_of_def)
  show ?case
  proof (cases "\<exists>a. y = Val (a, False)")
    case True
    then obtain a where a: "s2n_pass fd ''s2n_negotiate'' S2N_Negotiate num_answer e = (Val (a, False), e1)" using y by blast
    then have "negotiate_loop fd e1 = (r, e')" using "1.prems" by (simp add: eq bindS_def)
    from "1.IH" [OF a _ this] obtain rest where
      "io_log e' = io_log e1 @ rest" "list_all (entry_of fd (\<lambda>c. c = S2N_Negotiate)) rest" by auto
    then show ?thesis using new by (intro exI [of _ "new @ rest"]) simp
  next
    case False
    then have "e' = e1" using "1.prems" y by (auto simp: eq bindS_def split: outcome.splits if_splits)
    then show ?thesis using new by blast
  qed
qed

text \<open>The pass of a loop that ends, and the one that goes on.\<close>

lemma pass_cases:
  assumes "m e = (r0, e1)"
    and "bindS m (\<lambda>x e1. if snd x then (Val (f x), e1) else g x e1) e = (r, e')"
  obtains (go_on) a where "r0 = Val (a, False)" "g (a, False) e1 = (r, e')"
    | (finish) a where "r0 = Val (a, True)" "r = Val (f (a, True))" "e' = e1"
    | (fail) "\<And>v. r0 \<noteq> Val v" "\<And>v. r \<noteq> Val v" "e' = e1"
  using assms by (cases r0) (auto simp: bindS_def split: if_splits)

lemma recv_loop_log:
  "recv_loop fd len got e = (r, e') \<Longrightarrow>
   \<exists>new. io_log e' = io_log e @ new \<and> list_all (entry_of fd (\<lambda>c. \<exists>n. c = S2N_Recv n)) new
     \<and> (\<forall>s. r = Val s \<longrightarrow> s = got @ s2n_in_log fd new \<and> (length got \<le> len \<longrightarrow> length s \<le> len))"
proof (induction fd len got e arbitrary: r e' rule: recv_loop.induct)
  case (1 fd len got e)
  let ?P = "\<lambda>c. \<exists>n. c = S2N_Recv n"
  let ?l = "len - length got"
  obtain y e1 where y: "s2n_pass fd ''s2n_recv'' (S2N_Recv ?l) (s2n_recv_answer ?l) e = (y, e1)" by (rule prod.exhaust)
  obtain new where new: "io_log e1 = io_log e @ new" "list_all (entry_of fd ?P) new"
    "\<And>a d. y = Val (a, d) \<Longrightarrow> s2n_in_log fd new = data_of a \<and> length (data_of a) \<le> ?l"
  proof -
    obtain new where log: "io_log e1 = io_log e @ new" and c: "new = [] \<and> (\<forall>v. y \<noteq> Val v) \<or>
     (\<exists>x post. new = (C_S2N fd (S2N_Recv ?l), s2n_recv_answer ?l x) # post \<and> list_all (entry_of fd (\<lambda>_. False)) post
       \<and> (\<forall>a d. y = Val (a, d) \<longrightarrow> a = s2n_recv_answer ?l x \<and> (d \<longrightarrow> post = [(C_S2N fd S2N_Blocked, Num 0)])))"
      using s2n_pass_log [OF y] by blast
    from c show ?thesis
    proof (elim disjE exE conjE)
      assume "new = []" "\<forall>v. y \<noteq> Val v"
      then show ?thesis using log that [of "[]"] by simp
    next
      fix x post
      assume n: "new = (C_S2N fd (S2N_Recv ?l), s2n_recv_answer ?l x) # post" "list_all (entry_of fd (\<lambda>_. False)) post"
        and v: "\<forall>a d. y = Val (a, d) \<longrightarrow> a = s2n_recv_answer ?l x \<and> (d \<longrightarrow> post = [(C_S2N fd S2N_Blocked, Num 0)])"
      have "list_all (entry_of fd ?P) new"
        unfolding n(1) using entry_of_mono [OF n(2), of ?P] by (simp add: entry_of_def)
      moreover have "s2n_in_log fd new = data_of (s2n_recv_answer ?l x)" "length (data_of (s2n_recv_answer ?l x)) \<le> ?l"
        unfolding n(1) using s2n_log_other(1) [OF n(2)] by (simp_all add: s2n_recv_answer_def data_of_def split: answer.splits)
      ultimately show ?thesis using log that [of new] v by auto
    qed
  qed
  show ?case
    using y "1.prems" [unfolded recv_loop.simps [of fd len got e]]
  proof (cases rule: pass_cases)
    case (go_on a)
    then obtain rest where rest: "io_log e' = io_log e1 @ rest" "list_all (entry_of fd ?P) rest"
      "\<forall>s. r = Val s \<longrightarrow> s = (got @ data_of a) @ s2n_in_log fd rest \<and> (length (got @ data_of a) \<le> len \<longrightarrow> length s \<le> len)"
      using "1.IH" [OF y [unfolded go_on(1)]] by auto
    then show ?thesis using new(1,2) new(3) [OF go_on(1)] by (intro exI [of _ "new @ rest"]) auto
  next
    case (finish a)
    then show ?thesis using new(1,2) new(3) [OF finish(1)] by (intro exI [of _ new]) auto
  next
    case fail
    then show ?thesis using new(1,2) by (intro exI [of _ new]) auto
  qed
qed

text \<open>
  What the documentation says of \<open>s2n_send\<close>: when it reports that nothing is blocked, it has taken all bytes.
\<close>

fun takes_all :: "(call \<times> answer) list \<Rightarrow> bool" where
  "takes_all (x # y # log) =
     ((case (fst x, y) of
         (C_S2N f (S2N_Send bs), (C_S2N g S2N_Blocked, Num b)) \<Rightarrow> b = 0 \<longrightarrow> snd x = Num (int (length bs))
       | _ \<Rightarrow> True) \<and> takes_all (y # log))"
| "takes_all _ = True"

lemma takes_all_append: "takes_all (xs @ ys) \<Longrightarrow> takes_all ys"
proof (induction xs)
  case (Cons x xs)
  then show ?case by (cases "xs @ ys") auto
qed simp

lemma send_loop_log:
  "send_loop fd p e = (r, e') \<Longrightarrow>
   \<exists>new k. io_log e' = io_log e @ new \<and> list_all (entry_of fd (\<lambda>c. \<exists>q. c = S2N_Send q)) new
     \<and> s2n_out_log fd new = take k p \<and> k \<le> length p \<and> (r = Val () \<longrightarrow> takes_all new \<longrightarrow> k = length p)"
proof (induction fd p e arbitrary: r e' rule: send_loop.induct)
  case (1 fd p e)
  let ?P = "\<lambda>c. \<exists>q. c = S2N_Send q"
  obtain y e1 where y: "s2n_pass fd ''s2n_send'' (S2N_Send p) (s2n_send_answer (length p)) e = (y, e1)" by (rule prod.exhaust)
  obtain new k where new: "io_log e1 = io_log e @ new" "list_all (entry_of fd ?P) new"
    "s2n_out_log fd new = take k p" "k \<le> length p" "\<And>a d. y = Val (a, d) \<Longrightarrow> k = count_of a"
    "\<And>a. y = Val (a, True) \<Longrightarrow> takes_all new \<Longrightarrow> k = length p"
  proof -
    obtain new where log: "io_log e1 = io_log e @ new" and c: "new = [] \<and> (\<forall>v. y \<noteq> Val v) \<or>
     (\<exists>x post. new = (C_S2N fd (S2N_Send p), s2n_send_answer (length p) x) # post \<and> list_all (entry_of fd (\<lambda>_. False)) post
       \<and> (\<forall>a d. y = Val (a, d) \<longrightarrow> a = s2n_send_answer (length p) x \<and> (d \<longrightarrow> post = [(C_S2N fd S2N_Blocked, Num 0)])))"
      using s2n_pass_log [OF y] by blast
    from c show ?thesis
    proof (elim disjE exE conjE)
      assume "new = []" "\<forall>v. y \<noteq> Val v"
      then show ?thesis using log that [of "[]" 0] by simp
    next
      fix x post
      assume n: "new = (C_S2N fd (S2N_Send p), s2n_send_answer (length p) x) # post" "list_all (entry_of fd (\<lambda>_. False)) post"
        and v: "\<forall>a d. y = Val (a, d) \<longrightarrow> a = s2n_send_answer (length p) x \<and> (d \<longrightarrow> post = [(C_S2N fd S2N_Blocked, Num 0)])"
      let ?a = "s2n_send_answer (length p) x"
      have "list_all (entry_of fd ?P) new"
        unfolding n(1) using entry_of_mono [OF n(2), of ?P] by (simp add: entry_of_def)
      moreover have "s2n_out_log fd new = take (count_of ?a) p" "count_of ?a \<le> length p"
        unfolding n(1) using s2n_log_other(2) [OF n(2)]
        by (auto simp: s2n_send_answer_def count_of_def split: answer.splits)
      moreover have "count_of ?a = length p" if "post = [(C_S2N fd S2N_Blocked, Num 0)]" "takes_all new"
        using that unfolding n(1) by (simp add: count_of_def)
      ultimately show ?thesis using log that [of new "count_of ?a"] v by auto
    qed
  qed
  show ?case
    using y "1.prems" [unfolded send_loop.simps [of fd p e]]
  proof (cases rule: pass_cases)
    case (go_on a)
    then obtain rest j where rest: "io_log e' = io_log e1 @ rest" "list_all (entry_of fd ?P) rest"
      "s2n_out_log fd rest = take j (drop k p)" "j \<le> length p - k" "r = Val () \<longrightarrow> takes_all rest \<longrightarrow> j = length p - k"
      using "1.IH" [OF y [unfolded go_on(1)]] new(5) [OF go_on(1)] by auto
    have "s2n_out_log fd (new @ rest) = take (k + j) p" using new(3) rest(3) by (simp add: take_add)
    then show ?thesis using new(1,2,4) rest takes_all_append
      by (intro exI [of _ "new @ rest"] exI [of _ "k + j"]) auto
  next
    case (finish a)
    then show ?thesis using new by (intro exI [of _ new] exI [of _ k]) auto
  next
    case fail
    then show ?thesis using new(1-4) by (intro exI [of _ new] exI [of _ k]) auto
  qed
qed

lemma check_negotiate_log:
  assumes "check_negotiate fd (e, neg) = (r, (e', neg'))"
  shows "\<exists>hs. io_log e' = io_log e @ hs \<and> list_all (entry_of fd (\<lambda>c. c = S2N_Negotiate)) hs
    \<and> (neg \<longrightarrow> hs = []) \<and> (r = Val () \<longrightarrow> neg') \<and> (\<forall>u. r \<noteq> Val u \<longrightarrow> neg' = neg)"
proof (cases neg)
  case False
  obtain x e1 where x: "negotiate_loop fd e = (x, e1)" by (rule prod.exhaust)
  show ?thesis using assms False negotiate_loop_log [OF x]
    by (cases x) (auto simp: check_negotiate_def on_conn_def bindS_def x)
qed (use assms in \<open>auto simp: check_negotiate_def\<close>)

lemma s2n_io:
  assumes "bindS (check_negotiate fd) (\<lambda>_. on_conn m) (e, neg) = (r, (e', neg'))"
  shows "(\<exists>e1 hs. check_negotiate fd (e, neg) = (Val (), (e1, True)) \<and> neg' \<and> m e1 = (r, e') \<and> io_log e1 = io_log e @ hs
        \<and> list_all (entry_of fd (\<lambda>c. c = S2N_Negotiate)) hs \<and> (neg \<longrightarrow> hs = []))
    \<or> (\<forall>v. r \<noteq> Val v) \<and> (\<exists>hs. io_log e' = io_log e @ hs \<and> list_all (entry_of fd (\<lambda>c. c = S2N_Negotiate)) hs)"
proof -
  obtain x e1 n1 where x: "check_negotiate fd (e, neg) = (x, (e1, n1))" by (metis prod.collapse)
  obtain hs where hs: "io_log e1 = io_log e @ hs" "list_all (entry_of fd (\<lambda>c. c = S2N_Negotiate)) hs"
    "neg \<longrightarrow> hs = []" "x = Val () \<longrightarrow> n1"
    using check_negotiate_log [OF x] by blast
  obtain z e2 where z: "m e1 = (z, e2)" by (rule prod.exhaust)
  show ?thesis
    using assms hs by (cases x) (auto simp: bindS_def x on_conn_def z)
qed

definition s2n_in :: "int \<Rightarrow> tls \<Rightarrow> byte list" where "s2n_in fd s = s2n_in_log fd (io_log (fst s))"
definition s2n_out :: "int \<Rightarrow> tls \<Rightarrow> byte list" where "s2n_out fd s = s2n_out_log fd (io_log (fst s))"

lemma s2n_read_log:
  assumes "s2n_read fd len (e, neg) = (Val bs, (e', neg'))"
  shows "neg' \<and> (\<exists>hs data. io_log e' = io_log e @ hs @ data \<and> list_all (entry_of fd (\<lambda>c. c = S2N_Negotiate)) hs
    \<and> (neg \<longrightarrow> hs = []) \<and> list_all (entry_of fd (\<lambda>c. \<exists>n. c = S2N_Recv n)) data
    \<and> bs = s2n_in_log fd data \<and> length bs \<le> len)"
proof -
  obtain e1 hs where h: "neg'" "recv_loop fd len [] e1 = (Val bs, e')" "io_log e1 = io_log e @ hs"
    "list_all (entry_of fd (\<lambda>c. c = S2N_Negotiate)) hs" "neg \<longrightarrow> hs = []"
    using s2n_io [OF assms [unfolded s2n_read_def]] by auto
  then show ?thesis using recv_loop_log [OF h(2)] by fastforce
qed

lemma s2n_write_log:
  assumes "s2n_write fd bs (e, neg) = (Val (), (e', neg'))"
  shows "neg' \<and> (\<exists>hs data k. io_log e' = io_log e @ hs @ data \<and> list_all (entry_of fd (\<lambda>c. c = S2N_Negotiate)) hs
    \<and> (neg \<longrightarrow> hs = []) \<and> list_all (entry_of fd (\<lambda>c. \<exists>q. c = S2N_Send q)) data
    \<and> s2n_out_log fd data = take k bs \<and> (takes_all data \<longrightarrow> k = length bs))"
proof -
  obtain e1 hs where h: "neg'" "send_loop fd bs e1 = (Val (), e')" "io_log e1 = io_log e @ hs"
    "list_all (entry_of fd (\<lambda>c. c = S2N_Negotiate)) hs" "neg \<longrightarrow> hs = []"
    using s2n_io [OF assms [unfolded s2n_write_def]] by auto
  moreover obtain new k where "io_log e' = io_log e1 @ new" "list_all (entry_of fd (\<lambda>c. \<exists>q. c = S2N_Send q)) new"
    "s2n_out_log fd new = take k bs" "takes_all new \<longrightarrow> k = length bs"
    using send_loop_log [OF h(2)] by blast
  ultimately show ?thesis by (intro conjI exI [of _ hs] exI [of _ new] exI [of _ k]) simp_all
qed

interpretation s2n: byte_reader "s2n_read fd" "s2n_in fd"
proof
  fix n e bs e'
  assume r: "s2n_read fd n e = (Val bs, e')"
  obtain e0 neg e1 neg1 where s: "e = (e0, neg)" "e' = (e1, neg1)" by (metis prod.collapse)
  obtain hs data where d: "io_log e1 = io_log e0 @ hs @ data" "list_all (entry_of fd (\<lambda>c. c = S2N_Negotiate)) hs"
    "bs = s2n_in_log fd data" "length bs \<le> n"
    using s2n_read_log [OF r [unfolded s]] by blast
  have "s2n_in_log fd hs = []" by (rule s2n_log_other(1) [OF d(2)]) simp
  then show "s2n_in fd e' = s2n_in fd e @ bs \<and> length bs \<le> n" using d by (simp add: s2n_in_def s)
qed

text \<open>
  over s2n a \<open>coro_buffer\<close> works on the plain text, since \<open>read\<close> overrides the virtual one here: a line is
  what s2n has decrypted, nothing lost and nothing invented, and what comes after the line stays in the buffer.
\<close>

theorem s2n_buffer_reads_plaintext:
  assumes "get_line g (s2n_read fd) (b, s) = (Val (closed, line), (b', s'))"
  shows "\<exists>plain. s2n_in fd s' = s2n_in fd s @ plain \<and> line @ b' = b @ plain \<and> (\<not> closed \<longrightarrow> is_line line)"
  using s2n.get_string_spec [OF assms [unfolded get_line_def] crlf_simps(1)] by (auto simp: is_line_def split: if_splits)

lemma s2n_pass_Data:
  assumes "io_answers e = Data bs # Num 0 # as" "length bs \<le> len"
  shows "s2n_pass fd fun (S2N_Recv k) (s2n_recv_answer len) e = (Val (Data bs, True),
    e\<lparr>io_answers := as, io_log := io_log e @ [(C_S2N fd (S2N_Recv k), Data bs), (C_S2N fd S2N_Blocked, Num 0)]\<rparr>)"
  using assms
  by (simp add: s2n_pass_def s2n_call_def bindS_def ask_def s2n_recv_answer_def check_def value_of_def
      blocked_answer_def blocked_of_def wait_on_event_def)

theorem s2n_buffer_reads_plaintext_witness:
  "\<exists>s'. get_line 5 (s2n_read 4) ([], (ex_io [Data [104, 13, 10, 33], Num 0], True)) = (Val (False, [104, 13, 10]), ([33], s'))
     \<and> s2n_in 4 s' = [104, 13, 10, 33]"
proof -
  let ?s = "(ex_io [Data [104, 13, 10, 33], Num 0], True)"
  let ?r = "get_line 5 (s2n_read 4) ([], ?s)"
  have "fst ?r = Val (False, [104, 13, 10]) \<and> fst (snd ?r) = [33]"
    by (simp add: get_line_def get_simps s2n_read_def check_negotiate_def on_conn_def recv_loop.simps [of 4 8192]
        s2n_pass_Data data_of_def)
  then have r: "?r = (Val (False, [104, 13, 10]), ([33], snd (snd ?r)))" by (metis prod.collapse)
  have "s2n_in 4 ?s = []" by (simp add: s2n_in_def ex_io_def)
  with s2n_buffer_reads_plaintext [OF r] have "s2n_in 4 (snd (snd ?r)) = [104, 13, 10, 33]" by auto
  with r show ?thesis by blast
qed



text \<open>
  \<open>write\<close> over s2n sends the bytes in order, a prefix in any case, and all of them when s2n keeps
  to its documentation, that a call of \<open>s2n_send\<close> that is not blocked has taken everything.
\<close>

theorem s2n_write_sends:
  assumes "s2n_write fd bs (e, neg) = (Val (), (e', neg'))"
  shows "\<exists>new k. io_log e' = io_log e @ new \<and> s2n_out fd (e', neg') = s2n_out fd (e, neg) @ take k bs
    \<and> (takes_all new \<longrightarrow> k = length bs)"
proof -
  obtain hs data k where d: "io_log e' = io_log e @ hs @ data" "list_all (entry_of fd (\<lambda>c. c = S2N_Negotiate)) hs"
    "s2n_out_log fd data = take k bs" "takes_all data \<longrightarrow> k = length bs"
    using s2n_write_log [OF assms] by blast
  have "s2n_out_log fd hs = []" by (rule s2n_log_other(2) [OF d(2)]) simp
  then show ?thesis using d takes_all_append by (intro exI [of _ "hs @ data"] exI [of _ k]) (auto simp: s2n_out_def)
qed

theorem s2n_write_sends_witness:
  "\<exists>e'. s2n_write 4 [1, 2, 3] (ex_io [Num 2, Num 2, Num 1, Num 0], True) = (Val (), (e', True))
     \<and> s2n_out 4 (e', True) = [1, 2, 3]"
proof -
  let ?e = "ex_io [Num 2, Num 2, Num 1, Num 0]"
  let ?r = "s2n_write 4 [1, 2, 3] (?e, True)"
  have "fst ?r = Val () \<and> snd (snd ?r) \<and> takes_all (io_log (fst (snd ?r)))" by code_simp
  then have r: "?r = (Val (), (fst (snd ?r), True))" and t: "takes_all (io_log (fst (snd ?r)))" by (metis prod.collapse)+
  have "io_log ?e = []" "s2n_out 4 (?e, True) = []" by (simp_all add: ex_io_def s2n_out_def)
  then have "s2n_out 4 (fst (snd ?r), True) = [1, 2, 3]" using s2n_write_sends [OF r] t by auto
  then show ?thesis using r by (intro exI [of _ "fst (snd ?r)"]) simp
qed

text \<open>
  a flaw.  When a later pass of \<open>read\<close> fails, the exception takes away the bytes that earlier passes
  have taken from s2n: they are in neither the result nor any buffer of the library.
\<close>

theorem s2n_read_loses_bytes:
  assumes "io_answers e = Data bs # Num 1 # Fail n # Num 0 # as" "io_wakes e = None # ws" "\<not> io_main e"
    and "n \<noteq> EWOULDBLOCK" "length bs \<le> len"
  shows "\<exists>e'. s2n_read fd len (e, True) = (Raise (S2N_Error ''s2n_recv''), (e', True))
    \<and> s2n_in fd (e', True) = s2n_in fd (e, True) @ bs"
proof -
  obtain e1 where p: "s2n_pass fd ''s2n_recv'' (S2N_Recv len) (s2n_recv_answer len) e = (Val (Data bs, False), e1)"
    and e1: "io_answers e1 = Fail n # Num 0 # as" "s2n_in fd (e1, True) = s2n_in fd (e, True) @ bs"
    using assms
    by (simp add: s2n_pass_def s2n_call_def bindS_def ask_def s2n_recv_answer_def check_def value_of_def
        blocked_answer_def blocked_of_def wait_on_event_def wait_for_read_def sys_wait_def s2n_in_def)
  obtain e2 where p2: "s2n_pass fd ''s2n_recv'' (S2N_Recv (len - length bs)) (s2n_recv_answer (len - length bs)) e1
      = (Raise (S2N_Error ''s2n_recv''), e2)" and e2: "s2n_in fd (e2, True) = s2n_in fd (e, True) @ bs"
    using assms(4) e1
    by (simp add: s2n_pass_def s2n_call_def bindS_def ask_def s2n_recv_answer_def check_def value_of_def
        blocked_answer_def blocked_of_def errno_def s2n_in_def)
  have "recv_loop fd len [] e = (Raise (S2N_Error ''s2n_recv''), e2)"
    by (simp add: recv_loop.simps [of fd len "[]" e] recv_loop.simps [of fd len bs e1] bindS_def p p2 data_of_def)
  then show ?thesis using e2 by (simp add: s2n_read_def check_negotiate_def on_conn_def bindS_def)
qed

theorem s2n_read_loses_bytes_witness:
  "\<exists>e'. s2n_read 4 5 (ex_io [Data [7], Num 1, Fail 104, Num 0], True) = (Raise (S2N_Error ''s2n_recv''), (e', True))
     \<and> s2n_in 4 (e', True) = [7]"
  using s2n_read_loses_bytes [of "ex_io [Data [7], Num 1, Fail 104, Num 0]" "[7]" 104 "[]" "[None, None]" 5 4]
  by (simp add: ex_io_def EWOULDBLOCK_def s2n_in_def)

end
