(* ===== verification/Echo_Tls.thy ===== *)
theory Echo_Tls
  imports Coro_S2N
begin

section \<open>Echo sessions over TLS\<close>

text \<open>
  \<open>demo/echo_server.cc\<close> with \<open>USE_S2N\<close> or \<open>USE_OPENSSL\<close>: the session is the same code, on a \<open>coro_s2n\<close> or a \<open>coro_ssl\<close>.  Its loop
  \<open>echo_loop_over\<close> gets the virtual functions of the class, and the locale \<open>echo_transport\<close> is interpreted for both.
\<close>

subsection \<open>Over s2n\<close>

definition s2n_echo_loop :: "nat \<Rightarrow> nat \<Rightarrow> int \<Rightarrow> (io \<Rightarrow> byte list) \<Rightarrow> (tls buf, echo_end) op" where
  "s2n_echo_loop n g fd bench =
     echo_loop_over n g (s2n_read fd) (s2n_write fd) (s2n_shutdown fd SHUT_RDWR) (on_conn (cf_close fd)) (\<lambda>s. bench (fst s))"

text \<open>
  The end of the session: its handlers, and the destructors of \<open>coro_s2n\<close> and of \<open>coro_file\<close>, the latter without
  effect when \<open>close\<close> has set \<open>_fd\<close> to -1.
\<close>

definition s2n_echo_session :: "nat \<Rightarrow> nat \<Rightarrow> int \<Rightarrow> (io \<Rightarrow> byte list) \<Rightarrow> (io, echo_end option) op" where
  "s2n_echo_session n g fd bench e =
     (case s2n_echo_loop n g fd bench ([], (e, False)) of
        (Val r, (_, s1)) \<Rightarrow>
          bindS (sys_num (C_S2N fd S2N_Free)) (\<lambda>_. bindS (cf_destroy (- 1)) (\<lambda>_. ret (Some r))) (fst s1)
      | (Raise ex, (_, s1)) \<Rightarrow> bindS (destroy_s2n fd) (\<lambda>_. ret None) (fst s1)
      | (Stuck, (_, s1)) \<Rightarrow> (Stuck, fst s1))"

lemma s2n_pass_entries:
  assumes "s2n_pass fd fun c norm e = (r, e')"
  shows "\<exists>new. io_log e' = io_log e @ new \<and> list_all (entry_of fd (\<lambda>d. d = c)) new"
  using s2n_pass_log [OF assms] entry_of_mono [of fd "\<lambda>_. False" _ "\<lambda>d. d = c"] by (fastforce simp: entry_of_def)

lemma s2n_shutdown_loop_log:
  "s2n_shutdown_loop fd e = (r, e') \<Longrightarrow>
   \<exists>new. io_log e' = io_log e @ new \<and> list_all (entry_of fd (\<lambda>c. c = S2N_Shutdown)) new"
proof (induction fd e arbitrary: r e' rule: s2n_shutdown_loop.induct)
  case (1 fd e)
  obtain y e1 where y: "s2n_pass fd ''s2n_shutdown'' S2N_Shutdown num_answer e = (y, e1)" by (rule prod.exhaust)
  obtain new where new: "io_log e1 = io_log e @ new" "list_all (entry_of fd (\<lambda>c. c = S2N_Shutdown)) new"
    using s2n_pass_entries [OF y] by blast
  show ?case
    using y "1.prems" [unfolded s2n_shutdown_loop.simps [of fd e]]
  proof (cases rule: pass_cases)
    case (go_on a)
    from "1.IH" [OF y [unfolded go_on(1)] _ go_on(2)] obtain rest where
      "io_log e' = io_log e1 @ rest" "list_all (entry_of fd (\<lambda>c. c = S2N_Shutdown)) rest" by auto
    then show ?thesis using new by (intro exI [of _ "new @ rest"]) simp
  qed (use new in blast)+
qed

lemma takes_all_prefix: "takes_all (xs @ ys) \<Longrightarrow> takes_all xs"
proof (induction xs rule: takes_all.induct)
  case (1 x y log)
  then show ?case by (cases log) auto
qed simp_all

text \<open>The plain text on a connection, which only \<open>s2n_recv\<close> and \<open>s2n_send\<close> change.\<close>

lemma ignores_s2n [simp]:
  "(\<And>n. c \<noteq> C_S2N fd (S2N_Recv n)) \<Longrightarrow> ignores (\<lambda>e. s2n_in_log fd (io_log e)) c"
  "(\<And>bs. c \<noteq> C_S2N fd (S2N_Send bs)) \<Longrightarrow> ignores (\<lambda>e. s2n_out_log fd (io_log e)) c"
  by (auto simp: ignores_def split: call.split s2n_call.split answer.split)

lemma cf_close_log: "cf_close fd e = (r, e') \<Longrightarrow> \<exists>new. io_log e' = io_log e @ new"
  by (auto simp: cf_close_def sys_num_def bindS_def ask_def split: list.splits)

lemma cf_close_s2n:
  assumes "cf_close fd' e = (r, e')"
  shows "s2n_in_log fd (io_log e') = s2n_in_log fd (io_log e)" "s2n_out_log fd (io_log e') = s2n_out_log fd (io_log e)"
proof -
  have "steady (\<lambda>e. s2n_in_log fd (io_log e)) (cf_close fd')" "steady (\<lambda>e. s2n_out_log fd (io_log e)) (cf_close fd')"
    unfolding cf_close_def by (rule steady_bindS; simp add: steady_sys_num)+
  then show "s2n_in_log fd (io_log e') = s2n_in_log fd (io_log e)" "s2n_out_log fd (io_log e') = s2n_out_log fd (io_log e)"
    using assms by (auto dest: steadyD)
qed

interpretation s2n_conn: echo_transport "s2n_read fd" "s2n_in fd" "s2n_write fd" "s2n_shutdown fd SHUT_RDWR" "on_conn (cf_close fd)"
  "s2n_out fd" "\<lambda>s. takes_all (io_log (fst s))"
proof unfold_locales
  fix n s bs s' assume r: "s2n_read fd n s = (Val bs, s')"
  obtain e neg e' neg' where s: "s = (e, neg)" "s' = (e', neg')" by (metis prod.collapse)
  obtain hs data where d: "io_log e' = io_log e @ hs @ data" "list_all (entry_of fd (\<lambda>c. c = S2N_Negotiate)) hs"
    "list_all (entry_of fd (\<lambda>c. \<exists>n. c = S2N_Recv n)) data"
    using s2n_read_log [OF r [unfolded s]] by blast
  have "s2n_out_log fd hs = []" "s2n_out_log fd data = []" by (rule s2n_log_other(2) [OF d(2)], simp, rule s2n_log_other(2) [OF d(3)], simp)
  then show "s2n_out fd s' = s2n_out fd s \<and> (takes_all (io_log (fst s')) \<longrightarrow> takes_all (io_log (fst s)))"
    using d(1) takes_all_prefix by (auto simp: s s2n_out_def)
next
  fix p s s' assume r: "s2n_write fd p s = (Val (), s')"
  obtain e neg e' neg' where s: "s = (e, neg)" "s' = (e', neg')" by (metis prod.collapse)
  obtain hs data k where d: "io_log e' = io_log e @ hs @ data" "list_all (entry_of fd (\<lambda>c. c = S2N_Negotiate)) hs"
    "list_all (entry_of fd (\<lambda>c. \<exists>q. c = S2N_Send q)) data" "s2n_out_log fd data = take k p" "takes_all data \<longrightarrow> k = length p"
    using s2n_write_log [OF r [unfolded s]] by blast
  have "s2n_in_log fd hs = []" "s2n_in_log fd data = []" "s2n_out_log fd hs = []"
    by (rule s2n_log_other(1) [OF d(2)], simp, rule s2n_log_other(1) [OF d(3)], simp, rule s2n_log_other(2) [OF d(2)], simp)
  moreover have "takes_all (io_log e) \<and> takes_all data" if "takes_all (io_log e')"
    using that takes_all_prefix takes_all_append unfolding d(1) by blast
  ultimately show "s2n_in fd s' = s2n_in fd s
      \<and> (takes_all (io_log (fst s')) \<longrightarrow> takes_all (io_log (fst s)) \<and> s2n_out fd s' = s2n_out fd s @ p)"
    using d(1,4,5) by (auto simp: s s2n_in_def s2n_out_def)
next
  fix s s' assume r: "s2n_shutdown fd SHUT_RDWR s = (Val (), s')"
  then have "s2n_shutdown_loop fd (fst s) = (Val (), fst s')" by (auto simp: s2n_shutdown_def on_conn_def split: prod.splits)
  from s2n_shutdown_loop_log [OF this] obtain new where
    d: "io_log (fst s') = io_log (fst s) @ new" "list_all (entry_of fd (\<lambda>c. c = S2N_Shutdown)) new" by blast
  have "s2n_in_log fd new = []" "s2n_out_log fd new = []"
    by (rule s2n_log_other(1) [OF d(2)], simp, rule s2n_log_other(2) [OF d(2)], simp)
  then show "s2n_in fd s' = s2n_in fd s \<and> s2n_out fd s' = s2n_out fd s \<and> (takes_all (io_log (fst s')) \<longrightarrow> takes_all (io_log (fst s)))"
    using d(1) takes_all_prefix by (auto simp: s2n_in_def s2n_out_def)
next
  fix k s s' assume "on_conn (cf_close fd) s = (Val k, s')"
  then have c: "cf_close fd (fst s) = (Val k, fst s')" by (auto simp: on_conn_def split: prod.splits)
  show "s2n_in fd s' = s2n_in fd s \<and> s2n_out fd s' = s2n_out fd s \<and> (takes_all (io_log (fst s')) \<longrightarrow> takes_all (io_log (fst s)))"
    using cf_close_s2n [OF c, of fd] cf_close_log [OF c] takes_all_prefix by (auto simp: s2n_in_def s2n_out_def)
qed

lemma s2n_session_trace:
  assumes "s2n_echo_session n g fd bench e = (Val (Some r), e')" "takes_all (io_log e')"
  shows "\<exists>lines outs rest. s2n_in_log fd (io_log e') = s2n_in_log fd (io_log e) @ concat lines @ rest
    \<and> s2n_out_log fd (io_log e') = s2n_out_log fd (io_log e) @ concat outs
    \<and> list_all2 echo_reply lines outs \<and> list_all is_line lines"
proof -
  obtain b e1 neg k where l: "echo_loop_over n g (s2n_read fd) (s2n_write fd) (s2n_shutdown fd SHUT_RDWR) (on_conn (cf_close fd))
      (\<lambda>s. bench (fst s)) ([], (e, False)) = (Val r, (b, (e1, neg)))" and f: "sys_num (C_S2N fd S2N_Free) e1 = (Val k, e')"
    using assms(1) by (auto simp: s2n_echo_session_def s2n_echo_loop_def cf_destroy_def destroy_s2n_def bindS_iffs
        split: prod.splits outcome.splits)
  have eq: "s2n_in_log fd (io_log e') = s2n_in_log fd (io_log e1)" "s2n_out_log fd (io_log e') = s2n_out_log fd (io_log e1)"
    using steadyD [OF steady_sys_num f, of "\<lambda>e. s2n_in_log fd (io_log e)"]
      steadyD [OF steady_sys_num f, of "\<lambda>e. s2n_out_log fd (io_log e)"] by simp_all
  obtain a where "io_log e' = io_log e1 @ [(C_S2N fd S2N_Free, a)]" using sys_num_log [OF f] by blast
  then have "takes_all (io_log e1)" using assms(2) takes_all_prefix by simp
  then show ?thesis using s2n_conn.loop_trace [OF l] unfolding eq by (auto simp: s2n_conn.trace_def s2n_in_def s2n_out_def)
qed

text \<open>
  C27: the echo server over s2n echoes the plain text.  When a session ends without an exception, and \<open>s2n_send\<close> has taken everything
  whenever it said that it was not blocked, then what s2n has decrypted is complete lines and a rest that is not answered, and
  the session has given to s2n to encrypt, in order, each line, or the answer to a command.
\<close>

theorem s2n_session_echoes:
  assumes "s2n_echo_session n g fd bench e = (Val (Some r), e')" "takes_all (io_log e')"
  shows "\<exists>lines outs rest. s2n_in_log fd (io_log e') = s2n_in_log fd (io_log e) @ concat lines @ rest
    \<and> s2n_out_log fd (io_log e') = s2n_out_log fd (io_log e) @ concat outs
    \<and> list_all2 echo_reply lines outs \<and> list_all is_line lines"
  using assms by (rule s2n_session_trace)

theorem s2n_session_echoes_witness:
  "\<exists>e'. s2n_echo_session 3 3 4 (\<lambda>_. []) (ex_io [Num 0, Num 0, Data [104, 13, 10], Num 0, Num 3, Num 0, Data [], Num 0, Num 0, Num 0])
      = (Val (Some At_Eof), e')
    \<and> (\<exists>lines outs rest. [104, 13, 10] = concat lines @ rest \<and> [104, 13, 10] = concat outs \<and> list_all2 echo_reply lines outs)"
proof -
  let ?e = "ex_io [Num 0, Num 0, Data [104, 13, 10], Num 0, Num 3, Num 0, Data [], Num 0, Num 0, Num 0]"
  let ?r = "s2n_echo_session 3 3 4 (\<lambda>_. []) ?e"
  note pass = s2n_pass_def s2n_call_def bindS_def ask_def num_answer_def s2n_recv_answer_def s2n_send_answer_def check_def value_of_def
    blocked_answer_def blocked_of_def wait_on_event_def on_conn_def data_of_def count_of_def
  let ?l1 = "[(C_S2N 4 S2N_Negotiate, Num 0), (C_S2N 4 S2N_Blocked, Num 0), (C_S2N 4 (S2N_Recv 8192), Data [104, 13, 10]), (C_S2N 4 S2N_Blocked, Num 0)]"
  obtain e1 where g1: "get_line 3 (s2n_read 4) ([], (?e, False)) = (Val (False, [104, 13, 10]), ([], (e1, True)))"
    "io_answers e1 = [Num 3, Num 0, Data [], Num 0, Num 0, Num 0]" "io_log e1 = ?l1"
    by (simp add: get_line_def get_simps s2n_read_def check_negotiate_def negotiate_loop.simps [of 4] recv_loop.simps [of 4 8192] pass)
  let ?l2 = "?l1 @ [(C_S2N 4 (S2N_Send [104, 13, 10]), Num 3), (C_S2N 4 S2N_Blocked, Num 0)]"
  obtain e2 where w: "s2n_write 4 [104, 13, 10] (e1, True) = (Val (), (e2, True))"
    "io_answers e2 = [Data [], Num 0, Num 0, Num 0]" "io_log e2 = ?l2"
    using g1(2,3) by (simp add: s2n_write_def check_negotiate_def send_loop.simps [of 4 "[104, 13, 10]"] pass)
  obtain e3 where g2: "get_line 3 (s2n_read 4) ([], (e2, True)) = (Val (True, []), ([], (e3, True)))"
    "io_answers e3 = [Num 0, Num 0]" "io_log e3 = ?l2 @ [(C_S2N 4 (S2N_Recv 8192), Data []), (C_S2N 4 S2N_Blocked, Num 0)]"
    using w(2,3) by (simp add: get_line_def get_simps s2n_read_def check_negotiate_def recv_loop.simps [of 4 8192] pass)
  have "fst ?r = Val (Some At_Eof) \<and> takes_all (io_log (snd ?r)) \<and> s2n_in_log 4 (io_log (snd ?r)) = [104, 13, 10]
      \<and> s2n_out_log 4 (io_log (snd ?r)) = [104, 13, 10]"
    by (simp add: s2n_echo_session_def s2n_echo_loop_def echo_loop_over_numeral bindS_def g1 w g2 char_at_def on_file_def on_conn_def
        cf_close_def sys_num_def ask_def num_answer_def cf_destroy_def)
  then have r: "?r = (Val (Some At_Eof), snd ?r)" and t: "takes_all (io_log (snd ?r))"
    and io: "s2n_in_log 4 (io_log (snd ?r)) = [104, 13, 10]" "s2n_out_log 4 (io_log (snd ?r)) = [104, 13, 10]"
    by (metis prod.collapse)+
  have "io_log ?e = []" by (simp add: ex_io_def)
  with s2n_session_echoes [OF r t] io have "\<exists>lines outs rest. [104, 13, 10] = concat lines @ rest \<and> [104, 13, 10] = concat outs
      \<and> list_all2 echo_reply lines outs" by (metis append_Nil s2n_in_log.simps(1) s2n_out_log.simps(1))
  then show ?thesis using r by blast
qed

subsection \<open>Over OpenSSL\<close>

definition ssl_echo_session :: "(int \<Rightarrow> string) \<Rightarrow> nat \<Rightarrow> nat \<Rightarrow> int \<Rightarrow> (io \<Rightarrow> byte list) \<Rightarrow> (io, echo_end option) op" where
  "ssl_echo_session msg n g fd bench e =
     (case echo_loop_over n g (ssl_virtual_read fd) (ssl_write msg fd) (ssl_shutdown msg fd SHUT_RDWR) (cf_close fd) bench ([], e) of
        (Val r, (_, e1)) \<Rightarrow> bindS (cf_destroy (- 1)) (\<lambda>_. ret (Some r)) e1
      | (Raise ex, (_, e1)) \<Rightarrow> bindS (cf_destroy fd) (\<lambda>_. ret None) e1
      | (Stuck, (_, e1)) \<Rightarrow> (Stuck, e1))"

lemma steady_sys_int: "ignores f c \<Longrightarrow> steady f (sys_int c)"
  unfolding sys_int_def by (rule steady_bindS) (simp_all add: steady_ask)

lemma steady_wait_or_error:
  assumes "\<And>k. ignores f (C_SSL fd (SSL_Get_Error k))" "\<And>k. ignores f (C_CTX k)"
    and "ignores f (C_Wait_Read fd)" "ignores f (C_Wait_Write fd)"
  shows "steady f (wait_or_error msg fd code)"
  unfolding wait_or_error_def throw_ssl_error_def
  using assms by (auto intro!: steady_bindS steady_sys_int steady_waits)

lemma steady_ssl_retry:
  assumes "ignores f c" "\<And>k. ignores f (C_SSL fd (SSL_Get_Error k))" "\<And>k. ignores f (C_CTX k)"
    and "ignores f (C_Wait_Read fd)" "ignores f (C_Wait_Write fd)"
  shows "steady f (ssl_retry msg fd c norm again)"
proof (rule steadyI)
  show "f (snd (ssl_retry msg fd c norm again e)) = f e" for e
    using assms
  proof (induction msg fd c norm again e rule: ssl_retry.induct)
    case (1 msg fd c norm again e)
    obtain x e1 where x: "ask c norm e = (x, e1)" by (rule prod.exhaust)
    have s1: "f e1 = f e" using steadyD [OF steady_ask [OF "1.prems"(1)] x] .
    show ?case
    proof (cases "\<exists>a. x = Val a \<and> again (value_of a)")
      case True
      then obtain a where a: "x = Val a" "again (value_of a)" by blast
      obtain y e2 where y: "wait_or_error msg fd (value_of a) e1 = (y, e2)" by (rule prod.exhaust)
      have s2: "f e2 = f e1" using steadyD [OF steady_wait_or_error [OF "1.prems"(2-5)] y] .
      show ?thesis
      proof (cases y)
        case (Val u)
        have "f (snd (ssl_retry msg fd c norm again e2)) = f e2"
          using "1.IH" [OF x [unfolded a(1)] a(2) y [unfolded Val]] "1.prems" by blast
        then show ?thesis using x a y Val s1 s2 by (simp add: ssl_retry.simps [of msg fd c norm again e] bindS_def)
      qed (use x a y s1 s2 in \<open>simp_all add: ssl_retry.simps [of msg fd c norm again e] bindS_def\<close>)
    next
      case False
      then show ?thesis using x s1 by (cases x) (auto simp: ssl_retry.simps [of msg fd c norm again e] bindS_def)
    qed
  qed
qed

lemma steady_ssl_calls:
  "steady (received fd) (ssl_write msg fd' p)" "steady (plain_in fd) (ssl_write msg fd' p)"
  "steady (received fd) (ssl_shutdown msg fd' how)" "steady (plain_in fd) (ssl_shutdown msg fd' how)"
  "steady (plain_out fd) (ssl_shutdown msg fd' how)"
  unfolding ssl_write_def ssl_shutdown_def by (rule steady_bindS; simp add: steady_ssl_retry)+

lemma steady_plain_close: "steady (plain_in fd) (cf_close fd')" "steady (plain_out fd) (cf_close fd')"
  unfolding cf_close_def by (rule steady_bindS; simp add: steady_sys_num)+

interpretation ssl_conn: echo_transport "ssl_virtual_read fd" "received fd" "ssl_write msg fd" "ssl_shutdown msg fd SHUT_RDWR" "cf_close fd"
  "plain_out fd" "\<lambda>e. plain_in fd e = decrypted"
proof unfold_locales
  fix n e bs e' assume "ssl_virtual_read fd n e = (Val bs, e')"
  then have r: "cf_read fd n e = (Val bs, e')" by (simp add: ssl_virtual_read_def)
  show "received fd e' = received fd e @ bs \<and> length bs \<le> n" using cf.rd_val [OF r] .
  show "plain_out fd e' = plain_out fd e \<and> (plain_in fd e' = decrypted \<longrightarrow> plain_in fd e = decrypted)"
    using steadyD [OF steady_cf_read r, of "plain_out fd"] steadyD [OF steady_cf_read r, of "plain_in fd"] by simp
next
  fix p e e' assume w: "ssl_write msg fd p e = (Val (), e')"
  have "plain_out fd e' = plain_out fd e @ p" using ssl_write_log [OF w] by (auto simp: plain_out_def)
  then show "received fd e' = received fd e
      \<and> (plain_in fd e' = decrypted \<longrightarrow> plain_in fd e = decrypted \<and> plain_out fd e' = plain_out fd e @ p)"
    using steadyD [OF steady_ssl_calls(1) w] steadyD [OF steady_ssl_calls(2) w] by simp
next
  fix e e' assume w: "ssl_shutdown msg fd SHUT_RDWR e = (Val (), e')"
  show "received fd e' = received fd e \<and> plain_out fd e' = plain_out fd e \<and> (plain_in fd e' = decrypted \<longrightarrow> plain_in fd e = decrypted)"
    using steadyD [OF steady_ssl_calls(3) w] steadyD [OF steady_ssl_calls(4) w] steadyD [OF steady_ssl_calls(5) w] by simp
next
  fix k e e' assume w: "cf_close fd e = (Val k, e')"
  show "received fd e' = received fd e \<and> plain_out fd e' = plain_out fd e \<and> (plain_in fd e' = decrypted \<longrightarrow> plain_in fd e = decrypted)"
    using quiet_close(1) [OF w] steadyD [OF steady_plain_close(1) w] steadyD [OF steady_plain_close(2) w] by simp
qed

lemma ssl_session_trace:
  assumes "ssl_echo_session msg n g fd bench e = (Val (Some r), e')"
  shows "plain_in fd e' = plain_in fd e
    \<and> (\<exists>lines outs rest. received fd e' = received fd e @ concat lines @ rest
      \<and> plain_out fd e' = plain_out fd e @ concat outs
      \<and> list_all2 echo_reply lines outs \<and> list_all is_line lines)"
proof -
  obtain s' where l: "echo_loop_over n g (ssl_virtual_read fd) (ssl_write msg fd) (ssl_shutdown msg fd SHUT_RDWR) (cf_close fd) bench ([], e)
      = (Val r, s')" and e': "snd s' = e'"
    using assms by (auto simp: ssl_echo_session_def cf_destroy_def bindS_iffs split: prod.splits outcome.splits)
  from ssl_conn.loop_trace [OF l, of "plain_in fd e'"] e' show ?thesis by (auto simp: ssl_conn.trace_def)
qed

text \<open>
  C40: a flaw.  The echo server over OpenSSL works on the raw connection on the way in and on the plain text on the way out: the lines that a session
  reads are the encrypted bytes as they come from the network, it has each of them encrypted once more and sent as its answer, and
  nothing is ever decrypted.
\<close>

theorem ssl_session_echoes_ciphertext:
  assumes "ssl_echo_session msg n g fd bench e = (Val (Some r), e')"
  shows "plain_in fd e' = plain_in fd e
    \<and> (\<exists>lines outs rest. received fd e' = received fd e @ concat lines @ rest
      \<and> plain_out fd e' = plain_out fd e @ concat outs
      \<and> list_all2 echo_reply lines outs \<and> list_all is_line lines)"
  using assms by (rule ssl_session_trace)

theorem ssl_session_echoes_ciphertext_witness:
  "\<exists>e'. ssl_echo_session (\<lambda>_. []) 3 3 4 (\<lambda>_. []) (ex_io [Data [23, 13, 10], Num 3, Data [], Num 0]) = (Val (Some At_Eof), e')
    \<and> plain_in 4 e' = []"
proof -
  let ?e = "ex_io [Data [23, 13, 10], Num 3, Data [], Num 0]"
  let ?r = "ssl_echo_session (\<lambda>_. []) 3 3 4 (\<lambda>_. []) ?e"
  have v: "ssl_virtual_read 4 = cf_read 4" by (rule ext) (simp add: ssl_virtual_read_def)
  obtain e1 where g1: "get_line 3 (cf_read 4) ([], ?e) = (Val (False, [23, 13, 10]), ([], e1))" "io_answers e1 = [Num 3, Data [], Num 0]"
    by (simp add: get_line_def get_simps)
  obtain e2 where w: "ssl_write (\<lambda>_. []) 4 [23, 13, 10] e1 = (Val (), e2)" "io_answers e2 = [Data [], Num 0]"
    using g1(2) by (simp add: ssl_write_def bindS_def ssl_retry.simps [of _ 4 "C_SSL 4 _"] ask_def ssl_write_answer_def value_of_def)
  obtain e3 where g2: "get_line 3 (cf_read 4) ([], e2) = (Val (True, []), ([], e3))" "io_answers e3 = [Num 0]"
    using w(2) by (simp add: get_line_def get_simps)
  have "fst ?r = Val (Some At_Eof)"
    by (simp add: ssl_echo_session_def v echo_loop_over_numeral bindS_def g1 w g2 char_at_def on_file_def
        cf_close_def sys_num_def ask_def num_answer_def cf_destroy_def)
  then have r: "?r = (Val (Some At_Eof), snd ?r)" by (metis prod.collapse)
  have "plain_in 4 ?e = []" by (simp add: plain_in_def ex_io_def)
  with conjunct1 [OF ssl_session_echoes_ciphertext [OF r]] r show ?thesis by metis
qed

end
