(* ===== verification/Tls_Threads.thy ===== *)
theory Tls_Threads
  imports Replay Progress Echo_Tls
begin

section \<open>The threads of a server over TLS\<close>

text \<open>
  What the scheduler needs of the operations of \<open>coro_s2n\<close> and \<open>coro_ssl\<close>, as theories \<open>Progress\<close> and \<open>Replay\<close> show it for
  \<open>coro_file\<close>: their loops use up what is left to come, so that an echo session over TLS ends or waits; they are causal; and a session
  closes its descriptor once.
\<close>

subsection \<open>Progress over s2n\<close>

lemma served_s2n_pass [simp]: "served (s2n_pass fd fun c norm)"
  unfolding s2n_pass_def s2n_call_def check_def wait_on_event_def
  by (auto intro!: served_bindS split: blocked.split)

lemma s2n_pass_to_come:
  assumes "s2n_pass fd fun c norm e = (Val (a, d), e')"
  shows "\<exists>b. a = norm b \<and> to_come e' + answer_weight b \<le> to_come e"
proof -
  obtain x e1 r where x: "ask (C_S2N fd c) norm e = (Val x, e1)" and a: "a = x"
    and r: "bindS (ask (C_S2N fd S2N_Blocked) blocked_answer) (\<lambda>b. bindS (check fun (value_of x)) (\<lambda>_.
      bindS (wait_on_event fd (blocked_of b)) (\<lambda>done. ret done))) e1 = (Val r, e')"
    using assms by (auto simp: s2n_pass_def s2n_call_def bindS_iffs)
  have "served (bindS (ask (C_S2N fd S2N_Blocked) blocked_answer) (\<lambda>b. bindS (check fun (value_of x)) (\<lambda>_.
      bindS (wait_on_event fd (blocked_of b)) (\<lambda>done. ret done))))"
    unfolding check_def wait_on_event_def by (auto intro!: served_bindS split: blocked.split)
  from servedD [OF this r] ask_to_come [OF x] show ?thesis unfolding a by auto
qed

text \<open>The loops have one form, with \<open>gain\<close> the bytes that a pass delivers and \<open>before\<close> those of the passes before.\<close>

lemma pass_loop_progress:
  assumes pass: "served m" "\<And>e a d e1. m e = (Val (a, d), e1) \<Longrightarrow> to_come e1 + gain a < to_come e"
    and eq: "bindS m (\<lambda>x e1. if snd x then (Val (f x), e1) else g x e1) e = (r, e')"
    and rest: "\<And>a e1. m e = (Val (a, False), e1) \<Longrightarrow> g (a, False) e1 = (r, e') \<Longrightarrow>
      to_come e' \<le> to_come e1 \<and> (r = Stuck \<longrightarrow> hungry e') \<and> (\<forall>v. r = Val v \<longrightarrow> to_come e' + result v \<le> to_come e1 + before + gain a)"
    and last: "\<And>a. result (f (a, True)) \<le> before + gain a"
  shows "to_come e' \<le> to_come e \<and> (r = Stuck \<longrightarrow> hungry e') \<and> (\<forall>v. r = Val v \<longrightarrow> to_come e' + result v < to_come e + before)"
proof -
  obtain r0 e1 where m: "m e = (r0, e1)" by (rule prod.exhaust)
  from m eq show ?thesis
  proof (cases rule: pass_cases)
    case (go_on a)
    then show ?thesis using rest [of a e1] pass(2) [of e a False e1] m by fastforce
  next
    case (finish a)
    then show ?thesis using last [of a] pass(2) [of e a True e1] m by fastforce
  next
    case fail
    then show ?thesis using servedD [OF pass(1) m] eq m by (cases r0) (auto simp: bindS_def)
  qed
qed

lemma pass_gain: "s2n_pass fd fun c norm e = (Val (a, d), e1) \<Longrightarrow> to_come e1 + 0 < to_come e"
  using s2n_pass_to_come by (fastforce simp: answer_weight_def)

lemma recv_pass_gain:
  assumes "s2n_pass fd fun c (s2n_recv_answer n) e = (Val (a, d), e1)"
  shows "to_come e1 + length (data_of a) < to_come e"
proof -
  obtain b where b: "a = s2n_recv_answer n b" "to_come e1 + answer_weight b \<le> to_come e" using s2n_pass_to_come [OF assms] by blast
  then show ?thesis by (cases b) (simp_all add: s2n_recv_answer_def data_of_def answer_weight_def)
qed

lemma pass_loop_served:
  assumes "bindS (s2n_pass fd fun c norm) (\<lambda>x e1. if snd x then (Val (f x), e1) else g x e1) e = (r, e')"
    and "\<And>a e1. s2n_pass fd fun c norm e = (Val (a, False), e1) \<Longrightarrow> g (a, False) e1 = (r, e') \<Longrightarrow>
      to_come e' \<le> to_come e1 \<and> (r = Stuck \<longrightarrow> hungry e')"
  shows "to_come e' \<le> to_come e \<and> (r = Stuck \<longrightarrow> hungry e')"
  using pass_loop_progress [OF served_s2n_pass pass_gain assms(1), where result = "\<lambda>_. 0" and before = 0] assms(2) by simp

lemma served_negotiate_loop [simp]: "served (negotiate_loop fd)"
proof -
  have "negotiate_loop fd e = (r, e') \<Longrightarrow> to_come e' \<le> to_come e \<and> (r = Stuck \<longrightarrow> hungry e')" for e r e'
  proof (induction fd e rule: negotiate_loop.induct)
    case (1 fd e)
    show ?case by (rule pass_loop_served [OF "1.prems" [unfolded negotiate_loop.simps [of fd e]]]) (use "1.IH" in auto)
  qed
  then show ?thesis by (simp add: served_def)
qed

lemma served_s2n_shutdown_loop [simp]: "served (s2n_shutdown_loop fd)"
proof -
  have "s2n_shutdown_loop fd e = (r, e') \<Longrightarrow> to_come e' \<le> to_come e \<and> (r = Stuck \<longrightarrow> hungry e')" for e r e'
  proof (induction fd e rule: s2n_shutdown_loop.induct)
    case (1 fd e)
    show ?case by (rule pass_loop_served [OF "1.prems" [unfolded s2n_shutdown_loop.simps [of fd e]]]) (use "1.IH" in auto)
  qed
  then show ?thesis by (simp add: served_def)
qed

lemma served_send_loop [simp]: "served (send_loop fd p)"
proof -
  have "send_loop fd p e = (r, e') \<Longrightarrow> to_come e' \<le> to_come e \<and> (r = Stuck \<longrightarrow> hungry e')" for e r e'
  proof (induction fd p e rule: send_loop.induct)
    case (1 fd p e)
    show ?case by (rule pass_loop_served [OF "1.prems" [unfolded send_loop.simps [of fd p e]]]) (use "1.IH" in auto)
  qed
  then show ?thesis by (simp add: served_def)
qed

lemma recv_loop_progress:
  "recv_loop fd len got e = (r, e') \<Longrightarrow>
   to_come e' \<le> to_come e \<and> (r = Stuck \<longrightarrow> hungry e') \<and> (\<forall>bs. r = Val bs \<longrightarrow> to_come e' + length bs < to_come e + length got)"
proof (induction fd len got e rule: recv_loop.induct)
  case (1 fd len got e)
  show ?case
  proof (rule pass_loop_progress [OF served_s2n_pass recv_pass_gain "1.prems" [unfolded recv_loop.simps [of fd len got e]]])
    fix a e1
    assume "s2n_pass fd ''s2n_recv'' (S2N_Recv (len - length got)) (s2n_recv_answer (len - length got)) e = (Val (a, False), e1)"
      "recv_loop fd len (got @ data_of (fst (a, False))) e1 = (r, e')"
    from "1.IH" [OF this(1) _ this(2)]
    show "to_come e' \<le> to_come e1 \<and> (r = Stuck \<longrightarrow> hungry e')
        \<and> (\<forall>v. r = Val v \<longrightarrow> to_come e' + length v \<le> to_come e1 + length got + length (data_of a))"
      by (fastforce simp: less_imp_le)
  next
    show "length (got @ data_of (fst (a, True))) \<le> length got + length (data_of a)" for a :: answer
      by simp
  qed
qed

lemma served_on_conn: "served m \<Longrightarrow> on_conn m s = (r, s') \<Longrightarrow> to_come (fst s') \<le> to_come (fst s) \<and> (r = Stuck \<longrightarrow> hungry (fst s'))"
  by (auto simp: on_conn_def split: prod.splits dest: servedD)

lemma check_negotiate_progress:
  "check_negotiate fd s = (r, s') \<Longrightarrow> to_come (fst s') \<le> to_come (fst s) \<and> (r = Stuck \<longrightarrow> hungry (fst s'))"
  using served_on_conn [OF served_negotiate_loop, of fd s]
  by (cases "on_conn (negotiate_loop fd) s") (auto simp: check_negotiate_def bindS_def split: if_splits outcome.splits)

lemma s2n_io_progress:
  assumes "bindS (check_negotiate fd) (\<lambda>_. on_conn m) s = (r, s')" "served m"
  shows "to_come (fst s') \<le> to_come (fst s) \<and> (r = Stuck \<longrightarrow> hungry (fst s'))
    \<and> (\<forall>v. r = Val v \<longrightarrow> (\<exists>e. to_come e \<le> to_come (fst s) \<and> m e = (Val v, fst s')))"
proof -
  obtain x s1 where x: "check_negotiate fd s = (x, s1)" by (rule prod.exhaust)
  note c = check_negotiate_progress [OF x]
  show ?thesis
  proof (cases x)
    case (Val u)
    then have m: "on_conn m s1 = (r, s')" using assms(1) x by (simp add: bindS_def)
    then have "m (fst s1) = (r, fst s')" by (auto simp: on_conn_def split: prod.splits)
    then show ?thesis using served_on_conn [OF assms(2) m] c by (auto intro: le_trans)
  qed (use assms(1) x c in \<open>auto simp: bindS_def\<close>)
qed

interpretation s2n_fed: fed_transport "s2n_read fd" "s2n_write fd" "s2n_shutdown fd SHUT_RDWR" "on_conn (cf_close fd)"
  "\<lambda>s. to_come (fst s)" "\<lambda>s. hungry (fst s)"
proof unfold_locales
  fix n s r s' assume r: "s2n_read fd n s = (r, s')"
  have sv: "served (recv_loop fd n [])" using recv_loop_progress by (simp add: served_def)
  note p = s2n_io_progress [OF r [unfolded s2n_read_def] sv]
  have "to_come (fst s') + length bs < to_come (fst s)" if v: "r = Val bs" for bs
  proof -
    obtain e where e: "to_come e \<le> to_come (fst s)" "recv_loop fd n [] e = (Val bs, fst s')" using p v by blast
    show ?thesis using recv_loop_progress [OF e(2)] e(1) by auto
  qed
  then show "to_come (fst s') \<le> to_come (fst s) \<and> (r = Stuck \<longrightarrow> hungry (fst s'))
      \<and> (\<forall>bs. r = Val bs \<longrightarrow> to_come (fst s') + length bs < to_come (fst s))" using p by blast
next
  fix p s r s' assume "s2n_write fd p s = (r, s')"
  then show "to_come (fst s') \<le> to_come (fst s) \<and> (r = Stuck \<longrightarrow> hungry (fst s'))"
    using s2n_io_progress [OF _ served_send_loop] unfolding s2n_write_def by blast
next
  fix s r s' assume "s2n_shutdown fd SHUT_RDWR s = (r, s')"
  then show "to_come (fst s') \<le> to_come (fst s) \<and> (r = Stuck \<longrightarrow> hungry (fst s'))"
    unfolding s2n_shutdown_def by (rule served_on_conn [OF served_s2n_shutdown_loop])
next
  fix s k s' assume "on_conn (cf_close fd) s = (k, s')"
  then show "to_come (fst s') \<le> to_come (fst s) \<and> (k = Stuck \<longrightarrow> hungry (fst s'))"
    by (rule served_on_conn [OF served_close(1)])
qed

text \<open>
  An echo session over s2n ends: with the same fuel as over a plain socket it returns, throws or waits for the kernel or for s2n, the
  handshake, the retries and the shutdown included.
\<close>

lemma s2n_session_ends:
  assumes "to_come e < n" "to_come e + 1 < g" "s2n_echo_session n g fd bench e = (Stuck, e')"
  shows "io_answers e' = [] \<or> io_wakes e' = []"
proof -
  obtain x b e1 neg where l: "s2n_echo_loop n g fd bench ([], (e, False)) = (x, (b, (e1, neg)))" by (metis prod.collapse)
  have "hungry e'"
  proof (cases x)
    case Stuck
    then have "e' = e1" using assms(3) l by (simp add: s2n_echo_session_def)
    then show ?thesis
      using s2n_fed.loop_returns [OF _ _ l [unfolded s2n_echo_loop_def Stuck]] assms(1,2) by (simp add: s2n_fed.due_def)
  qed (use assms(3) l in \<open>auto simp: s2n_echo_session_def destroy_s2n_def bindS_iffs
      dest: servedD [OF served_destroy] servedD [OF served_calls(1)]\<close>)
  then show ?thesis by (simp add: hungry_def)
qed

subsection \<open>Progress over OpenSSL\<close>

lemma served_sys_int [simp]: "served (sys_int c)"
  unfolding sys_int_def by (rule served_bindS) simp_all

lemma served_wait_or_error [simp]: "served (wait_or_error msg fd code)"
  unfolding wait_or_error_def throw_ssl_error_def by (auto intro!: served_bindS)

lemma served_ssl_retry [simp]: "served (ssl_retry msg fd c norm again)"
proof -
  have "ssl_retry msg fd c norm again e = (r, e') \<Longrightarrow> to_come e' \<le> to_come e \<and> (r = Stuck \<longrightarrow> hungry e')" for e r e'
  proof (induction msg fd c norm again e rule: ssl_retry.induct)
    case (1 msg fd c norm again e)
    obtain x e1 where x: "ask c norm e = (x, e1)" by (rule prod.exhaust)
    note sx = servedD [OF served_ask x]
    show ?case
    proof (cases "\<exists>a. x = Val a \<and> again (value_of a)")
      case True
      then obtain a where a: "x = Val a" "again (value_of a)" by blast
      obtain y e2 where y: "wait_or_error msg fd (value_of a) e1 = (y, e2)" by (rule prod.exhaust)
      note sy = servedD [OF served_wait_or_error y]
      show ?thesis
      proof (cases y)
        case (Val u)
        then have "ssl_retry msg fd c norm again e2 = (r, e')"
          using "1.prems" x a y by (simp add: ssl_retry.simps [of msg fd c norm again e] bindS_def)
        from "1.IH" [OF x [unfolded a(1)] a(2) y [unfolded Val] this] show ?thesis using sx sy by simp
      qed (use "1.prems" x a y sx sy in \<open>auto simp: ssl_retry.simps [of msg fd c norm again e] bindS_def\<close>)
    next
      case False
      then show ?thesis using "1.prems" x sx
        by (cases x) (auto simp: ssl_retry.simps [of msg fd c norm again e] bindS_def)
    qed
  qed
  then show ?thesis by (simp add: served_def)
qed

lemma served_ssl [simp]: "served (ssl_write msg fd p)" "served (ssl_shutdown msg fd how)"
  unfolding ssl_write_def ssl_shutdown_def by (rule served_bindS; simp)+

interpretation ssl_fed: fed_transport "ssl_virtual_read fd" "ssl_write msg fd" "ssl_shutdown msg fd SHUT_RDWR" "cf_close fd" to_come hungry
  using cf_read_progress [of fd, folded ssl_virtual_read_def] servedD [OF served_ssl(1)] servedD [OF served_ssl(2)] servedD [OF served_close(1)]
  by unfold_locales (auto simp: ssl_virtual_read_def dest: cf_read_progress)

lemma ssl_session_ends:
  assumes "to_come e < n" "to_come e + 1 < g" "ssl_echo_session msg n g fd bench e = (Stuck, e')"
  shows "hungry e'"
proof -
  obtain x b e1 where l: "echo_loop_over n g (ssl_virtual_read fd) (ssl_write msg fd) (ssl_shutdown msg fd SHUT_RDWR) (cf_close fd) bench ([], e)
      = (x, (b, e1))" by (metis prod.collapse)
  show ?thesis
  proof (cases x)
    case Stuck
    then have "e' = e1" using assms(3) l by (simp add: ssl_echo_session_def)
    then show ?thesis using ssl_fed.loop_returns [OF _ _ l [unfolded Stuck]] assms(1,2) by (simp add: ssl_fed.due_def)
  qed (use assms(3) l in \<open>auto simp: ssl_echo_session_def bindS_iffs dest: servedD [OF served_destroy]\<close>)
qed

subsection \<open>Causality\<close>

text \<open>The loops again: with one pass causal, so are they.\<close>

lemma causal_below_pass:
  assumes "wio.causal m" "\<And>e a e1. m e = (Val a, e1) \<Longrightarrow> length (io_answers e1) < length (io_answers e)"
    and "\<And>x. wio.causal_below k (g x)"
  shows "wio.causal_below (Suc k) (bindS m (\<lambda>x e1. if P x then (Val (f x), e1) else g x e1))"
proof (rule wio.causal_below_bindS [where k = k, OF assms(1)])
  show "wio.causal_below k (\<lambda>e1. if P x then (Val (f x), e1) else g x e1)" for x
    using assms(3) by (auto intro!: causal_below_intros)
qed (use assms(2) in fastforce)

lemma causal_loopI: "wio.causal_below 0 m \<Longrightarrow> (\<And>k. wio.causal_below k m \<Longrightarrow> wio.causal_below (Suc k) m) \<Longrightarrow> wio.causal m"
  by (rule wio.causal_below_all) (rule nat.induct)

lemma causal_below_0 [simp]: "wio.causal_below 0 m"
  by (simp add: wio.causal_below_def)

lemma causal_s2n_pass [simp]: "wio.causal (s2n_pass fd fun c norm)"
  unfolding s2n_pass_def s2n_call_def check_def wait_on_event_def
  by (auto intro!: wio.causal_bindS split: blocked.split)

lemma causal_negotiate_loop [simp]: "wio.causal (negotiate_loop fd)"
proof (rule causal_loopI)
  have eq: "negotiate_loop fd = bindS (s2n_pass fd ''s2n_negotiate'' S2N_Negotiate num_answer)
      (\<lambda>x e1. if snd x then (Val (), e1) else negotiate_loop fd e1)" by (rule ext) (rule negotiate_loop.simps)
  show "wio.causal_below (Suc k) (negotiate_loop fd)" if "wio.causal_below k (negotiate_loop fd)" for k
    by (subst eq, rule causal_below_pass) (use that in \<open>auto dest: s2n_pass_less\<close>)
qed simp

lemma causal_s2n_shutdown_loop [simp]: "wio.causal (s2n_shutdown_loop fd)"
proof (rule causal_loopI)
  have eq: "s2n_shutdown_loop fd = bindS (s2n_pass fd ''s2n_shutdown'' S2N_Shutdown num_answer)
      (\<lambda>x e1. if snd x then (Val (), e1) else s2n_shutdown_loop fd e1)" by (rule ext) (rule s2n_shutdown_loop.simps)
  show "wio.causal_below (Suc k) (s2n_shutdown_loop fd)" if "wio.causal_below k (s2n_shutdown_loop fd)" for k
    by (subst eq, rule causal_below_pass) (use that in \<open>auto dest: s2n_pass_less\<close>)
qed simp

lemma causal_recv_loop [simp]: "wio.causal (recv_loop fd len got)"
proof (rule wio.causal_below_all)
  have eq: "recv_loop fd len got = bindS (s2n_pass fd ''s2n_recv'' (S2N_Recv (len - length got)) (s2n_recv_answer (len - length got)))
      (\<lambda>x e1. if snd x then (Val (got @ data_of (fst x)), e1) else recv_loop fd len (got @ data_of (fst x)) e1)" for got
    by (rule ext) (rule recv_loop.simps)
  show "wio.causal_below k (recv_loop fd len got)" for k
  proof (induction k arbitrary: got)
    case (Suc k)
    show ?case by (subst eq, rule causal_below_pass) (use Suc.IH in \<open>auto dest: s2n_pass_less\<close>)
  qed simp
qed

lemma causal_send_loop [simp]: "wio.causal (send_loop fd p)"
proof (rule wio.causal_below_all)
  have eq: "send_loop fd p = bindS (s2n_pass fd ''s2n_send'' (S2N_Send p) (s2n_send_answer (length p)))
      (\<lambda>x e1. if snd x then (Val (), e1) else send_loop fd (drop (count_of (fst x)) p) e1)" for p
    by (rule ext) (rule send_loop.simps)
  show "wio.causal_below k (send_loop fd p)" for k
  proof (induction k arbitrary: p)
    case (Suc k)
    show ?case by (subst eq, rule causal_below_pass) (use Suc.IH in \<open>auto dest: s2n_pass_less\<close>)
  qed simp
qed

lemma causal_sys [simp]: "wio.causal (sys_ok c)" "wio.causal (sys_int c)"
  unfolding sys_ok_def sys_int_def by (rule wio.causal_bindS; simp)+

lemma causal_wait_or_error [simp]: "wio.causal (wait_or_error msg fd code)"
  unfolding wait_or_error_def throw_ssl_error_def by (auto intro!: wio.causal_bindS)

lemma causal_ssl_retry [simp]: "wio.causal (ssl_retry msg fd c norm again)"
proof (rule causal_loopI)
  let ?again = "\<lambda>a. bindS (wait_or_error msg fd (value_of a)) (\<lambda>_. ssl_retry msg fd c norm again)"
  have eq: "ssl_retry msg fd c norm again =
      bindS (ask c norm) (\<lambda>a e1. if \<not> again (value_of a) then (Val a, e1) else ?again a e1)"
    by (rule ext) (subst ssl_retry.simps, simp add: bindS_def split: prod.split outcome.split)
  show "wio.causal_below (Suc k) (ssl_retry msg fd c norm again)" if k: "wio.causal_below k (ssl_retry msg fd c norm again)" for k
  proof (subst eq, rule causal_below_pass)
    show "wio.causal_below k (?again a)" for a
      by (rule wio.causal_below_bindS [where k = k]) (use k in \<open>auto dest: wait_or_error_answers\<close>)
  qed (use ask_less in auto)
qed simp

lemma causal_ssl [simp]:
  "wio.causal (ssl_write msg fd p)" "wio.causal (ssl_shutdown msg fd how)" "wio.causal (ssl_accept msg fd)"
  "wio.causal (ssl_virtual_read fd n)" "wio.causal (ssl_listen fd k)" "wio.causal (new_ssl fd)" "wio.causal (new_ssl_ctx file)"
  unfolding ssl_write_def ssl_shutdown_def ssl_accept_def ssl_virtual_read_def ssl_listen_def new_ssl_def new_ssl_ctx_def cs_listen_def
  by (auto intro!: wio.causal_bindS wio.causal_on_throw)

lemma causal_ssl_conn_accept [simp]: "wio.causal (ssl_conn_accept msg fd)"
proof (rule causal_loopI)
  have eq: "ssl_conn_accept msg fd = bindS (sys_num (C_Accept fd)) (\<lambda>c e1.
     if c > 0 then bindS (new_ssl c) (\<lambda>conn. bindS (ssl_accept msg conn) (\<lambda>_. ret conn)) e1
     else if io_errno e1 = EWOULDBLOCK then bindS (wait_for_read fd) (\<lambda>_. ssl_conn_accept msg fd) e1
     else (Raise (OS_Error ''accept'' (io_errno e1)), e1))"
    by (rule ext) (rule ssl_conn_accept.simps)
  have b: "wio.causal_below k (bindS (new_ssl c) (\<lambda>conn. bindS (ssl_accept msg conn) (\<lambda>_. ret conn)))" for k c
    by (rule wio.causal_belowI) (auto intro!: wio.causal_bindS)
  show "wio.causal_below (Suc k) (ssl_conn_accept msg fd)" if k: "wio.causal_below k (ssl_conn_accept msg fd)" for k
    by (subst eq, rule wio.causal_below_bindS [where k = k])
      (use k in \<open>auto intro!: causal_below_intros causal_below_retry b dest: sys_num_less wait_answers(1)\<close>)
qed simp

lemma causal_new_s2n [simp]:
  "wio.causal (new_s2n fd)" "wio.causal (new_s2n_cfg crt key)" "wio.causal (s2n_accept fd)" "wio.causal (destroy_s2n fd)"
proof -
  show n: "wio.causal (new_s2n fd)" for fd unfolding new_s2n_def by (auto intro!: wio.causal_bindS wio.causal_on_throw)
  show "wio.causal (new_s2n_cfg crt key)" "wio.causal (s2n_accept fd)" "wio.causal (destroy_s2n fd)"
    unfolding new_s2n_cfg_def s2n_accept_def destroy_s2n_def using n by (auto intro!: wio.causal_bindS)
qed

subsection \<open>The state of a connection\<close>

text \<open>The flag \<open>_negotiated\<close> is beside the system, and a buffer over both.\<close>

interpretation wtbuf: waking_state "\<lambda>ws s. (fst s, (more_wakes ws (fst (snd s)), snd (snd s)))" "\<lambda>s. fst (snd s)"
  by unfold_locales simp_all

interpretation wtls: waking_buffer "\<lambda>ws s. (more_wakes ws (fst s), snd s)" fst
  by unfold_locales simp_all

lemma causal_on_conn: "wio.causal m \<Longrightarrow> wsrv.causal (on_conn m)"
proof -
  have "on_conn m = (\<lambda>s. (fst (m (fst s)), (snd (m (fst s)), snd s)))"
    by (rule ext) (simp add: on_conn_def split: prod.split)
  then show "wio.causal m \<Longrightarrow> ?thesis" using causal_beside by simp
qed

lemma causal_from_beside:
  assumes "wsrv.causal m"
  shows "wio.causal (\<lambda>e. (fst (m (e, b)), fst (snd (m (e, b)))))"
  unfolding wio.causal_def wio.grows_def
proof (intro conjI allI)
  fix e
  have g: "wsrv.grows m" and c: "wsrv.causal_at m (e, b)" using assms by (simp_all add: wsrv.causal_def)
  show "prefix (io_log e) (io_log (snd (fst (m (e, b)), fst (snd (m (e, b))))))"
    using spec [OF g [unfolded wsrv.grows_def], of "(e, b)"] by simp
  obtain r e1 b1 where me: "m (e, b) = (r, (e1, b1))" by (metis prod.collapse)
  show "wio.causal_at (\<lambda>e. (fst (m (e, b)), fst (snd (m (e, b))))) e"
    using c me unfolding wio.causal_at_def wsrv.causal_at_def wio.halted_def wsrv.halted_def wio.waits_def wsrv.waits_def
    by (cases r) simp_all
qed

lemma causal_check_negotiate: "wsrv.causal (check_negotiate fd)"
proof -
  have eq: "check_negotiate fd =
      (\<lambda>s. if \<not> snd s then bindS (on_conn (negotiate_loop fd)) (\<lambda>_ s1. (Val (), (fst s1, True))) s else ret () s)"
    by (rule ext) (simp add: check_negotiate_def ret_def)
  have "wsrv.causal (\<lambda>s1. (Val (), (fst s1, True)))"
    by (rule wsrv.causalI) (simp_all add: wsrv.grows_def wsrv.causal_at_def)
  then show ?thesis unfolding eq by (intro wsrv.causal_choose wsrv.causal_bindS causal_on_conn wsrv.causal_basic(1)) simp_all
qed

lemma causal_s2n [simp]:
  "wsrv.causal (s2n_read fd n)" "wsrv.causal (s2n_write fd p)" "wsrv.causal (s2n_shutdown fd how)" "wsrv.causal (on_conn (cf_close fd))"
  unfolding s2n_read_def s2n_write_def s2n_shutdown_def
  by (auto intro!: wsrv.causal_bindS causal_check_negotiate causal_on_conn)

lemma causal_s2n_session [simp]:
  assumes "\<And>ws e. bench (more_wakes ws e) = bench e"
  shows "wio.causal (s2n_echo_session n g fd bench)"
proof -
  let ?free = "\<lambda>x. bindS (sys_num (C_S2N fd S2N_Free)) (\<lambda>_. bindS (cf_destroy (- 1)) (\<lambda>_. ret (Some x)))"
  let ?m = "wtbuf.handle (s2n_echo_loop n g fd bench) (\<lambda>x. on_file (on_conn (?free x)))
    (\<lambda>ex. on_file (on_conn (bindS (destroy_s2n fd) (\<lambda>_. ret None))))"
  let ?n = "\<lambda>s. (fst (?m ([], s)), snd (snd (?m ([], s))))"
  have "wtbuf.causal (s2n_echo_loop n g fd bench)"
    unfolding s2n_echo_loop_def by (rule wtls.buf_echo_loop_over) (simp_all add: assms)
  moreover have "wio.causal (?free x)" "wio.causal (bindS (destroy_s2n fd) (\<lambda>_. ret (None :: echo_end option)))" for x :: echo_end
    by (auto intro!: wio.causal_bindS)
  ultimately have "wtbuf.causal ?m"
    by (intro wtbuf.causal_handle wtls.buf_on_file causal_on_conn)
  then have "wsrv.causal ?n" by (rule wtls.from_buf)
  then have "wio.causal (\<lambda>e. (fst (?n (e, False)), fst (snd (?n (e, False)))))" by (rule causal_from_beside)
  moreover have "(\<lambda>e. (fst (?n (e, False)), fst (snd (?n (e, False))))) = s2n_echo_session n g fd bench"
    by (rule ext) (auto simp: wtbuf.handle_def s2n_echo_session_def on_file_def on_conn_def split: prod.split outcome.split)
  ultimately show ?thesis by simp
qed

lemma causal_ssl_session [simp]:
  assumes "\<And>ws e. bench (more_wakes ws e) = bench e"
  shows "wio.causal (ssl_echo_session msg n g fd bench)"
proof -
  let ?l = "echo_loop_over n g (ssl_virtual_read fd) (ssl_write msg fd) (ssl_shutdown msg fd SHUT_RDWR) (cf_close fd) bench"
  let ?m = "wbuf.handle ?l (\<lambda>r. on_file (bindS (cf_destroy (- 1)) (\<lambda>_. ret (Some r))))
    (\<lambda>ex. on_file (bindS (cf_destroy fd) (\<lambda>_. ret None)))"
  have "wbuf.causal ?l" by (rule wfile.buf_echo_loop_over) (simp_all add: assms)
  then have "wbuf.causal ?m" by (intro wbuf.causal_handle causal_on_file wio.causal_bindS) simp_all
  then have "wio.causal (\<lambda>e. (fst (?m ([], e)), snd (snd (?m ([], e)))))" by (rule causal_from_buffer)
  moreover have "(\<lambda>e. (fst (?m ([], e)), snd (snd (?m ([], e))))) = ssl_echo_session msg n g fd bench"
    by (rule ext) (auto simp: wbuf.handle_def ssl_echo_session_def on_file_def split: prod.split outcome.split)
  ultimately show ?thesis by simp
qed

subsection \<open>The descriptor\<close>

lemma entries_close_none: "list_all (entry_of fd P) log \<Longrightarrow> filter (\<lambda>x. fst x = C_Close fd') log = []"
  by (induction log) (auto simp: entry_of_def split: call.splits)

lemma entries_keep_closes:
  "io_log e' = io_log e @ new \<Longrightarrow> list_all (entry_of fd P) new \<Longrightarrow> closes fd' e' = closes fd' e"
  by (simp add: closes_def entries_close_none)

lemma steady_s2n_loops:
  "steady (closes fd') (negotiate_loop fd)" "steady (closes fd') (recv_loop fd len got)"
  "steady (closes fd') (send_loop fd p)" "steady (closes fd') (s2n_shutdown_loop fd)"
  unfolding steady_def
  by (blast intro: entries_keep_closes dest: negotiate_loop_log recv_loop_log send_loop_log s2n_shutdown_loop_log)+

lemma steady_on_conn: "steady f m \<Longrightarrow> steady (\<lambda>s. f (fst s)) (on_conn m)"
  by (auto simp: steady_def on_conn_def split: prod.splits)

lemma steady_check_negotiate: "steady (\<lambda>s. closes fd' (fst s)) (check_negotiate fd)"
proof -
  have "steady (\<lambda>s. closes fd' (fst s)) (bindS (on_conn (negotiate_loop fd)) (\<lambda>_ s1. (Val (), (fst s1, True))))"
    by (intro steady_bindS steady_on_conn steady_s2n_loops) (simp add: steady_def)
  then show ?thesis by (auto simp: steady_def check_negotiate_def)
qed

lemma steady_s2n:
  "steady (\<lambda>s. closes fd' (fst s)) (s2n_read fd n)" "steady (\<lambda>s. closes fd' (fst s)) (s2n_write fd p)"
  "steady (\<lambda>s. closes fd' (fst s)) (s2n_shutdown fd how)"
  unfolding s2n_read_def s2n_write_def s2n_shutdown_def
  by (intro steady_bindS steady_check_negotiate steady_on_conn steady_s2n_loops)+

lemma closes_by_conn_close: "closes_by (\<lambda>s. closes fd (fst s)) 1 (on_file (on_conn (cf_close fd)))"
  unfolding closes_by_def on_file_def on_conn_def
  by (auto split: prod.splits outcome.splits dest: cf_close_closes)

lemma s2n_session_closes_once:
  assumes "s2n_echo_session n g fd bench e = (Val r, e')" "fd \<noteq> - 1"
  shows "closes fd e' = closes fd e + 1"
proof -
  obtain x b e1 neg where l: "s2n_echo_loop n g fd bench ([], (e, False)) = (x, (b, (e1, neg)))" by (metis prod.collapse)
  have "closes_by (\<lambda>s. closes fd (fst s)) 1 (s2n_echo_loop n g fd bench)"
    unfolding s2n_echo_loop_def by (rule echo_loop_over_closes [OF steady_s2n closes_by_conn_close])
  from spec [OF this [unfolded closes_by_def], of "([], (e, False))"] l
  have c: "closes fd e1 = closes fd e + (case x of Val _ \<Rightarrow> 1 | _ \<Rightarrow> 0)" by simp
  have free: "steady (closes fd) (sys_num (C_S2N fd S2N_Free))" by (simp add: steady_sys_num)
  show ?thesis
  proof (cases x)
    case (Val y)
    then obtain k where "sys_num (C_S2N fd S2N_Free) e1 = (Val k, e')"
      using assms l by (auto simp: s2n_echo_session_def cf_destroy_def bindS_iffs)
    from steadyD [OF free this] show ?thesis using c Val by simp
  next
    case (Raise ex)
    then obtain k e2 r' where "sys_num (C_S2N fd S2N_Free) e1 = (Val k, e2)" "cf_close fd e2 = (Val r', e')"
      using assms l by (auto simp: s2n_echo_session_def destroy_s2n_def cf_destroy_def bindS_iffs)
    then show ?thesis using c Raise steadyD [OF free] cf_close_closes by fastforce
  qed (use assms(1) l in \<open>simp add: s2n_echo_session_def\<close>)
qed

lemma steady_ssl_closes:
  "steady (closes fd') (ssl_virtual_read fd n)" "steady (closes fd') (ssl_write msg fd p)" "steady (closes fd') (ssl_shutdown msg fd how)"
  unfolding ssl_virtual_read_def ssl_write_def ssl_shutdown_def
  by (simp add: steady_cf_read) (rule steady_bindS; simp add: steady_ssl_retry)+

lemma ssl_session_closes_once:
  assumes "ssl_echo_session msg n g fd bench e = (Val r, e')" "fd \<noteq> - 1"
  shows "closes fd e' = closes fd e + 1"
proof -
  let ?l = "echo_loop_over n g (ssl_virtual_read fd) (ssl_write msg fd) (ssl_shutdown msg fd SHUT_RDWR) (cf_close fd) bench"
  obtain x b e1 where l: "?l ([], e) = (x, (b, e1))" by (metis prod.collapse)
  have "closes_by (closes fd) 1 ?l" by (rule echo_loop_over_closes [OF steady_ssl_closes closes_by_close])
  from spec [OF this [unfolded closes_by_def], of "([], e)"] l
  have c: "closes fd e1 = closes fd e + (case x of Val _ \<Rightarrow> 1 | _ \<Rightarrow> 0)" by simp
  show ?thesis
  proof (cases x)
    case (Raise ex)
    then obtain r' where "cf_close fd e1 = (Val r', e')"
      using assms l by (auto simp: ssl_echo_session_def cf_destroy_def bindS_iffs)
    from cf_close_closes [OF this] show ?thesis using c Raise by simp
  qed (use assms(1) l c in \<open>auto simp: ssl_echo_session_def cf_destroy_def\<close>)
qed

text \<open>The handlers catch everything: a session throws nothing itself.\<close>

lemma destroy_s2n_no_raise: "destroy_s2n fd e \<noteq> (Raise ex, e')"
  using sys_num_no_raise cf_destroy_no_raise by (auto simp: destroy_s2n_def bindS_iffs)

lemma tls_session_no_raise:
  "s2n_echo_session n g fd bench e \<noteq> (Raise ex, e')" "ssl_echo_session msg n g fd bench e \<noteq> (Raise ex, e')"
  unfolding s2n_echo_session_def ssl_echo_session_def
  using sys_num_no_raise cf_destroy_no_raise destroy_s2n_no_raise
  by (auto simp: bindS_iffs split: prod.splits outcome.splits)

end
