(* ===== verification/Tls_Program.thy ===== *)
theory Tls_Program
  imports Tls_Threads Echo_Program
begin

section \<open>The echo server over TLS as a whole program\<close>

text \<open>
  \<open>demo/echo_server.cc\<close> compiled with \<open>USE_S2N\<close> or \<open>USE_OPENSSL\<close>, from \<open>main\<close> on, as two more instances of theory \<open>Server_Program\<close>.
  Only what \<open>echo_server\<close> creates and the class of the sockets differ from \<open>Echo_Program\<close>.  The initialisation of the libraries, whose
  results the code ignores, is left out.
\<close>

subsection \<open>The servers\<close>

text \<open>
  With s2n: the configuration with the certificate and the key, and a listening \<open>coro_s2n\<close>.  \<open>bind\<close> and \<open>listen\<close> are those of
  \<open>coro_socket\<close>.
\<close>

definition s2n_echo_server :: "nat \<Rightarrow> byte list \<Rightarrow> byte list \<Rightarrow> 16 word \<Rightarrow> byte list \<Rightarrow> (io \<times> int list, unit) op" where
  "s2n_echo_server n crt key port sin_zero =
     echo_handlers (serve_on (bindS (new_s2n_cfg crt key) (\<lambda>_. bindS (new_s2n (- 1)) (\<lambda>s. ret (fst s))))
       (\<lambda>fd. start_listening fd (server_addr port sin_zero)) (\<lambda>fd. bindS (s2n_accept fd) (\<lambda>c. ret (fst c))) n)"

text \<open>With OpenSSL: \<open>listen\<close> and \<open>accept\<close> are overridden.\<close>

definition ssl_start_listening :: "int \<Rightarrow> byte list \<Rightarrow> (io, unit) op" where
  "ssl_start_listening fd addr = bindS (set_reuse_addr fd) (\<lambda>_. bindS (cs_bind fd addr) (\<lambda>_. ssl_listen fd 1024))"

definition ssl_echo_server :: "(int \<Rightarrow> string) \<Rightarrow> nat \<Rightarrow> 16 word \<Rightarrow> byte list \<Rightarrow> (io \<times> int list, unit) op" where
  "ssl_echo_server msg n port sin_zero =
     echo_handlers (serve_on (bindS (new_ssl_ctx ''cert/combined.pem'') (\<lambda>_. new_ssl (- 1)))
       (\<lambda>fd. ssl_start_listening fd (server_addr port sin_zero)) (ssl_conn_accept msg) n)"

lemma causal_tls_servers [simp]:
  "wsrv.causal (s2n_echo_server n crt key port zero)" "wsrv.causal (ssl_echo_server msg n port zero)"
proof -
  show "wsrv.causal (s2n_echo_server n crt key port zero)"
    unfolding s2n_echo_server_def by (intro causal_echo_handlers causal_serve_on wio.causal_bindS) simp_all
  have "wio.causal (ssl_start_listening fd addr)" for fd addr
    unfolding ssl_start_listening_def set_reuse_addr_bind cs_bind_def
    by (auto intro!: wio.causal_bindS split: answer.split)
  then show "wsrv.causal (ssl_echo_server msg n port zero)"
    unfolding ssl_echo_server_def by (intro causal_echo_handlers causal_serve_on wio.causal_bindS) simp_all
qed

lemma echo_handlers_state: "echo_handlers m s = (x, s') \<Longrightarrow> \<exists>y. m s = (y, s')"
  by (auto simp: echo_handlers_def split: prod.splits outcome.splits if_splits)

lemma new_s2n_fd: "new_s2n fd e = (Val c, e') \<Longrightarrow> 0 \<le> fd \<Longrightarrow> fst c = fd"
  by (auto simp: new_s2n_def bindS_iffs on_throw_def new_socket_def split: prod.splits outcome.splits if_splits)

lemma s2n_server_positive:
  "s2n_echo_server n crt key port zero (e, []) = (x, (e', started)) \<Longrightarrow> c \<in> set started \<Longrightarrow> 0 < c"
proof -
  assume "s2n_echo_server n crt key port zero (e, []) = (x, (e', started))" and c: "c \<in> set started"
  from echo_handlers_state [OF this(1) [unfolded s2n_echo_server_def]] obtain y where y:
    "serve_on (bindS (new_s2n_cfg crt key) (\<lambda>_. bindS (new_s2n (- 1)) (\<lambda>s. ret (fst s))))
       (\<lambda>fd. start_listening fd (server_addr port zero)) (\<lambda>fd. bindS (s2n_accept fd) (\<lambda>c. ret (fst c))) n (e, []) = (y, (e', started))" ..
  show "0 < c"
    by (rule serve_on_positive [OF _ y c]) (auto simp: s2n_accept_def bindS_iffs dest!: accept_fd_log new_s2n_fd)
qed

lemma new_ssl_fd: "new_ssl fd e = (Val c, e') \<Longrightarrow> 0 \<le> fd \<Longrightarrow> c = fd"
  by (auto simp: new_ssl_def bindS_iffs on_throw_def new_socket_def split: prod.splits outcome.splits if_splits)

lemma ssl_conn_accept_positive: "ssl_conn_accept msg fd e = (Val c, e') \<Longrightarrow> 0 < c"
proof (induction msg fd e rule: ssl_conn_accept.induct)
  case (1 msg fd e)
  obtain a e1 where a: "sys_num (C_Accept fd) e = (Val a, e1)"
    using "1.prems" by (auto simp: ssl_conn_accept.simps [of msg fd e] bindS_iffs)
  show ?case
  proof (cases "a > 0")
    case True
    then obtain e2 where "new_ssl a e1 = (Val c, e2)"
      using "1.prems" a by (auto simp: ssl_conn_accept.simps [of msg fd e] bindS_iffs)
    then show ?thesis using new_ssl_fd True by fastforce
  next
    case False
    then obtain e2 where w: "io_errno e1 = EWOULDBLOCK" "wait_for_read fd e1 = (Val (), e2)" "ssl_conn_accept msg fd e2 = (Val c, e')"
      using "1.prems" a by (auto simp: ssl_conn_accept.simps [of msg fd e] bindS_iffs split: if_splits)
    show ?thesis by (rule "1.IH" [OF a False w])
  qed
qed

lemma ssl_server_positive:
  "ssl_echo_server msg n port zero (e, []) = (x, (e', started)) \<Longrightarrow> c \<in> set started \<Longrightarrow> 0 < c"
proof -
  assume "ssl_echo_server msg n port zero (e, []) = (x, (e', started))" and c: "c \<in> set started"
  from echo_handlers_state [OF this(1) [unfolded ssl_echo_server_def]] obtain y where y:
    "serve_on (bindS (new_ssl_ctx ''cert/combined.pem'') (\<lambda>_. new_ssl (- 1)))
       (\<lambda>fd. ssl_start_listening fd (server_addr port zero)) (ssl_conn_accept msg) n (e, []) = (y, (e', started))" ..
  show "0 < c" by (rule serve_on_positive [OF ssl_conn_accept_positive y c])
qed

subsection \<open>The program with s2n\<close>

definition s2n_server_part :: "byte list \<Rightarrow> byte list \<Rightarrow> echo_env \<Rightarrow> server_part" where
  "s2n_server_part crt key env ws =
     server_part_of (s2n_echo_server (Suc (length (io_answers (env_server env)))) crt key (env_port env) (env_zero env)) (env_server env) ws"

definition s2n_session_run :: "echo_env \<Rightarrow> int \<Rightarrow> nat \<Rightarrow> wakes \<Rightarrow> echo_end option outcome \<times> io" where
  "s2n_session_run = session_run_on s2n_echo_session"

definition s2n_code :: "byte list \<Rightarrow> byte list \<Rightarrow> echo_env \<Rightarrow> server_point \<Rightarrow> server_point action" where
  "s2n_code crt key env =
     server_threads (s2n_server_part crt key env) (session_part_of (\<lambda>x. x = Some At_Shutdown) (s2n_session_run env))"

text \<open>
  What a session may do with its connection: it answers the plain text, provided that \<open>s2n_send\<close> takes everything when it says that it was not
  blocked.
\<close>

definition s2n_served_well :: "echo_env \<Rightarrow> int \<Rightarrow> nat \<Rightarrow> bool" where
  "s2n_served_well env fd j \<longleftrightarrow>
     (\<exists>ws x e. s2n_session_run env fd j ws = (Val x, e)
       \<and> closes fd e = closes fd (env_session env j) + 1
       \<and> (x \<noteq> None \<longrightarrow> takes_all (io_log e) \<longrightarrow>
           (\<exists>lines outs rest. s2n_in_log fd (io_log e) = s2n_in_log fd (io_log (env_session env j)) @ concat lines @ rest
             \<and> s2n_out_log fd (io_log e) = s2n_out_log fd (io_log (env_session env j)) @ concat outs
             \<and> list_all2 echo_reply lines outs \<and> list_all is_line lines)))"

lemma s2n_accepted_positive: "accepted (s2n_server_part crt key env) fd j \<Longrightarrow> 0 < fd"
  unfolding s2n_server_part_def [abs_def] by (rule server_part_positive [OF s2n_server_positive])

lemma log_of_asleep [simp]: "io_log (asleep e) = io_log e" "io_answers (asleep e) = io_answers e"
  by (simp_all add: asleep_def)

lemma s2n_session_served:
  assumes "accepted (s2n_server_part crt key env) fd j"
    and "fst (session_part_of (\<lambda>x. x = Some At_Shutdown) (s2n_session_run env) fd j ws) \<noteq> Stuck"
  shows "s2n_served_well env fd j"
proof -
  obtain x e where r: "s2n_session_run env fd j ws = (Val x, e)"
    using session_part_returns [OF assms(2) [unfolded s2n_session_run_def] tls_session_no_raise(1)]
    unfolding s2n_session_run_def by blast
  note run = r [unfolded s2n_session_run_def session_run_on_def Let_def]
  have "0 < fd" using assms(1) by (rule s2n_accepted_positive)
  then have "closes fd e = closes fd (env_session env j) + 1" using s2n_session_closes_once [OF run] by simp
  moreover have "\<exists>lines outs rest. s2n_in_log fd (io_log e) = s2n_in_log fd (io_log (env_session env j)) @ concat lines @ rest
      \<and> s2n_out_log fd (io_log e) = s2n_out_log fd (io_log (env_session env j)) @ concat outs
      \<and> list_all2 echo_reply lines outs \<and> list_all is_line lines" if "x = Some y" "takes_all (io_log e)" for y
    using s2n_session_trace [OF run [unfolded that(1)] that(2)] by simp
  ultimately show ?thesis using r unfolding s2n_served_well_def by blast
qed

text \<open>The threads of this program too are what a replay of them says.\<close>

lemma s2n_threads_replay:
  assumes "\<And>ws e. env_bench env (more_wakes ws e) = env_bench env e"
  shows "replays (\<lambda>ws. (fst (s2n_session_run env fd j ws), io_log (snd (s2n_session_run env fd j ws))))"
    and "replays (\<lambda>ws. (fst (s2n_server_part crt key env ws), fst (snd (s2n_server_part crt key env ws))))"
  unfolding s2n_session_run_def s2n_server_part_def
  by (rule session_run_on_replays, simp add: assms) (rule server_part_replays, simp)


text \<open>A client that connects and resets the connection in the handshake.\<close>

definition ex_s2n_env :: echo_env where
  "ex_s2n_env = ex_env
     \<lparr>env_server := ex_io [Num 1, Num 0, Num 3, Num 2, Num 0, Num 1, Num 0, Num 0, Num 0, Num 0, Num 0, Num 0, Num 5, Num 1, Num 0, Num 0, Fail 11],
      env_session := (\<lambda>_. ex_io [Fail 104, Num 0, Num 0, Num 0])\<rparr>"

definition ex_s2n_main :: "exn option outcome \<times> (server_point + thing, poll_poller) world" where
  "ex_s2n_main =
     server_main pp_vtable 1 3 3 (s2n_code [] [] ex_s2n_env) (Server_At [] 0) (init_world ex_clock (\<lambda>_. True) (new_poll_poller [] []))"


subsection \<open>The program with OpenSSL\<close>

definition ssl_server_part :: "(int \<Rightarrow> string) \<Rightarrow> echo_env \<Rightarrow> server_part" where
  "ssl_server_part msg env ws =
     server_part_of (ssl_echo_server msg (Suc (length (io_answers (env_server env)))) (env_port env) (env_zero env)) (env_server env) ws"

definition ssl_session_run :: "(int \<Rightarrow> string) \<Rightarrow> echo_env \<Rightarrow> int \<Rightarrow> nat \<Rightarrow> wakes \<Rightarrow> echo_end option outcome \<times> io" where
  "ssl_session_run msg = session_run_on (ssl_echo_session msg)"

definition ssl_code :: "(int \<Rightarrow> string) \<Rightarrow> echo_env \<Rightarrow> server_point \<Rightarrow> server_point action" where
  "ssl_code msg env =
     server_threads (ssl_server_part msg env) (session_part_of (\<lambda>x. x = Some At_Shutdown) (ssl_session_run msg env))"

text \<open>What a session does with its connection: it closes it once, and it takes the encrypted bytes for the lines.\<close>

definition ssl_served_raw :: "(int \<Rightarrow> string) \<Rightarrow> echo_env \<Rightarrow> int \<Rightarrow> nat \<Rightarrow> bool" where
  "ssl_served_raw msg env fd j \<longleftrightarrow>
     (\<exists>ws x e. ssl_session_run msg env fd j ws = (Val x, e)
       \<and> closes fd e = closes fd (env_session env j) + 1
       \<and> (x \<noteq> None \<longrightarrow> plain_in fd e = plain_in fd (env_session env j)
         \<and> (\<exists>lines outs rest. received fd e = received fd (env_session env j) @ concat lines @ rest
             \<and> plain_out fd e = plain_out fd (env_session env j) @ concat outs
             \<and> list_all2 echo_reply lines outs \<and> list_all is_line lines)))"

lemma plain_of_asleep [simp]:
  "plain_in fd (more_wakes ws (asleep e)) = plain_in fd e" "plain_out fd (more_wakes ws (asleep e)) = plain_out fd e"
  by (simp_all add: plain_in_def plain_out_def)

lemma ssl_accepted_positive: "accepted (ssl_server_part msg env) fd j \<Longrightarrow> 0 < fd"
  unfolding ssl_server_part_def [abs_def] by (rule server_part_positive [OF ssl_server_positive])

lemma ssl_session_served:
  assumes "accepted (ssl_server_part msg env) fd j"
    and "fst (session_part_of (\<lambda>x. x = Some At_Shutdown) (ssl_session_run msg env) fd j ws) \<noteq> Stuck"
  shows "ssl_served_raw msg env fd j"
proof -
  obtain x e where r: "ssl_session_run msg env fd j ws = (Val x, e)"
    using session_part_returns [OF assms(2) [unfolded ssl_session_run_def] tls_session_no_raise(2)]
    unfolding ssl_session_run_def by blast
  note run = r [unfolded ssl_session_run_def session_run_on_def Let_def]
  have "0 < fd" using assms(1) by (rule ssl_accepted_positive)
  then have "closes fd e = closes fd (env_session env j) + 1" using ssl_session_closes_once [OF run] by simp
  moreover have "plain_in fd e = plain_in fd (env_session env j)
      \<and> (\<exists>lines outs rest. received fd e = received fd (env_session env j) @ concat lines @ rest
         \<and> plain_out fd e = plain_out fd (env_session env j) @ concat outs \<and> list_all2 echo_reply lines outs \<and> list_all is_line lines)"
    if "x = Some y" for y
    using ssl_session_trace [OF run [unfolded that]] by simp
  ultimately show ?thesis using r unfolding ssl_served_raw_def by blast
qed

lemma ssl_threads_replay:
  assumes "\<And>ws e. env_bench env (more_wakes ws e) = env_bench env e"
  shows "replays (\<lambda>ws. (fst (ssl_session_run msg env fd j ws), io_log (snd (ssl_session_run msg env fd j ws))))"
    and "replays (\<lambda>ws. (fst (ssl_server_part msg env ws), fst (snd (ssl_server_part msg env ws))))"
  unfolding ssl_session_run_def ssl_server_part_def
  by (rule session_run_on_replays, simp add: assms) (rule server_part_replays, simp)

text \<open>
  the echo server over OpenSSL as a whole program.  The scheduler, the server and the end of the program are as they should be, and every
  dead session has closed its connection once; but no session that has ended on its own has ever decrypted anything: it took what came over
  the network for its lines.
\<close>

theorem ssl_program_serves_raw:
  assumes "waking_poller vt waits ok faults" "ok p" "waits p = {#}"
    and "server_main vt l r n (ssl_code msg env) (Server_At [] 0) (init_world clock malloc p) = (x, w')"
  shows "ends_with x (insert no_memory faults - range Undef) (faults \<inter> range Undef)
    \<and> list_all (coro_accounted (ssl_server_part msg env) (ssl_served_raw msg env)) (w_coros w')
    \<and> (x = Val None \<longrightarrow> (\<exists>fd j ws. accepted (ssl_server_part msg env) fd j
          \<and> fst (ssl_session_run msg env fd j ws) = Val (Some At_Shutdown)))"
  using server_main_serves [where good = "ssl_served_raw msg env", OF assms(1-3) ssl_session_served assms(4) [unfolded ssl_code_def]]
  by (simp add: session_part_of_simps)

text \<open>A client that completes the handshake and closes the connection.\<close>

definition ex_ssl_env :: echo_env where
  "ex_ssl_env = ex_env
     \<lparr>env_server := ex_io [Num 1, Num 1, Num 1, Num 3, Num 2, Num 0, Num 1, Num 1, Num 0, Num 0, Num 0, Num 0, Num 0, Num 5, Num 1, Num 1, Num 1, Fail 11],
      env_session := (\<lambda>_. ex_io [Data [], Num 0])\<rparr>"

definition ex_ssl_main :: "exn option outcome \<times> (server_point + thing, poll_poller) world" where
  "ex_ssl_main = server_main pp_vtable 1 3 3 (ssl_code (\<lambda>_. []) ex_ssl_env) (Server_At [] 0)
     (init_world ex_clock (\<lambda>_. True) (new_poll_poller [] []))"

theorem ssl_program_serves_raw_witness:
  "map co_dead (w_coros (snd ex_ssl_main)) = [False, False, True]
   \<and> list_all (coro_accounted (ssl_server_part (\<lambda>_. []) ex_ssl_env) (ssl_served_raw (\<lambda>_. []) ex_ssl_env)) (w_coros (snd ex_ssl_main))"
proof -
  let ?p = "new_poll_poller [] []"
  have r: "map co_dead (w_coros (snd ex_ssl_main)) = [False, False, True]" by code_simp
  have p: "maps_ok ?p" "waiting ?p = {#}" by (simp_all add: new_poll_poller_def waiting_def maps_ok_def map_ok_def)
  have m: "server_main pp_vtable 1 3 3 (ssl_code (\<lambda>_. []) ex_ssl_env) (Server_At [] 0) (init_world ex_clock (\<lambda>_. True) ?p)
      = (fst ex_ssl_main, snd ex_ssl_main)"
    by (simp add: ex_ssl_main_def)
  from ssl_program_serves_raw [OF pp.waking_poller_axioms p m] show ?thesis using r by simp
qed

end
