(* ===== verification/Bench.thy ===== *)
theory Bench
  imports Timeval Echo_Server
begin

section \<open>Benchmarks\<close>

text \<open>
  \<open>coro_bench.h\<close>: \<open>diff\<close>, which subtracts an earlier sample of the clock and of the resource usage from the present
  one, and \<open>dump\<close>, which prints it through a buffer of 512 bytes.  The present sample (\<open>set\<close>) is a
  parameter, as \<open>gettimeofday\<close> and \<open>getrusage\<close> are calls of the kernel.  A \<open>long\<close> is an \<open>int\<close> here, and
  \<open>is_long\<close> says that it is in range; \<open>snprintf\<close> with \<open>%ld\<close> and \<open>%06ld\<close> is written out.
\<close>

record rusage =
  ru_utime :: timeval
  ru_stime :: timeval
  ru_maxrss :: int
  ru_ixrss :: int
  ru_idrss :: int
  ru_isrss :: int
  ru_minflt :: int
  ru_majflt :: int
  ru_nswap :: int
  ru_inblock :: int
  ru_oublock :: int
  ru_msgsnd :: int
  ru_msgrcv :: int
  ru_nsignals :: int
  ru_nvcsw :: int
  ru_nivcsw :: int

record bench =
  b_ru :: rusage
  b_tv :: timeval

definition bench_diff :: "bench \<Rightarrow> bench \<Rightarrow> bench" where
  "bench_diff b now =
     (let o_ru = b_ru now; ru = b_ru b in
      \<lparr>b_ru =
         \<lparr>ru_utime = timersub (ru_utime o_ru) (ru_utime ru),
          ru_stime = timersub (ru_stime o_ru) (ru_stime ru),
          ru_maxrss = max (ru_maxrss ru) (ru_maxrss o_ru),
          ru_ixrss = ru_ixrss o_ru,
          ru_idrss = ru_idrss o_ru,
          ru_isrss = ru_isrss o_ru,
          ru_minflt = ru_minflt o_ru - ru_minflt ru,
          ru_majflt = ru_majflt o_ru - ru_majflt ru,
          ru_nswap = ru_nswap o_ru - ru_nswap ru,
          ru_inblock = ru_inblock o_ru - ru_inblock ru,
          ru_oublock = ru_oublock o_ru - ru_oublock ru,
          ru_msgsnd = ru_msgsnd o_ru - ru_msgsnd ru,
          ru_msgrcv = ru_msgrcv o_ru - ru_msgrcv ru,
          ru_nsignals = ru_nsignals o_ru - ru_nsignals ru,
          ru_nvcsw = ru_nvcsw o_ru - ru_nvcsw ru,
          ru_nivcsw = ru_nivcsw o_ru - ru_nivcsw ru\<rparr>,
       b_tv = timersub (b_tv now) (b_tv b)\<rparr>)"

subsection \<open>Printing\<close>

definition chars :: "string \<Rightarrow> byte list" where
  "chars s = map of_char s"

fun digits :: "nat \<Rightarrow> byte list" where
  "digits n = (if n < 10 then [48 + of_nat n] else digits (n div 10) @ [48 + of_nat (n mod 10)])"

declare digits.simps [simp del]

definition ld :: "int \<Rightarrow> byte list" where
  "ld n = (if n < 0 then 45 # digits (nat (- n)) else digits (nat n))"

definition ld6 :: "int \<Rightarrow> byte list" where
  "ld6 n =
     (if n < 0 then 45 # replicate (5 - length (digits (nat (- n)))) 48 @ digits (nat (- n))
      else replicate (6 - length (digits (nat n))) 48 @ digits (nat n))"

definition tv_field :: "timeval \<Rightarrow> byte list" where
  "tv_field t = ld (tv_sec t) @ chars '' '' @ ld6 (tv_usec t) @ chars ''|''"

definition field :: "string \<Rightarrow> int \<Rightarrow> byte list" where
  "field name n = chars name @ chars '':'' @ ld n"

definition dump_text :: "bench \<Rightarrow> byte list" where
  "dump_text b =
     tv_field (b_tv b) @ tv_field (ru_utime (b_ru b)) @ tv_field (ru_stime (b_ru b))
     @ field ''maxrss'' (ru_maxrss (b_ru b)) @ chars '' '' @ field ''ixrss'' (ru_ixrss (b_ru b)) @ chars '' ''
     @ field ''idrss'' (ru_idrss (b_ru b)) @ chars '' '' @ field ''isrss'' (ru_isrss (b_ru b)) @ chars '' ''
     @ field ''minflt'' (ru_minflt (b_ru b)) @ chars '' '' @ field ''majflt'' (ru_majflt (b_ru b)) @ chars '' ''
     @ field ''nswap'' (ru_nswap (b_ru b)) @ chars '' '' @ field ''inblock'' (ru_inblock (b_ru b)) @ chars '' ''
     @ field ''oublock'' (ru_oublock (b_ru b)) @ chars '' '' @ field ''msgsnd'' (ru_msgsnd (b_ru b)) @ chars '' ''
     @ field ''msgrcv'' (ru_msgrcv (b_ru b)) @ chars '' '' @ field ''nsignals'' (ru_nsignals (b_ru b)) @ chars '' ''
     @ field ''nvcsw'' (ru_nvcsw (b_ru b)) @ chars '' '' @ field ''nivcsw'' (ru_nivcsw (b_ru b)) @ CRLF"

text \<open>
  \<open>snprintf\<close> returns the length \<open>n\<close> of the whole text but stores at most 511 bytes and a 0, and the string is then
  made of \<open>n\<close> bytes of the buffer.
\<close>

definition dump :: "byte list \<Rightarrow> bench \<Rightarrow> byte list outcome" where
  "dump r b =
     (let full = dump_text b; n = length full; buffer = take 511 full @ [0] in
      if n \<le> 512 then Val (r @ take n buffer) else Raise (Undef Out_Of_Bounds))"

subsection \<open>The length of the text\<close>

definition is_long :: "int \<Rightarrow> bool" where
  "is_long n \<longleftrightarrow> - (2 ^ 63) \<le> n \<and> n < 2 ^ 63"

lemma digits_length: "n < 10 ^ Suc k \<Longrightarrow> length (digits n) \<le> Suc k"
proof (induction k arbitrary: n)
  case 0
  then show ?case by (simp add: digits.simps)
next
  case (Suc k)
  have "n div 10 < 10 ^ Suc k" using Suc.prems by (simp add: less_mult_imp_div_less mult.commute)
  from Suc.IH [OF this] show ?case by (subst digits.simps) simp
qed

lemma digits_range: "x \<in> set (digits n) \<Longrightarrow> 48 \<le> x \<and> x \<le> 57"
proof (induction n rule: digits.induct)
  case (1 n)
  have d: "48 \<le> 48 + (of_nat k :: byte) \<and> 48 + (of_nat k :: byte) \<le> 57" if "k < 10" for k
  proof -
    have "k \<in> {0, 1, 2, 3, 4, 5, 6, 7, 8, 9}" using that by auto
    then show ?thesis by auto
  qed
  show ?case
    using "1.prems" "1.IH" d [of n] d [of "n mod 10"] by (subst (asm) digits.simps) (auto split: if_splits)
qed

lemma ld_length: "is_long n \<Longrightarrow> length (ld n) \<le> 20"
proof -
  assume n: "is_long n"
  then have "nat (- n) < 10 ^ Suc 18" "nat n < 10 ^ Suc 18" by (auto simp: is_long_def nat_less_iff)
  then show ?thesis using digits_length [of "nat (- n)" 18] digits_length [of "nat n" 18] by (simp add: ld_def)
qed

lemma ld6_length: "0 \<le> n \<Longrightarrow> n < 1000000 \<Longrightarrow> length (ld6 n) = 6"
  using digits_length [of "nat n" 5] by (simp add: ld6_def nat_less_iff)

lemma ld_no_cr: "13 \<notin> set (ld n)" "13 \<notin> set (ld6 n)"
  using digits_range [of 13] by (auto simp: ld_def ld6_def)

lemma tv_field_facts:
  "tv_norm t \<Longrightarrow> is_long (tv_sec t) \<Longrightarrow> length (tv_field t) \<le> 28" "13 \<notin> set (tv_field t)"
  using ld_length [of "tv_sec t"] ld6_length [of "tv_usec t"] ld_no_cr
  by (auto simp: tv_field_def chars_def tv_norm_def)

lemma field_length: "is_long n \<Longrightarrow> length (field name n) \<le> length name + 21"
  using ld_length [of n] by (simp add: field_def chars_def)

lemma field_no_cr: "(13 :: byte) \<notin> of_char ` set name \<Longrightarrow> 13 \<notin> set (field name n)"
  using ld_no_cr by (auto simp: field_def chars_def)

definition bench_in_range :: "bench \<Rightarrow> bool" where
  "bench_in_range b \<longleftrightarrow>
     list_all (\<lambda>t. tv_norm t \<and> is_long (tv_sec t)) [b_tv b, ru_utime (b_ru b), ru_stime (b_ru b)] \<and>
     list_all is_long
       [ru_maxrss (b_ru b), ru_ixrss (b_ru b), ru_idrss (b_ru b), ru_isrss (b_ru b), ru_minflt (b_ru b),
        ru_majflt (b_ru b), ru_nswap (b_ru b), ru_inblock (b_ru b), ru_oublock (b_ru b), ru_msgsnd (b_ru b),
        ru_msgrcv (b_ru b), ru_nsignals (b_ru b), ru_nvcsw (b_ru b), ru_nivcsw (b_ru b)]"

lemma dump_text_length:
  assumes "bench_in_range b"
  shows "length (dump_text b) \<le> 476"
proof -
  have tv: "length (tv_field (b_tv b)) \<le> 28" "length (tv_field (ru_utime (b_ru b))) \<le> 28"
    "length (tv_field (ru_stime (b_ru b))) \<le> 28"
    using assms by (auto simp: bench_in_range_def intro: tv_field_facts(1))
  have f: "length (field ''maxrss'' (ru_maxrss (b_ru b))) \<le> 27" "length (field ''ixrss'' (ru_ixrss (b_ru b))) \<le> 26"
    "length (field ''idrss'' (ru_idrss (b_ru b))) \<le> 26" "length (field ''isrss'' (ru_isrss (b_ru b))) \<le> 26"
    "length (field ''minflt'' (ru_minflt (b_ru b))) \<le> 27" "length (field ''majflt'' (ru_majflt (b_ru b))) \<le> 27"
    "length (field ''nswap'' (ru_nswap (b_ru b))) \<le> 26" "length (field ''inblock'' (ru_inblock (b_ru b))) \<le> 28"
    "length (field ''oublock'' (ru_oublock (b_ru b))) \<le> 28" "length (field ''msgsnd'' (ru_msgsnd (b_ru b))) \<le> 27"
    "length (field ''msgrcv'' (ru_msgrcv (b_ru b))) \<le> 27" "length (field ''nsignals'' (ru_nsignals (b_ru b))) \<le> 29"
    "length (field ''nvcsw'' (ru_nvcsw (b_ru b))) \<le> 26" "length (field ''nivcsw'' (ru_nivcsw (b_ru b))) \<le> 27"
    using assms by (auto simp: bench_in_range_def intro!: order_trans [OF field_length])
  show ?thesis using tv f by (simp add: dump_text_def chars_def CRLF_def)
qed

lemma dump_text_line: "\<exists>u. dump_text b = u @ CRLF \<and> 13 \<notin> set u"
proof -
  have sep: "13 \<notin> set (chars '' '')" by (simp add: chars_def)
  show ?thesis
    unfolding dump_text_def append_assoc [symmetric]
    by (rule exI, rule conjI, rule refl)
      (simp add: tv_field_facts(2) field_no_cr sep)
qed


definition ex_bench :: "int \<Rightarrow> bench" where
  "ex_bench n =
     \<lparr>b_ru = \<lparr>ru_utime = Timeval n 5, ru_stime = Timeval n 999999, ru_maxrss = n, ru_ixrss = 0, ru_idrss = 0,
        ru_isrss = 0, ru_minflt = n, ru_majflt = 0, ru_nswap = 0, ru_inblock = n, ru_oublock = 0, ru_msgsnd = 0,
        ru_msgrcv = 0, ru_nsignals = 0, ru_nvcsw = n, ru_nivcsw = 0\<rparr>, b_tv = Timeval n (n * 7)\<rparr>"


end
