(* ===== verification/Echo_Client.thy ===== *)
theory Echo_Client
  imports Echo_Server
begin

section \<open>The echo client\<close>

text \<open>
  \<open>demo/echo_client.cc\<close>: \<open>junkify_buffer\<close>, which makes the message, and \<open>client\<close>, the coroutine of one connection,
  with the global counters.  The globals \<open>message\<close>, \<open>packet_size\<close> and \<open>ntrans\<close>, which do not change after the start, are
  parameters.
\<close>

subsection \<open>The message\<close>

definition JUNK :: "byte list" where
  "JUNK = map of_char ''abcdefghijklmnopqrstuvwxyz0123456789''"

text \<open>The two loops; a write past the buffer is undefined.  The bound of the first is a \<open>size_t\<close> and wraps.\<close>

function junk_loop :: "nat \<Rightarrow> nat \<Rightarrow> byte list \<Rightarrow> byte list outcome" where
  "junk_loop i bound buffer =
     (if i < bound then
        if i < length buffer then junk_loop (i + 1) bound (buffer[i := JUNK ! (i mod length JUNK)])
        else Raise (Undef Out_Of_Bounds)
      else Val buffer)"
  by pat_completeness auto
termination by (relation "measure (\<lambda>(i, bound, buffer). bound - i)") auto

declare junk_loop.simps [simp del]

function end_loop :: "nat \<Rightarrow> nat \<Rightarrow> byte list \<Rightarrow> byte list outcome" where
  "end_loop i len buffer =
     (if i < 2 then
        let j = unat (of_nat len - 2 + of_nat i :: 64 word) in
        if j < length buffer then end_loop (i + 1) len (buffer[j := CRLF ! i]) else Raise (Undef Out_Of_Bounds)
      else Val buffer)"
  by pat_completeness auto
termination by (relation "measure (\<lambda>(i, len, buffer). 2 - i)") auto

declare end_loop.simps [simp del]

definition junkify_buffer :: "byte list \<Rightarrow> nat \<Rightarrow> byte list outcome" where
  "junkify_buffer buffer len =
     (case junk_loop 0 (unat (of_nat len - 2 :: 64 word)) buffer of Val b \<Rightarrow> end_loop 0 len b | x \<Rightarrow> x)"

subsection \<open>A client\<close>

record client_state =
  cl_io :: io
  cl_counter :: int
  cl_total :: nat
  cl_bench :: "byte list"
  cl_exit :: bool
  cl_last :: bool

definition on_cl :: "(io, 'a) op \<Rightarrow> (client_state, 'a) op" where
  "on_cl m s = (case m (cl_io s) of (r, e) \<Rightarrow> (r, s\<lparr>cl_io := e\<rparr>))"

function read_back :: "int \<Rightarrow> nat \<Rightarrow> (io, unit) op" where
  "read_back fd cnt e =
     (if cnt \<noteq> 0 then
        bindS (cf_read fd cnt) (\<lambda>bs e1.
          if bs = [] then (Raise (Thrown ''client closed unexpectedly''), e1)
          else read_back fd (cnt - length bs) e1) e
      else (Val (), e))"
  by pat_completeness auto
termination by (relation "measure (\<lambda>(fd, cnt, e). cnt)") (auto simp: length_greater_0_conv [symmetric] simp del: length_greater_0_conv)

declare read_back.simps [simp del]

primrec transactions :: "int \<Rightarrow> byte list \<Rightarrow> nat \<Rightarrow> nat \<Rightarrow> (client_state, unit) op" where
  "transactions fd message packet_size 0 = ret ()"
| "transactions fd message packet_size (Suc k) =
     bindS (on_cl (cf_write fd message)) (\<lambda>_.
       bindS (on_cl (read_back fd packet_size)) (\<lambda>_.
         bindS (\<lambda>s. (Val (), s\<lparr>cl_total := cl_total s + packet_size\<rparr>)) (\<lambda>_.
           transactions fd message packet_size k)))"

text \<open>
  The end of a client, which tells the server what to do.  \<open>cl_last\<close> is the local variable \<open>last\<close> of \<open>client\<close>, which is
  read after the handler too.
\<close>

definition goodbye :: "int \<Rightarrow> nat \<Rightarrow> bool \<Rightarrow> (client_state, unit) op" where
  "goodbye fd packet_size is_last =
     bindS
       (if is_last then
          bindS (on_cl (cf_write fd (map of_char ''!bench'' @ CRLF))) (\<lambda>_.
            bindS (on_cl (cf_read fd 1024)) (\<lambda>bs s. (Val (), s\<lparr>cl_bench := bs @ drop (length bs) (cl_bench s)\<rparr>)))
        else ret ())
       (\<lambda>_. bindS (on_cl (cf_write fd (if is_last then map of_char ''!shutdown'' @ CRLF else map of_char ''!quit'' @ CRLF))) (\<lambda>_.
         bindS (on_cl (cf_read fd (max packet_size 4096))) (\<lambda>_.
           bindS (on_cl (cf_close fd)) (\<lambda>_. ret ()))))"

definition farewell :: "int \<Rightarrow> nat \<Rightarrow> (client_state, unit) op" where
  "farewell fd packet_size =
     bindS (\<lambda>s. (Val (), s\<lparr>cl_counter := cl_counter s - 1\<rparr>)) (\<lambda>_.
       bindS (\<lambda>s. (Val (cl_counter s = 0), s\<lparr>cl_last := cl_counter s = 0\<rparr>)) (goodbye fd packet_size))"

definition leave :: "(client_state, unit) op" where
  "leave s = (Val (), if cl_last s then s\<lparr>cl_exit := True\<rparr> else s)"

definition client_body :: "byte list \<Rightarrow> nat \<Rightarrow> nat \<Rightarrow> byte list \<Rightarrow> int \<Rightarrow> (client_state, unit) op" where
  "client_body message packet_size ntrans addr fd =
     bindS (on_cl (cs_connect fd addr)) (\<lambda>_.
       bindS (transactions fd message packet_size ntrans) (\<lambda>_. farewell fd packet_size))"

text \<open>The handler and the end of the function, for a body that has ended in \<open>r\<close>.\<close>

definition client_end :: "int \<Rightarrow> unit outcome \<Rightarrow> (client_state, unit) op" where
  "client_end fd r =
     (case r of
        Val _ \<Rightarrow> bindS (on_cl (cf_destroy (- 1))) (\<lambda>_. leave)
      | Raise ex \<Rightarrow> (case ex of Thrown m \<Rightarrow> bindS (on_cl (cf_destroy fd)) (\<lambda>_. leave) | _ \<Rightarrow> raise ex)
      | Stuck \<Rightarrow> (\<lambda>s. (Stuck, s)))"

definition client :: "byte list \<Rightarrow> nat \<Rightarrow> nat \<Rightarrow> byte list \<Rightarrow> (client_state, unit) op" where
  "client message packet_size ntrans addr s0 =
     bindS (on_cl (new_socket (- 1) PF_INET SOCK_STREAM 0)) (\<lambda>fd s.
       case client_body message packet_size ntrans addr fd s of (r, s1) \<Rightarrow> client_end fd r s1) (s0\<lparr>cl_last := False\<rparr>)"

subsection \<open>What the message looks like\<close>

definition junk_text :: "nat \<Rightarrow> byte list" where
  "junk_text k = map (\<lambda>i. JUNK ! (i mod length JUNK)) [0..<k]"

lemma junk_loop_fills:
  "i \<le> k \<Longrightarrow> k \<le> length buffer \<Longrightarrow> take i buffer = junk_text i \<Longrightarrow>
   junk_loop i k buffer = Val (junk_text k @ drop k buffer)"
proof (induction "k - i" arbitrary: i buffer)
  case 0
  then have "i = k" by simp
  then show ?case using 0 by (subst junk_loop.simps) (metis append_take_drop_id less_irrefl)
next
  case (Suc m)
  let ?b = "buffer[i := JUNK ! (i mod length JUNK)]"
  have "take (i + 1) ?b = junk_text (i + 1)"
    using Suc by (simp add: take_Suc_conv_app_nth junk_text_def)
  then have "junk_loop (i + 1) k ?b = Val (junk_text k @ drop k ?b)"
    using Suc.hyps(2) Suc.prems by (intro Suc.hyps(1)) simp_all
  moreover have "i < k" using Suc.hyps(2) by simp
  ultimately show ?case using Suc.prems by (subst junk_loop.simps) simp
qed

lemma junk_loop_overflows:
  "length buffer < bound \<Longrightarrow> junk_loop i bound buffer = Raise (Undef Out_Of_Bounds) \<or> bound \<le> i"
proof (induction i bound buffer rule: junk_loop.induct)
  case (1 i bound buffer)
  then show ?case by (cases "i < bound"; cases "i < length buffer") (auto simp: junk_loop.simps [of i])
qed

lemma junk_chars: "x \<in> set (junk_text k) \<Longrightarrow> x \<noteq> 13 \<and> x \<noteq> 33"
proof -
  assume "x \<in> set (junk_text k)"
  then obtain i where i: "x = JUNK ! (i mod length JUNK)" by (auto simp: junk_text_def)
  have "0 < length JUNK" by (simp add: JUNK_def)
  then have "JUNK ! (i mod length JUNK) \<in> set JUNK" by (intro nth_mem) simp
  then have "x \<in> set JUNK" by (simp add: i)
  then show ?thesis by (auto simp: JUNK_def)
qed

lemma size_t_minus: "2 \<le> n \<Longrightarrow> n < 2 ^ 31 \<Longrightarrow> k < 2 \<Longrightarrow> unat (of_nat n - 2 + of_nat k :: 64 word) = n - 2 + k"
proof -
  assume n: "2 \<le> n" "n < 2 ^ 31" "k < 2"
  then have w: "(of_nat n - 2 + of_nat k :: 64 word) = of_nat (n - 2 + k)" by (simp add: of_nat_diff)
  have "unat (of_nat (n - 2 + k) :: 64 word) = (n - 2 + k) mod 2 ^ 64" by (simp only: unat_of_nat) simp
  also have "\<dots> = n - 2 + k" using n by simp
  finally show ?thesis unfolding w .
qed

lemma junkify_fills:
  assumes "2 \<le> n" "n < 2 ^ 31"
  shows "junkify_buffer (replicate n 0) n = Val (junk_text (n - 2) @ CRLF)"
proof -
  let ?b = "junk_text (n - 2) @ replicate 2 0"
  have len: "length (junk_text k) = k" for k by (simp add: junk_text_def)
  have first: "junk_loop 0 (n - 2) (replicate n 0) = Val ?b"
    using junk_loop_fills [of 0 "n - 2" "replicate n 0"] assms by (simp add: junk_text_def)
  have u: "unat (of_nat n - 2 :: 64 word) = n - 2" "unat (of_nat n - 2 + of_nat 0 :: 64 word) = n - 2"
    "unat (of_nat n - 2 + of_nat 1 :: 64 word) = n - 1"
    using size_t_minus [OF assms, of 0] size_t_minus [OF assms, of 1] assms(1) by simp_all
  have b1: "?b[n - 2 := CRLF ! 0] = junk_text (n - 2) @ [13, 0]" and b2: "(junk_text (n - 2) @ [13, 0])[n - 1 := CRLF ! 1] = junk_text (n - 2) @ CRLF"
  proof -
    obtain k where k: "n = Suc (Suc k)" using assms(1) by (metis add_2_eq_Suc le_Suc_ex)
    show "?b[n - 2 := CRLF ! 0] = junk_text (n - 2) @ [13, 0]"
      by (simp add: k list_update_append len CRLF_def numeral_2_eq_2)
    show "(junk_text (n - 2) @ [13, 0])[n - 1 := CRLF ! 1] = junk_text (n - 2) @ CRLF"
      by (simp add: k list_update_append len CRLF_def)
  qed
  have n1: "n - 1 < length (junk_text (n - 2) @ [13, 0 :: byte])" "n - 2 < length ?b" using assms(1) by (simp_all add: len)
  have "end_loop 0 n ?b = end_loop 1 n (junk_text (n - 2) @ [13, 0])"
    using n1(2) b1 u(2) by (subst end_loop.simps) (simp add: Let_def)
  also have "\<dots> = end_loop 2 n (junk_text (n - 2) @ CRLF)"
    using n1(1) b2 u(3) by (subst end_loop.simps) (simp add: Let_def numeral_2_eq_2)
  also have "\<dots> = Val (junk_text (n - 2) @ CRLF)" by (subst end_loop.simps) simp
  finally show ?thesis using first u(1) by (simp add: junkify_buffer_def)
qed

lemma junkify_overflows:
  assumes "n < 2"
  shows "junkify_buffer (replicate n 0) n = Raise (Undef Out_Of_Bounds)"
proof -
  have "n = 0 \<or> n = 1" using assms by auto
  moreover have "1 < unat (- 1 :: 64 word)" "0 < unat (- 2 :: 64 word)"
  proof -
    have "(1 :: 64 word) < - 1" "(0 :: 64 word) < - 2" by code_simp+
    then have "unat (1 :: 64 word) < unat (- 1 :: 64 word)" "unat (0 :: 64 word) < unat (- 2 :: 64 word)"
      by (blast intro: unat_mono)+
    then show "1 < unat (- 1 :: 64 word)" "0 < unat (- 2 :: 64 word)" by simp_all
  qed
  ultimately have "junk_loop 0 (unat (of_nat n - 2 :: 64 word)) (replicate n 0) = Raise (Undef Out_Of_Bounds)"
    using junk_loop_overflows [of "replicate n 0" "unat (of_nat n - 2 :: 64 word)" 0] by (elim disjE) simp_all
  then show ?thesis by (simp add: junkify_buffer_def)
qed

text \<open>A result is a single line that is no command.\<close>

lemma junkify_line:
  assumes "2 \<le> n"
  defines "m \<equiv> junk_text (n - 2) @ CRLF"
  shows "length m = n" "scan CRLF 0 0 m = Inl (length m - 1)" "char_at m 0 \<noteq> 33"
proof -
  have len: "length (junk_text (n - 2)) = n - 2" by (simp add: junk_text_def)
  then show l: "length m = n" using assms(1) by (simp add: m_def CRLF_def)
  have "scan CRLF 0 0 (junk_text (n - 2) @ CRLF @ []) = Inl (length (junk_text (n - 2)) + length CRLF - 1)"
    using junk_chars [of 13 "n - 2"] by (intro scan_line) (auto simp: CRLF_def)
  then show "scan CRLF 0 0 m = Inl (length m - 1)" by (simp add: m_def)
  have "m ! 0 \<noteq> 33"
  proof (cases "n = 2")
    case True
    then show ?thesis by (simp add: m_def junk_text_def CRLF_def)
  next
    case False
    then have "0 < length (junk_text (n - 2))" using assms(1) len by simp
    then show ?thesis using junk_chars [of "m ! 0" "n - 2"] by (simp add: m_def nth_append)
  qed
  then show "char_at m 0 \<noteq> 33" by (simp add: char_at_def)
qed

text \<open>
  the message of the benchmark.  For a packet size from 2 on, \<open>junkify_buffer\<close> stays in its buffer and makes one
  line of exactly that size, which ends with the first line end in it and which the echo
  server sends back unchanged, since it is no command.  For the sizes 0 and 1 the loop bound wraps around to
  about \<open>2 ^ 64\<close> and the function writes past the buffer.
\<close>

theorem junkify_makes_one_line:
  assumes "n < 2 ^ 31"
  shows "if n < 2 then junkify_buffer (replicate n 0) n = Raise (Undef Out_Of_Bounds)
    else \<exists>message. junkify_buffer (replicate n 0) n = Val message \<and> length message = n
      \<and> scan CRLF 0 0 message = Inl (n - 1) \<and> (\<forall>out. echo_reply message out \<longleftrightarrow> out = message)"
proof (cases "n < 2")
  case True
  then show ?thesis by (simp add: junkify_overflows)
next
  case False
  then show ?thesis using junkify_fills [OF _ assms] junkify_line [of n] by (simp add: echo_reply_def)
qed

theorem junkify_makes_one_line_witness:
  "junkify_buffer (replicate 5 0) 5 = Val ([97, 98, 99] @ CRLF) \<and> junkify_buffer [0] 1 = Raise (Undef Out_Of_Bounds)
   \<and> (\<exists>message. junkify_buffer (replicate 5 0) 5 = Val message \<and> (\<forall>out. echo_reply message out \<longleftrightarrow> out = message))"
proof -
  have "junkify_buffer (replicate 5 0) 5 = Val ([97, 98, 99] @ CRLF)" by code_simp
  then show ?thesis using junkify_makes_one_line [of 5] junkify_makes_one_line [of 1] by simp
qed

subsection \<open>What a client does\<close>

text \<open>What the calls on the file leave alone: everything but the system, where the bytes sent only grow.\<close>

definition same_counts :: "client_state \<Rightarrow> client_state \<Rightarrow> bool" where
  "same_counts s s' \<longleftrightarrow> cl_counter s' = cl_counter s \<and> cl_exit s' = cl_exit s \<and> cl_last s' = cl_last s"

definition sent_more :: "int \<Rightarrow> client_state \<Rightarrow> client_state \<Rightarrow> bool" where
  "sent_more fd s s' \<longleftrightarrow> (\<exists>rest. sent fd (cl_io s') = sent fd (cl_io s) @ rest)"

lemma sent_more_trans: "sent_more fd s t \<Longrightarrow> sent_more fd t u \<Longrightarrow> sent_more fd s u"
  by (auto simp: sent_more_def)

lemma sent_more_eq: "sent fd (cl_io s') = sent fd (cl_io s) \<Longrightarrow> sent_more fd s s'"
  by (simp add: sent_more_def)

definition talks :: "int \<Rightarrow> (client_state, 'a) op \<Rightarrow> bool" where
  "talks fd m \<longleftrightarrow> (\<forall>s r s'. m s = (r, s') \<longrightarrow> same_counts s s' \<and> cl_total s' = cl_total s \<and> sent_more fd s s')"

lemma talks_bindS: "talks fd m \<Longrightarrow> (\<And>a. talks fd (f a)) \<Longrightarrow> talks fd (bindS m f)"
  unfolding talks_def bindS_def same_counts_def
  by (fastforce split: prod.splits outcome.splits intro: sent_more_trans)

lemma talks_ret [simp]: "talks fd (ret a)"
  by (simp add: talks_def same_counts_def sent_more_def)

lemma talks_steady: "steady (sent fd) m \<Longrightarrow> talks fd (on_cl m)"
  by (auto simp: talks_def on_cl_def same_counts_def sent_more_def steady_def split: prod.splits)

lemma talks_write [simp]: "talks fd (on_cl (cf_write fd p))"
  unfolding talks_def
proof (intro allI impI)
  fix s r s' assume "on_cl (cf_write fd p) s = (r, s')"
  moreover obtain x e' where w: "cf_write fd p (cl_io s) = (x, e')" by (rule prod.exhaust)
  ultimately have "s' = s\<lparr>cl_io := e'\<rparr>" by (simp add: on_cl_def)
  moreover have "\<exists>k. sent fd e' = sent fd (cl_io s) @ take k p" using cf_write_sent [of p fd "cl_io s"] w by auto
  ultimately show "same_counts s s' \<and> cl_total s' = cl_total s \<and> sent_more fd s s'"
    by (auto simp: same_counts_def sent_more_def)
qed

lemma steady_close: "c \<noteq> C_Close fd \<Longrightarrow> ignores f (C_Close fd) \<Longrightarrow> steady f (cf_close fd)"
  unfolding cf_close_def by (rule steady_bindS) (simp_all add: steady_sys_num)

lemma talks_io [simp]: "talks fd (on_cl (cf_read fd n))" "talks fd (on_cl (cf_close fd'))"
  by (rule talks_steady; simp add: steady_cf_read steady_close [of "C_Get_Flags 0"])+

lemma talks_bench [simp]: "talks fd (\<lambda>s. (Val (), s\<lparr>cl_bench := f s\<rparr>))"
  by (simp add: talks_def same_counts_def sent_more_def)

lemma farewell_counts:
  assumes "farewell fd packet_size s = (r, s')"
  shows "cl_counter s' = cl_counter s - 1" "cl_last s' = (cl_counter s = 1)" "cl_exit s' = cl_exit s"
    "cl_total s' = cl_total s" "sent_more fd s s'"
proof -
  let ?s = "s\<lparr>cl_counter := cl_counter s - 1, cl_last := cl_counter s = 1\<rparr>"
  have g: "goodbye fd packet_size (cl_counter s = 1) ?s = (r, s')"
    using assms by (simp add: farewell_def bindS_def [where m = "\<lambda>s. (Val (_ s), _ s)"])
  have "talks fd (goodbye fd packet_size (cl_counter s = 1))"
    unfolding goodbye_def by (simp add: talks_bindS)
  then have t: "same_counts ?s s' \<and> cl_total s' = cl_total ?s \<and> sent_more fd ?s s'"
    using g unfolding talks_def by blast
  then show "cl_counter s' = cl_counter s - 1" "cl_last s' = (cl_counter s = 1)" "cl_exit s' = cl_exit s"
    "cl_total s' = cl_total s" "sent_more fd s s'"
    by (simp_all add: same_counts_def sent_more_def)
qed

lemma read_back_reads:
  "read_back fd k e = (Val (), e') \<Longrightarrow>
   \<exists>new. received fd e' = received fd e @ new \<and> length new = k \<and> sent fd e' = sent fd e"
proof (induction fd k e arbitrary: e' rule: read_back.induct)
  case (1 fd k e)
  show ?case
  proof (cases "k = 0")
    case True
    then show ?thesis using "1.prems" by (simp add: read_back.simps [of fd 0 e])
  next
    case False
    then obtain bs e1 where rd: "cf_read fd k e = (Val bs, e1)" "bs \<noteq> []" and rest: "read_back fd (k - length bs) e1 = (Val (), e')"
      using "1.prems" by (auto simp: read_back.simps [of fd k e] bindS_iffs split: if_splits)
    have "sent fd e1 = sent fd e" using steadyD [OF steady_cf_read rd(1), of "sent fd"] by simp
    moreover have "received fd e1 = received fd e @ bs" "length bs \<le> k" using cf_read_data [OF rd(1)] by auto
    moreover obtain new where "received fd e' = received fd e1 @ new" "length new = k - length bs" "sent fd e' = sent fd e1"
      using "1.IH" [OF False rd rest] by blast
    ultimately show ?thesis by (intro exI [of _ "bs @ new"]) auto
  qed
qed

lemma transactions_counts: "transactions fd message packet_size k s = (r, s') \<Longrightarrow> same_counts s s'"
proof (induction k arbitrary: s)
  case 0
  then show ?case by (simp add: same_counts_def)
next
  case (Suc k)
  obtain x e1 where x: "cf_write fd message (cl_io s) = (x, e1)" by (rule prod.exhaust)
  obtain y e2 where y: "read_back fd packet_size e1 = (y, e2)" by (rule prod.exhaust)
  let ?s = "s\<lparr>cl_io := e2, cl_total := cl_total s + packet_size\<rparr>"
  show ?case
  proof (cases "x = Val () \<and> y = Val ()")
    case True
    then have "transactions fd message packet_size k ?s = (r, s')"
      using Suc.prems x y by (simp add: on_cl_def bindS_def)
    from Suc.IH [OF this] show ?thesis by (simp add: same_counts_def)
  next
    case False
    then show ?thesis using Suc.prems x y
      by (cases x; cases y) (auto simp: on_cl_def bindS_def same_counts_def)
  qed
qed

lemma transactions_done:
  "transactions fd message packet_size k s = (Val (), s') \<Longrightarrow>
   cl_total s' = cl_total s + k * packet_size
   \<and> sent fd (cl_io s') = sent fd (cl_io s) @ concat (replicate k message)
   \<and> (\<exists>new. received fd (cl_io s') = received fd (cl_io s) @ new \<and> length new = k * packet_size)"
proof (induction k arbitrary: s)
  case 0
  then show ?case by simp
next
  case (Suc k)
  obtain e1 e2 where x: "cf_write fd message (cl_io s) = (Val (), e1)" and y: "read_back fd packet_size e1 = (Val (), e2)"
    and rest: "transactions fd message packet_size k (s\<lparr>cl_io := e2, cl_total := cl_total s + packet_size\<rparr>) = (Val (), s')"
    using Suc.prems by (auto simp: on_cl_def bindS_iffs split: prod.splits)
  obtain new where "received fd e2 = received fd e1 @ new" "length new = packet_size" "sent fd e2 = sent fd e1"
    using read_back_reads [OF y] by blast
  moreover have "sent fd e1 = sent fd (cl_io s) @ message" "received fd e1 = received fd (cl_io s)"
    using cf_write_returns [OF x] by simp_all
  moreover obtain new2 where "received fd (cl_io s') = received fd e2 @ new2" "length new2 = k * packet_size"
    "sent fd (cl_io s') = sent fd e2 @ concat (replicate k message)" "cl_total s' = cl_total s + packet_size + k * packet_size"
    using Suc.IH [OF rest] by auto
  ultimately show ?case by (auto intro!: exI [of _ "new @ new2"])
qed

lemma steady_sent_on_throw: "steady f m \<Longrightarrow> steady f d \<Longrightarrow> steady f (on_throw m d)"
  unfolding steady_def on_throw_def bindS_def by (force split: prod.splits outcome.splits)

lemma sent_new_socket: "steady (sent fd) (new_socket k family type protocol)"
proof -
  have d: "steady (sent fd) (cf_destroy j)" for j
    unfolding cf_destroy_def using steady_close [of "C_Get_Flags 0" j "sent fd"] by simp
  have b: "steady (sent fd) (set_blocking j False)" for j
    unfolding set_blocking_def Let_def by (intro steady_bindS) (simp_all add: steady_sys_num)
  show ?thesis
    unfolding new_socket_def using d b
    by (auto intro!: steady_bindS steady_sent_on_throw steady_sys_num)
qed

lemma sent_connect: "steady (sent fd) (cs_connect fd' addr)"
  unfolding cs_connect_def
  by (intro steady_bindS steady_sys_num) (auto intro!: steady_bindS simp: steady_waits)

lemma leaves:
  assumes "bindS (on_cl (cf_destroy k)) (\<lambda>_. leave) u = (Val (), s')"
  shows "\<exists>e. s' = (if cl_last u then u\<lparr>cl_io := e, cl_exit := True\<rparr> else u\<lparr>cl_io := e\<rparr>) \<and>
      sent fd e = sent fd (cl_io u)"
proof -
  have "steady (sent fd) (cf_destroy k)"
    unfolding cf_destroy_def using steady_close [of "C_Get_Flags 0" k "sent fd"] by simp
  moreover obtain w e where w: "cf_destroy k (cl_io u) = (Val w, e)"
    using assms by (auto simp: bindS_iffs on_cl_def split: prod.splits)
  ultimately have "sent fd e = sent fd (cl_io u)" by (rule steadyD)
  then show ?thesis using assms w by (intro exI [of _ e]) (auto simp: bindS_def on_cl_def leave_def)
qed

text \<open>How the body ends: in its last step, or before with the counters as they were.\<close>

lemma client_body_ends:
  assumes "client_body message packet_size ntrans addr fd s = (r, u)"
  shows "\<exists>e2. sent fd e2 = sent fd (cl_io s) \<and>
    ((\<forall>v. r \<noteq> Val v) \<and> same_counts s u
     \<or> (\<exists>s3. transactions fd message packet_size ntrans (s\<lparr>cl_io := e2\<rparr>) = (Val (), s3) \<and> farewell fd packet_size s3 = (r, u)))"
proof -
  obtain x e2 where c: "cs_connect fd addr (cl_io s) = (x, e2)" by (rule prod.exhaust)
  obtain y s3 where t: "transactions fd message packet_size ntrans (s\<lparr>cl_io := e2\<rparr>) = (y, s3)" by (rule prod.exhaust)
  have "same_counts s s3" using transactions_counts [OF t] by (simp add: same_counts_def)
  then have "(\<forall>v. r \<noteq> Val v) \<and> same_counts s u
     \<or> (\<exists>s3. transactions fd message packet_size ntrans (s\<lparr>cl_io := e2\<rparr>) = (Val (), s3) \<and> farewell fd packet_size s3 = (r, u))"
    using assms c t by (cases x; cases y) (auto simp: client_body_def bindS_def on_cl_def same_counts_def)
  then show ?thesis using steadyD [OF sent_connect c, of fd] by blast
qed

lemma client_ends:
  assumes "client message packet_size ntrans addr s = (Val (), s')"
  obtains fd e1 r u k where "sent fd e1 = sent fd (cl_io s)"
    "client_body message packet_size ntrans addr fd (s\<lparr>cl_last := False, cl_io := e1\<rparr>) = (r, u)"
    "bindS (on_cl (cf_destroy k)) (\<lambda>_. leave) u = (Val (), s')"
proof -
  let ?body = "client_body message packet_size ntrans addr"
  obtain fd w where w: "on_cl (new_socket (- 1) PF_INET SOCK_STREAM 0) (s\<lparr>cl_last := False\<rparr>) = (Val fd, w)"
    and cl: "(case ?body fd w of (r, u) \<Rightarrow> client_end fd r u) = (Val (), s')"
    using assms unfolding client_def bindS_Val_iff by blast
  obtain e1 where n: "new_socket (- 1) PF_INET SOCK_STREAM 0 (cl_io s) = (Val fd, e1)"
    and s1: "w = s\<lparr>cl_last := False, cl_io := e1\<rparr>"
    using w by (auto simp: on_cl_def split: prod.splits)
  obtain r u where body: "?body fd w = (r, u)" by (rule prod.exhaust)
  then have "client_end fd r u = (Val (), s')" using cl by simp
  then obtain k where "bindS (on_cl (cf_destroy k)) (\<lambda>_. leave) u = (Val (), s')"
    by (auto simp: client_end_def split: outcome.splits exn.splits)
  then show ?thesis using that steadyD [OF sent_new_socket n, of fd] body s1 by simp
qed


definition ex_client :: "answer list \<Rightarrow> client_state" where
  "ex_client as = \<lparr>cl_io = ex_io as, cl_counter = 1, cl_total = 0, cl_bench = [], cl_exit = False, cl_last = False\<rparr>"

text \<open>The only client of a run: one whose server answers, and one whose server closes the connection.\<close>

lemma cf_write_steps:
  assumes "io_answers e = Num k # as" "p \<noteq> []" "int (length p) \<le> k" "int (length p) \<le> max_rw"
  shows "\<exists>e'. cf_write fd p e = (Val (), e') \<and> io_answers e' = as"
  using cf_write_Num [OF assms] by simp

lemma cf_read_steps:
  assumes "io_answers e = Data bs # as" "length bs \<le> len" "int (length bs) \<le> max_rw"
  shows "\<exists>e'. cf_read fd len e = (Val bs, e') \<and> io_answers e' = as"
  using cf_read_Data [OF assms] by simp


end
