(* ===== verification/Echo_Pair.thy ===== *)
theory Echo_Pair
  imports Echo_Client "HOL-Library.Sublist"
begin

section \<open>The echo client against the echo server\<close>

text \<open>
  The two programs joined by a connection.  A connection is a reliable stream of bytes in each direction, as TCP
  promises: what one side has received is a prefix of what the other has sent.  Nothing is assumed of
  the pieces in which the bytes arrive or of the order in which the two sides run, so a session is looked at
  in any state, not only at its end.
\<close>

subsection \<open>What a session has sent so far\<close>

text \<open>One of the two is a prefix of the other.\<close>

definition agrees :: "'a list \<Rightarrow> 'a list \<Rightarrow> bool" where
  "agrees xs ys \<longleftrightarrow> prefix xs ys \<or> prefix ys xs"

lemma agrees_simps [simp]: "agrees [] ys" "agrees xs []" "agrees (zs @ xs) (zs @ ys) \<longleftrightarrow> agrees xs ys"
  by (simp_all add: agrees_def)

lemma agrees_take: "agrees (take k xs) (xs @ ys)"
  by (simp add: agrees_def take_is_prefix prefix_append)

context byte_source
begin

lemma get_loop_grows: "get_loop n rd d m sl (b, e) = (r, (b', e')) \<Longrightarrow> \<exists>new. got e' = got e @ new"
proof (induction n arbitrary: m sl b e)
  case 0
  then show ?case by simp
next
  case (Suc n)
  define x where "x = (if length b = 0 then read_string rd 8192 e else (Val b, e))"
  obtain y e1 where y: "x = (y, e1)" by (rule prod.exhaust)
  have grows: "\<exists>new. got e1 = got e @ new"
  proof (cases "length b = 0")
    case True
    then have "rd 8192 e = (y, e1)"
      using y by (cases "rd 8192 e"; cases "fst (rd 8192 e)") (auto simp: x_def read_string_def bindS_def)
    then show ?thesis using rd_val rd_not_val by (cases y) auto
  next
    case False
    then show ?thesis using y by (simp add: x_def)
  qed
  have step: "(case x of
        (Val b, e1) \<Rightarrow>
          if length b = 0 then (Val (True, sl), (b, e1))
          else (case scan d m 0 b of
                  Inl i \<Rightarrow> (Val (False, sl @ [take (i + 1) b]), (drop (i + 1) b, e1))
                | Inr m' \<Rightarrow> get_loop n rd d m' (sl @ [b]) ([], e1))
      | (Raise ex, e1) \<Rightarrow> (Raise ex, (b, e1))
      | (Stuck, e1) \<Rightarrow> (Stuck, (b, e1))) = (r, (b', e'))"
    using Suc.prems by (simp only: get_loop.simps x_def)
  show ?case
  proof (cases y)
    case (Val b1)
    show ?thesis
    proof (cases "length b1 \<noteq> 0 \<and> (\<exists>m'. scan d m 0 b1 = Inr m')")
      case True
      then obtain m' where "get_loop n rd d m' (sl @ [b1]) ([], e1) = (r, (b', e'))" using step y Val by auto
      from Suc.IH [OF this] grows show ?thesis by auto
    next
      case False
      then show ?thesis using step y Val grows by (auto split: if_splits sum.splits)
    qed
  qed (use step y grows in auto)
qed

lemma get_string_grows:
  assumes "get_string n rd d (b, e) = (r, (b', e'))"
  shows "\<exists>new. got e' = got e @ new"
proof -
  obtain x s where "get_loop n rd d 0 [] (b, e) = (x, s)" by (rule prod.exhaust)
  then show ?thesis using assms get_loop_grows [of n d 0 "[]" b e x "fst s" "snd s"]
    by (cases x) (auto simp: get_string_def get_list_def bindS_def)
qed

end

lemma scan_prefix:
  assumes "prefix xs ys" "scan d m i xs = Inl j"
  shows "scan d m i ys = Inl j"
  using assms by (auto simp: prefix_def scan_append)

text \<open>A line that is cut out of a stream that begins with the message is the message.\<close>

lemma first_line_unique:
  assumes "scan CRLF 0 0 m = Inl (length m - 1)" "m \<noteq> []"
    and "line @ b1 = stream" "scan CRLF 0 0 stream = Inl (length line - 1)" "line \<noteq> []" "prefix stream (m @ rest)"
  shows "line = m \<and> prefix b1 rest"
proof -
  have "scan CRLF 0 0 (m @ rest) = Inl (length m - 1)" using assms(1) by (simp add: scan_append)
  moreover have "scan CRLF 0 0 (m @ rest) = Inl (length line - 1)" using scan_prefix assms(4,6) by blast
  ultimately have "length line - 1 = length m - 1" by simp
  moreover have "0 < length line" "0 < length m" using assms(2,5) by simp_all
  ultimately have "length line = length m" by linarith
  moreover obtain zs where "line @ b1 @ zs = m @ rest" using assms(3,6) by (auto simp: prefix_def)
  ultimately show ?thesis by (auto simp: prefix_def)
qed

lemma get_line_any:
  assumes "get_line g (cf_read fd) (b, e) = (r, (b', e'))"
  shows "(\<exists>new. received fd e' = received fd e @ new) \<and> sent fd e' = sent fd e"
  using cf.get_string_grows [OF assms [unfolded get_line_def]]
    get_line_steady [of "sent fd" "cf_read fd" g, OF _ assms] by (simp add: steady_cf_read)

text \<open>
  \<open>follows fd m (b, e) s'\<close>: between the two states of the system the session has received more bytes, and if
  the buffer and these bytes are the beginning of any number of messages \<open>m\<close> and anything after them, then what it
  has sent agrees with these messages.
\<close>

definition follows :: "int \<Rightarrow> byte list \<Rightarrow> io buf \<Rightarrow> io \<Rightarrow> bool" where
  "follows fd m s e' \<longleftrightarrow>
     (\<exists>new out. received fd e' = received fd (snd s) @ new \<and> sent fd e' = sent fd (snd s) @ out
       \<and> (\<forall>k rest. prefix (fst s @ new) (concat (replicate k m) @ rest) \<longrightarrow> agrees out (concat (replicate k m))))"

lemma follows_silent:
  assumes "received fd e' = received fd e @ new" "sent fd e' = sent fd e"
  shows "follows fd m (b, e) e'"
  using assms by (auto simp: follows_def intro!: exI [of _ "[]"])

text \<open>One line: what is sent for it, and what follows after it if all of it has been sent.\<close>

lemma follows_line:
  assumes m: "scan CRLF 0 0 m = Inl (length m - 1)" "m \<noteq> []"
    and line: "line @ b1 = b @ new1" "scan CRLF 0 0 (b @ new1) = Inl (length line - 1)" "line \<noteq> []"
    and e2: "received fd e2 = received fd e @ new1" "sent fd e2 = sent fd e @ out1"
    and out1: "line = m \<Longrightarrow> out1 = take q m"
    and rest: "e' = e2 \<or> (line = m \<longrightarrow> out1 = m) \<and> follows fd m (b1, e2) e'"
  shows "follows fd m (b, e) e'"
proof -
  have cut: "line = m \<and> prefix b1 Y" if "prefix (b @ new1) (m @ Y)" for Y
    using first_line_unique [OF m line(1,2,3) that] .
  have none: "agrees out1 (concat (replicate k m))" if "prefix (b @ new1) (concat (replicate k m) @ Y)" for k Y
  proof (cases k)
    case (Suc j)
    then have "line = m" using cut [of "concat (replicate j m) @ Y"] that by simp
    then show ?thesis using Suc out1 agrees_take [of q m "concat (replicate j m)"] by simp
  qed simp
  from rest show ?thesis
  proof
    assume "e' = e2"
    then show ?thesis unfolding follows_def using e2 none by auto
  next
    assume r: "(line = m \<longrightarrow> out1 = m) \<and> follows fd m (b1, e2) e'"
    then obtain new out where n: "received fd e' = received fd e2 @ new" "sent fd e' = sent fd e2 @ out"
      "\<And>k Y. prefix (b1 @ new) (concat (replicate k m) @ Y) \<Longrightarrow> agrees out (concat (replicate k m))"
      by (auto simp: follows_def)
    have "agrees (out1 @ out) (concat (replicate k m))" if p: "prefix (b @ new1 @ new) (concat (replicate k m) @ Y)" for k Y
    proof (cases k)
      case (Suc j)
      have "prefix (b @ new1) (m @ concat (replicate j m) @ Y)"
        using p append_prefixD [of "b @ new1" new] Suc by simp
      then have l: "line = m" using cut by blast
      have "prefix (line @ b1 @ new) (m @ concat (replicate j m) @ Y)" using p Suc line(1) by (simp flip: append_assoc)
      then have "agrees out (concat (replicate j m))" using n(3) l by simp
      then show ?thesis using r l Suc by simp
    qed simp
    then show ?thesis unfolding follows_def using e2 n(1,2) by (auto intro!: exI [of _ "new1 @ new"] exI [of _ "out1 @ out"])
  qed
qed

lemma echo_loop_follows:
  assumes m: "scan CRLF 0 0 m = Inl (length m - 1)" "m \<noteq> []" "char_at m 0 \<noteq> 33"
  shows "echo_loop n g fd bench (b, e) = (r, s') \<Longrightarrow> follows fd m (b, e) (snd s')"
proof (induction n arbitrary: b e)
  case 0
  then show ?case by (auto intro: follows_silent [of _ _ _ "[]"])
next
  case (Suc n)
  obtain x b1 e1 where l: "get_line g (cf_read fd) (b, e) = (x, (b1, e1))" by (metis prod.exhaust)
  obtain new1 where new1: "received fd e1 = received fd e @ new1" and sent1: "sent fd e1 = sent fd e"
    using get_line_any [OF l] by blast
  show ?case
  proof (cases "\<exists>line. x = Val (False, line)")
    case False
    then have "received fd (snd s') = received fd e1 \<and> sent fd (snd s') = sent fd e1"
    proof (cases x)
      case (Val c)
      then obtain line where c: "c = (True, line)" using False by (metis prod.exhaust)
      obtain y e2 where "cf_close fd e1 = (y, e2)" by (rule prod.exhaust)
      then show ?thesis using Suc.prems l Val c quiet_close
        by (cases y) (auto simp: bindS_def on_file_def Let_def)
    qed (use Suc.prems l in \<open>auto simp: bindS_def\<close>)
    then show ?thesis using follows_silent new1 sent1 by simp
  next
    case True
    then obtain line where x: "get_line g (cf_read fd) (b, e) = (Val (False, line), (b1, e1))" using l by blast
    have line: "line @ b1 = b @ new1" "scan CRLF 0 0 (b @ new1) = Inl (length line - 1)" "line \<noteq> []"
      using cf.get_string_spec [OF x [unfolded get_line_def]] new1 by (auto simp: CRLF_def)
    note fl = follows_line [OF m(1,2) line]
    show ?thesis
    proof (cases "char_at line 0 = 33")
      case cmd: True
      then have ne: "line \<noteq> m" using m(3) by blast
      note fl = fl [OF _ _ ne [THEN notE]]
      consider (stop) "char_at line 1 = 113 \<or> char_at line 1 = 115"
        | (bench) "char_at line 1 = 98" | (other) "char_at line 1 \<notin> {113, 115, 98}" by blast
      then show ?thesis
      proof cases
        case stop
        obtain y e2 where d: "cs_shutdown fd SHUT_RDWR e1 = (y, e2)" by (rule prod.exhaust)
        obtain z e3 where c: "cf_close fd e2 = (z, e3)" by (rule prod.exhaust)
        have "snd s' = e2 \<or> snd s' = e3"
          using Suc.prems x cmd stop d c by (cases y; cases z) (auto simp: bindS_def on_file_def Let_def)
        then have "received fd (snd s') = received fd e1 \<and> sent fd (snd s') = sent fd e1"
          using quiet_end [OF d] quiet_close [OF c] by auto
        then show ?thesis using follows_silent new1 sent1 by simp
      next
        case bench
        obtain y e2 where w: "cf_write fd (bench e1) e1 = (y, e2)" by (rule prod.exhaust)
        obtain q where q: "sent fd e2 = sent fd e @ take q (bench e1)"
          using cf_write_sent [of "bench e1" fd e1] w sent1 by auto
        have rc: "received fd e2 = received fd e @ new1"
          using steadyD [OF steady_cf_write w, of "received fd"] new1 by simp
        have "snd s' = e2 \<or> follows fd m (b1, e2) (snd s')"
          using Suc.prems x cmd bench w Suc.IH [of b1 e2] by (cases y) (auto simp: bindS_def on_file_def Let_def)
        then show ?thesis using fl [OF rc q] ne by auto
      next
        case other
        then have "follows fd m (b1, e1) (snd s')"
          using Suc.prems x cmd by (intro Suc.IH) (auto simp: bindS_def Let_def)
        moreover have "sent fd e1 = sent fd e @ []" using sent1 by simp
        ultimately show ?thesis using fl [OF new1] ne by blast
      qed
    next
      case False
      obtain y e2 where w: "cf_write fd line e1 = (y, e2)" by (rule prod.exhaust)
      obtain q where q: "sent fd e2 = sent fd e @ take q line" "y = Val () \<longrightarrow> q = length line"
        using cf_write_sent [of line fd e1] w sent1 by auto
      have rc: "received fd e2 = received fd e @ new1"
        using steadyD [OF steady_cf_write w, of "received fd"] new1 by simp
      have "snd s' = e2 \<or> y = Val () \<and> follows fd m (b1, e2) (snd s')"
        using Suc.prems x False w Suc.IH [of b1 e2] by (cases y) (auto simp: bindS_def on_file_def Let_def)
      then show ?thesis using fl [OF rc q(1), of q "snd s'"] q(2) by auto
    qed
  qed
qed

lemma echo_session_follows:
  assumes m: "scan CRLF 0 0 m = Inl (length m - 1)" "m \<noteq> []" "char_at m 0 \<noteq> 33"
    and "echo_session n g fd bench e = (r, e')"
  shows "follows fd m ([], e) e'"
proof -
  obtain x b1 e1 where l: "echo_loop n g fd bench ([], e) = (x, (b1, e1))" by (metis prod.exhaust)
  have f: "follows fd m ([], e) e1" using echo_loop_follows [OF m l] by simp
  have "received fd e' = received fd e1 \<and> sent fd e' = sent fd e1"
  proof -
    obtain y e2 where "cf_close fd e1 = (y, e2)" by (rule prod.exhaust)
    then show ?thesis using assms(4) l quiet_close
      by (cases x; cases y) (auto simp: echo_session_def cf_destroy_def bindS_def split: if_splits)
  qed
  then show ?thesis using f by (simp add: follows_def)
qed

subsection \<open>The round trip\<close>

lemma junkified:
  assumes "junkify_buffer (replicate n 0) n = Val message" "n < 2 ^ 31"
  shows "\<not> n < 2" "length message = n" "scan CRLF 0 0 message = Inl (length message - 1)" "char_at message 0 \<noteq> 33"
proof -
  show n: "\<not> n < 2" using assms(1) junkify_overflows by auto
  then have "message = junk_text (n - 2) @ CRLF" using assms junkify_fills by auto
  then show "length message = n" "scan CRLF 0 0 message = Inl (length message - 1)" "char_at message 0 \<noteq> 33"
    using junkify_line [of n] n by simp_all
qed

text \<open>
  C12: the message comes back.  A client that has made its message with \<open>junkify_buffer\<close> and has done its \<open>ntrans\<close>
  transactions over a connection to an echo session has received exactly its message, \<open>ntrans\<close> times, and nothing else:
  whatever state the session is in, however the kernels on both sides cut the two streams, and whatever
  the client sends afterwards.
\<close>

theorem echo_round_trip:
  assumes "junkify_buffer (replicate n 0) n = Val message" "n < 2 ^ 31"
    and "transactions cfd message n ntrans s = (Val (), s')" "sent cfd (cl_io s) = []" "received cfd (cl_io s) = []"
    and "echo_session k g sfd bench e = (r, e')" "sent sfd e = []" "received sfd e = []"
    and "prefix (received sfd e') (sent cfd (cl_io s') @ later)"
    and "prefix (received cfd (cl_io s')) (sent sfd e')"
  shows "received cfd (cl_io s') = concat (replicate ntrans message)"
proof -
  have n: "\<not> n < 2" and msg: "length message = n" "scan CRLF 0 0 message = Inl (length message - 1)" "char_at message 0 \<noteq> 33"
    using junkified [OF assms(1,2)] by simp_all
  then have ne: "message \<noteq> []" by auto
  obtain new where t: "sent cfd (cl_io s') = concat (replicate ntrans message)" "received cfd (cl_io s') = new" "length new = ntrans * n"
    using transactions_done [OF assms(3)] assms(4,5) by auto
  have "follows sfd message ([], e) e'" using echo_session_follows [OF msg(2) ne msg(3) assms(6)] .
  then have "agrees (sent sfd e') (concat (replicate ntrans message))"
    using assms(7-9) t(1) by (auto simp: follows_def)
  then have "agrees new (concat (replicate ntrans message))"
    using assms(10) t(2) by (auto simp: agrees_def dest: prefix_same_cases prefix_order.trans)
  moreover have "length new = length (concat (replicate ntrans message))"
    using t(3) msg(1) by (simp add: length_concat sum_list_replicate)
  ultimately show ?thesis using t(2) by (auto simp: agrees_def prefix_def)
qed

theorem echo_round_trip_witness:
  "let c = transactions 3 [97, 13, 10] 3 1 (ex_client [Num 3, Data [97], Data [13, 10]]);
       r = echo_session 1 9 7 (\<lambda>_. []) (ex_io [Data [97, 13, 10], Num 3])
   in junkify_buffer (replicate 3 0) 3 = Val [97, 13, 10] \<and> fst c = Val ()
     \<and> received 3 (cl_io (snd c)) = concat (replicate 1 [97, 13, 10])"
proof -
  let ?s = "ex_client [Num 3, Data [97], Data [13, 10]]" and ?e = "ex_io [Data [97, 13, 10], Num 3]"
  let ?c = "transactions 3 [97, 13, 10] 3 1 ?s"
  have j: "junkify_buffer (replicate 3 0) 3 = Val [97, 13, 10]" by code_simp
  have c: "fst ?c = Val ()" "sent 3 (cl_io (snd ?c)) = [97, 13, 10]" "received 3 (cl_io (snd ?c)) = [97, 13, 10]"
    by code_simp+
  have c': "?c = (Val (), snd ?c)" using c(1) by (metis prod.collapse)
  let ?e1 = "?e\<lparr>io_answers := [Num 3], io_log := [(C_Read 7 8192, Data [97, 13, 10])]\<rparr>"
  have g: "get_line 9 (cf_read 7) ([], ?e) = (Val (False, [97, 13, 10]), ([], ?e1))"
    by (simp add: get_line_def get_simps)
  have l: "sent 3 (cl_io ?s) = []" "received 3 (cl_io ?s) = []" "sent 7 ?e = []" "received 7 ?e = []"
    "sent 7 ?e1 = []" "received 7 ?e1 = [97, 13, 10]"
    by (simp_all add: ex_client_def ex_io_def sent_def received_def)
  obtain e2 where w: "cf_write 7 [97, 13, 10] ?e1 = (Val (), e2)"
    using cf_write_steps [of ?e1 3 "[]" "[97, 13, 10]" 7] by (auto simp: max_rw_def)
  have e2: "sent 7 e2 = [97, 13, 10]" "received 7 e2 = [97, 13, 10]" using cf_write_returns [OF w] l(5,6) by simp_all
  have r: "echo_session 1 9 7 (\<lambda>_. []) ?e = (Stuck, e2)"
    by (simp add: echo_session_def bindS_def g w char_at_def on_file_def)
  have "received 3 (cl_io (snd ?c)) = concat (replicate 1 [97, 13, 10])"
    by (rule echo_round_trip [OF j _ c' l(1,2) r l(3,4), of "[]"]) (use c(2,3) e2 in simp_all)
  then show ?thesis using j c(1) by (simp add: Let_def)
qed

end
