(* ===== verification/Client_Args.thy ===== *)
theory Client_Args
  imports Echo_Pair
begin

section \<open>The arguments of the echo client\<close>

text \<open>
  \<open>main\<close> of \<open>demo/echo_client.cc\<close> up to the loop that starts the clients: the six arguments, the buffer for the message and
  the address.  \<open>inet_aton\<close> is a parameter, which gives the four bytes of the address, and so is the success of
  \<open>calloc\<close>; \<open>atoi\<close> is that of the C library, for numbers that an \<open>int\<close> can hold.
\<close>

definition is_space :: "char \<Rightarrow> bool" where
  "is_space c \<longleftrightarrow> c \<in> set [CHR '' '', CHR 0x09, CHR 0x0A, CHR 0x0B, CHR 0x0C, CHR 0x0D]"

definition is_digit :: "char \<Rightarrow> bool" where
  "is_digit c \<longleftrightarrow> c \<in> set ''0123456789''"

definition decimal :: "string \<Rightarrow> int" where
  "decimal s = foldl (\<lambda>n c. 10 * n + (of_char c - 48)) 0 (takeWhile is_digit s)"

definition atoi :: "string \<Rightarrow> int" where
  "atoi s =
     (case dropWhile is_space s of
        [] \<Rightarrow> 0
      | c # cs \<Rightarrow> if c = CHR ''-'' then - decimal cs else if c = CHR ''+'' then decimal cs else decimal (c # cs))"

record client_args =
  ca_nc :: int
  ca_ntrans :: int
  ca_packet_size :: int
  ca_message :: "byte list"
  ca_addr :: "byte list"

text \<open>The \<open>struct sockaddr_in\<close>, with what was on the stack in its last field.\<close>

definition client_addr :: "int \<Rightarrow> byte list \<Rightarrow> byte list \<Rightarrow> byte list" where
  "client_addr port ip sin_zero =
     (let p = (word_of_int port :: 16 word) in [2, 0, ucast (drop_bit 8 p), ucast p] @ ip @ sin_zero)"

text \<open>
  \<open>None\<close> is the exit with a message on \<open>stderr\<close>.  The argument of \<open>calloc\<close> and of \<open>junkify_buffer\<close> is a \<open>size_t\<close>; what \<open>calloc\<close> returns is
  not checked, and \<open>junkify_buffer\<close> writes to it whatever the size is.
\<close>

definition client_setup ::
    "(string \<Rightarrow> byte list option) \<Rightarrow> (nat \<Rightarrow> bool) \<Rightarrow> byte list \<Rightarrow> string list \<Rightarrow> client_args option outcome" where
  "client_setup inet_aton calloc sin_zero argv =
     (if length argv \<noteq> 6 then Val None
      else
        let host = argv ! 1; port = atoi (argv ! 2); nc = atoi (argv ! 3); ntrans = atoi (argv ! 4); packet_size = atoi (argv ! 5);
            size = unat (word_of_int packet_size :: 64 word)
        in if \<not> calloc size then Raise (Undef Wild_Pointer)
           else case junkify_buffer (replicate size 0) size of
               Val message \<Rightarrow>
                 (case inet_aton host of
                    None \<Rightarrow> Val None
                  | Some ip \<Rightarrow> Val (Some \<lparr>ca_nc = nc, ca_ntrans = ntrans, ca_packet_size = packet_size,
                      ca_message = message, ca_addr = client_addr port ip sin_zero\<rparr>))
             | Raise e \<Rightarrow> Raise e
             | Stuck \<Rightarrow> Stuck)"

text \<open>\<open>atoi\<close> reads back what a number looks like.\<close>

lemma decimal_snoc:
  "list_all is_digit s \<Longrightarrow> is_digit c \<Longrightarrow> decimal (s @ [c]) = 10 * decimal s + (of_char c - 48)"
proof -
  assume "list_all is_digit s" "is_digit c"
  then have t: "takeWhile is_digit (s @ [c]) = s @ [c]" "takeWhile is_digit s = s"
    by (auto simp: takeWhile_eq_all_conv list_all_iff)
  show ?thesis unfolding decimal_def t by simp
qed

lemma size_t_int: "0 \<le> n \<Longrightarrow> n < 2 ^ 31 \<Longrightarrow> unat (word_of_int n :: 64 word) = nat n"
  by (simp add: unat_eq_nat_uint uint_word_of_int take_bit_int_eq_self)

lemma size_t_negative: "- (2 ^ 31) \<le> n \<Longrightarrow> n < 0 \<Longrightarrow> 2 ^ 63 \<le> unat (word_of_int n :: 64 word)"
proof -
  assume n: "- (2 ^ 31) \<le> n" "n < 0"
  have "n mod 2 ^ 64 = (n + 2 ^ 64) mod 2 ^ 64" by simp
  also have "\<dots> = n + 2 ^ 64" using n by (intro mod_pos_pos_trivial) simp_all
  finally have "uint (word_of_int n :: 64 word) = n + 2 ^ 64" by (simp add: uint_word_of_int take_bit_eq_mod)
  then show ?thesis using n by (simp add: unat_eq_nat_uint)
qed

text \<open>
  C32: the arguments of the client.  For a packet size from 2 on, if there is memory and the address is valid, the client starts with a
  message of exactly that size that is one line and no command, and so comes back as it is; for a smaller packet size, also a negative one,
  \<open>main\<close> writes where it must not before it starts a client.  The hypothesis on \<open>calloc\<close> is that it does not give
  blocks of half the address space.
\<close>

theorem client_setup_message:
  assumes "\<And>n. 2 ^ 63 \<le> n \<Longrightarrow> \<not> calloc n" "length argv = 6" "- (2 ^ 31) \<le> atoi (argv ! 5)" "atoi (argv ! 5) < 2 ^ 31"
  shows "(atoi (argv ! 5) < 2 \<longrightarrow> (\<exists>u. client_setup inet_aton calloc sin_zero argv = Raise (Undef u)))
    \<and> (2 \<le> atoi (argv ! 5) \<longrightarrow> calloc (nat (atoi (argv ! 5))) \<longrightarrow> inet_aton (argv ! 1) = Some ip \<longrightarrow>
        (\<exists>args. client_setup inet_aton calloc sin_zero argv = Val (Some args)
          \<and> ca_packet_size args = atoi (argv ! 5) \<and> int (length (ca_message args)) = ca_packet_size args
          \<and> scan CRLF 0 0 (ca_message args) = Inl (length (ca_message args) - 1) \<and> char_at (ca_message args) 0 \<noteq> 33
          \<and> ca_addr args = client_addr (atoi (argv ! 2)) ip sin_zero))"
proof -
  let ?n = "atoi (argv ! 5)"
  show ?thesis
  proof (cases "0 \<le> ?n")
    case True
    note size = size_t_int [OF True assms(4)]
    show ?thesis
    proof (cases "?n < 2")
      case small: True
      then have "nat ?n < 2" by simp
      from junkify_overflows [OF this] show ?thesis
        using assms(2) size small by (simp add: client_setup_def Let_def)
    next
      case False
      then have n: "2 \<le> nat ?n" "nat ?n < 2 ^ 31" using assms(4) by simp_all
      note j = junkify_fills [OF n] and l = junkify_line [OF n(1)]
      show ?thesis using False assms(2) size j l by (simp add: client_setup_def Let_def)
    qed
  next
    case False
    then have "2 ^ 63 \<le> unat (word_of_int ?n :: 64 word)" using size_t_negative assms(3) by simp
    from assms(1) [OF this] show ?thesis using False assms(2) by (simp add: client_setup_def Let_def)
  qed
qed

theorem client_setup_message_witness:
  "\<exists>args. client_setup (\<lambda>_. Some [127, 0, 0, 1]) (\<lambda>n. n < 4096) [] [''client'', ''127.0.0.1'', ''9001'', ''3'', ''10'', '' +40''] = Val (Some args)
    \<and> length (ca_message args) = 40 \<and> ca_addr args = [2, 0, 35, 41, 127, 0, 0, 1]"
proof -
  let ?argv = "[''client'', ''127.0.0.1'', ''9001'', ''3'', ''10'', '' +40'']"
  have a: "atoi (?argv ! 5) = 40" "atoi (?argv ! 2) = 9001" by code_simp+
  have addr: "client_addr 9001 [127, 0, 0, 1] [] = [2, 0, 35, 41, 127, 0, 0, 1]" by code_simp
  have "\<not> n < (4096 :: nat)" if "2 ^ 63 \<le> n" for n using that by simp
  from client_setup_message [of "\<lambda>n. n < 4096" ?argv "\<lambda>_. Some [127, 0, 0, 1]" "[]" "[127, 0, 0, 1]", OF this] a
  obtain args where "client_setup (\<lambda>_. Some [127, 0, 0, 1]) (\<lambda>n. n < 4096) [] ?argv = Val (Some args)"
    "ca_packet_size args = 40" "int (length (ca_message args)) = ca_packet_size args" "ca_addr args = client_addr 9001 [127, 0, 0, 1] []"
    by auto
  then show ?thesis unfolding addr by (intro exI [of _ args]) simp
qed

end
