(* ===== verification/Event_Poller.thy ===== *)
theory Event_Poller
  imports Coro_Steps
begin

section \<open>The second class poller\<close>

text \<open>
  \<open>event_poller.h\<close> defines \<open>class poller\<close> a second time.  No file includes it.  Its waits call the function
  \<open>yield\<close> where those of \<open>coro++.h\<close> call the member function of the coroutine they are given, and its \<open>poll\<close> sets
  the two counters back.
\<close>

text \<open>
  \<open>coro::yield\<close> of the object \<open>c\<close>: it stores the value in \<open>c\<close> and switches away from \<open>_current\<close>.  The function \<open>yield\<close> calls it on
  \<open>_current\<close>.
\<close>

definition yield_of :: "cid \<Rightarrow> pval \<Rightarrow> 's frames \<Rightarrow> (('s, 'p) world, 's ending) op" where
  "yield_of c arg k = bindS me (\<lambda>_ w. (Val (Suspended k), set_value c arg w))"

definition yield_fn :: "pval \<Rightarrow> 's frames \<Rightarrow> (('s, 'p) world, 's ending) op" where
  "yield_fn arg k = bindS me (\<lambda>d. yield_of d arg k)"

text \<open>\<open>wait_for_read\<close> and \<open>wait_for_write\<close> of the base class, in \<open>coro++.h\<close> and in \<open>event_poller.h\<close>.\<close>

definition base_wait_for :: "(int \<Rightarrow> cid \<Rightarrow> ('p, unit) op) \<Rightarrow> int \<Rightarrow> cid \<Rightarrow> 's \<Rightarrow> (('s, 'p) world, 's ending) op" where
  "base_wait_for reg fd c k = bindS (set_wait reg fd c) (\<lambda>_. yield_of c 0 (\<lambda>_. k))"

definition old_wait_for :: "(int \<Rightarrow> cid \<Rightarrow> ('p, unit) op) \<Rightarrow> int \<Rightarrow> cid \<Rightarrow> 's \<Rightarrow> (('s, 'p) world, 's ending) op" where
  "old_wait_for reg fd c k = bindS (set_wait reg fd c) (\<lambda>_. yield_fn 0 (\<lambda>_. k))"

record old_poller =
  op_rb :: int
  op_wb :: int

definition old_poll :: "int \<Rightarrow> (old_poller, unit) op" where
  "old_poll timeout p = (Val (), p\<lparr>op_rb := 0, op_wb := 0\<rparr>)"

lemma set_wait_current: "set_wait reg fd c w = (r, w') \<Longrightarrow> w_current w' = w_current w"
  by (auto simp: set_wait_def split: prod.splits)

lemma yield_of_current: "w_current w = Some d \<Longrightarrow> yield_of c arg k w = (Val (Suspended k), set_value c arg w)"
  by (simp add: yield_of_def bindS_def me_def)

lemma yield_fn_current: "w_current w = Some d \<Longrightarrow> yield_fn arg k w = yield arg k w"
  by (simp add: yield_fn_def yield_of_def yield_def bindS_def me_def)

text \<open>
  the two classes do the same for the coroutine that runs, which is the one that \<open>coro_file\<close> passes: a wait of either registers it and
  suspends it as \<open>wait_for\<close> of theory \<open>Coro\<close> does with a poller that does not look at the value it is resumed with.  For
  another coroutine \<open>c\<close> both suspend the running one, but that of \<open>coro++.h\<close> overwrites the \<open>_value\<close> of \<open>c\<close>, and that of
  \<open>event_poller.h\<close> leaves it alone.
\<close>

theorem second_poller_agrees:
  assumes "w_current w = Some d"
  shows "(c = d \<longrightarrow> old_wait_for reg fd c k w = base_wait_for reg fd c k w
      \<and> base_wait_for reg fd c k w = wait_for reg (\<lambda>_. None) fd k h w)
    \<and> (c \<noteq> d \<longrightarrow> fst (old_wait_for reg fd c k w) = fst (base_wait_for reg fd c k w)
      \<and> w_coros (snd (old_wait_for reg fd c k w)) ! c = w_coros w ! c)"
proof -
  obtain r w1 where s: "set_wait reg fd c w = (r, w1)" by (rule prod.exhaust)
  have cur: "w_current w1 = Some d" using set_wait_current [OF s] assms by simp
  have coros: "w_coros w1 = w_coros w" using s by (auto simp: set_wait_def split: prod.splits)
  have a: "old_wait_for reg fd c k w = (case r of Val _ \<Rightarrow> (Val (Suspended (\<lambda>_. k)), set_value d 0 w1) | Raise e \<Rightarrow> (Raise e, w1) | Stuck \<Rightarrow> (Stuck, w1))"
    "base_wait_for reg fd c k w = (case r of Val _ \<Rightarrow> (Val (Suspended (\<lambda>_. k)), set_value c 0 w1) | Raise e \<Rightarrow> (Raise e, w1) | Stuck \<Rightarrow> (Stuck, w1))"
    using s cur by (simp_all add: old_wait_for_def base_wait_for_def bindS_def yield_fn_current yield_of_current yield_current split: outcome.split)
  have "base_wait_for reg fd c k w = wait_for reg (\<lambda>_. None) fd k h w" if "c = d"
    using s cur assms that unfolding a(2)
    by (simp add: wait_for_def bindS_def me_def yield_current split: outcome.split)
  moreover have "w_coros (set_value d 0 w1) ! c = w_coros w ! c" if "c \<noteq> d"
    using that coros by (simp add: set_value_def upd_coro_def)
  ultimately show ?thesis unfolding a using coros by (cases r) simp_all
qed

end
