(* ===== verification/Spec2Isabelle.thy ===== *)
theory Spec2Isabelle
  imports Poller_Kqueue Poller_Select Demo_Mains Stack_Copy Sync Echo_Program Smtp_Program Tls_Program Bench Client_Args Event_Poller
begin

text \<open>
  A verification library for coro++, a header library of coroutines for C++ with an event loop.

  \<^bold>\<open>The program.\<close>  All coroutines of a process run on one stack.  \<open>src/swap.h\<close> switches between two
  coroutines with a few lines of assembly; \<open>class coro\<close> in \<open>src/coro++.h\<close> copies the part of the stack
  that a suspended coroutine uses to the heap and back, keeps the list of coroutines that are due
  (\<open>_pending\<close>, with \<open>_staging\<close> for the round that runs) and a queue of timed events, and runs the event
  loop.  When nothing is due the loop calls a poller, one of \<open>src/event_kqueue.h\<close>, \<open>src/event_poll.h\<close> and
  \<open>src/event_select.h\<close>, which schedules the coroutines whose descriptors are ready.  \<open>src/sync.h\<close> has a
  condition variable, a latch and a queue for coroutines.  \<open>src/coro_file.h\<close>, \<open>src/coro_socket.h\<close> and
  \<open>src/coro_buffer.h\<close> read and write descriptors and wait through the poller when the kernel would
  block; \<open>src/coro_openssl.h\<close> and \<open>src/coro_s2n.h\<close> put TLS in between.  \<open>src/coro_bench.h\<close> prints the use
  of resources.  The programs under \<open>src/demo\<close> are an echo server with its client and an SMTP server.

  \<^bold>\<open>The theories, from the machine upwards.\<close>  Each group of definitions has the order and the names of the
  code, with a prefix where a name is taken (\<open>cf_\<close> for \<open>coro_file\<close>, \<open>cs_\<close> for \<open>coro_socket\<close>, \<open>cv_\<close> for
  \<open>condition_variable\<close>, \<open>kq_\<close>, \<open>pp_\<close> and \<open>sp_\<close> for the three pollers).

  \<^item> \<open>Prelude\<close>: pointers, values, exceptions, the outcome \<open>Val\<close>, \<open>Raise\<close> or \<open>Stuck\<close> of an operation, the sequence
    \<open>bindS\<close> of two operations, and facts on lists and maps.  \<open>Raise (Undef u)\<close> is behaviour that C++ does not
    define; \<open>Stuck\<close> is an operation that has not come back yet.
  \<^item> \<open>Machine\<close>, \<open>Swap\<close>: bytes, words and registers, and the assembly of \<open>src/swap.h\<close> for x86_64 and i386,
    instruction by instruction.  \<open>Stack_Copy\<close>: \<open>create\<close>, \<open>preserve\<close> and \<open>restore\<close> of \<open>src/coro++.h\<close> on this
    memory.  Together they show that a coroutine continues with its registers and with every byte of its stack.
  \<^item> \<open>Timeval\<close>, \<open>Event_Queue\<close>: the macros of \<open>struct timeval\<close>, and \<open>std::priority_queue\<close> as the binary heap that it
    is, with its contract as the locale \<open>prio_queue\<close>.
  \<^item> \<open>Coro\<close>: \<open>class coro\<close>.  The record \<open>world\<close> holds its static members, the coroutine objects, the clock,
    the success of \<open>malloc\<close> and the state of the poller; \<open>schedule\<close>, \<open>resume\<close>, \<open>yield\<close>, \<open>sleep\<close>,
    \<open>run_pending\<close>, \<open>event_loop\<close> and the others are its member functions.  The code of the threads is a
    parameter.  \<open>Coro_Steps\<close>: what a thread does between two switches, as a step relation.  \<open>Coro_Inv\<close>: the
    invariant \<open>wf_world\<close>, kept by every operation.  \<open>Coro_Own\<close>: the specification, a scheduler in which
    every coroutine owns its stack, and the simulation.  \<open>Coro_Props\<close>: the properties of the scheduler.
    \<open>Example\<close>: the world and the threads that the witnesses use.
  \<^item> \<open>Event_Loop\<close>: what the loop needs of a poller (the locale \<open>poller\<close>) and what it then guarantees.
    \<open>Wakeups\<close>: the discipline of threads (\<open>tidy\<close>) under which every living coroutine has at most one wake-up and a
    dead one none, and the locale \<open>waking_poller\<close>, which extends \<open>poller\<close>; the three back ends interpret it.
    \<open>Std_Map\<close>: \<open>std::map\<close> (the locale \<open>key_map\<close>).  \<open>Poller_Kqueue\<close>, \<open>Poller_Poll\<close>, \<open>Poller_Select\<close>: the three
    pollers, each an interpretation of \<open>poller\<close>, and what each of them does with the answers of the kernel.
  \<^item> \<open>Sync\<close>: \<open>src/sync.h\<close>.  The queue is studied as a transition system over any number of coroutines that push and
    pop in any order.
  \<^item> \<open>Sys_Calls\<close>: the system as one thread sees it, that is a list of answers of the kernel, a list of wake-ups and
    the trace of the calls.  \<open>Coro_File\<close>, \<open>Coro_Buffer\<close>, \<open>Coro_Socket\<close>: the classes of these names.  The virtual
    \<open>read\<close> is a parameter with the contracts \<open>byte_reader\<close>, \<open>byte_source\<close>, \<open>counted_source\<close> and
    \<open>byte_pump\<close>, and \<open>coro_file::read\<close> and the TLS classes interpret them.  \<open>Coro_OpenSSL\<close>, \<open>Coro_S2N\<close>: the
    TLS classes over the calls of their libraries, which are answers too.
  \<^item> \<open>Bench\<close>, \<open>Echo_Server\<close>, \<open>Echo_Client\<close>, \<open>Smtp_Server\<close>: \<open>src/coro_bench.h\<close> and the programs.  \<open>Progress\<close>: each pass
    of a loop uses up something that the kernel gave, so that an echo session ends (the locale \<open>fed_transport\<close>, for each class of sockets).
    The loop of an echo session is generic in the class of its socket (the locale \<open>echo_transport\<close>, with an interpretation for
    plain sockets); \<open>Echo_Tls\<close>: the sessions over the two TLS classes, which interpret it too.
    \<open>Echo_Pair\<close>: the client against the server, over two streams of bytes.
  \<^item> \<open>Kqueue_Kernel\<close>: the kqueue poller on a kernel that keeps to \<open>kqueue (2)\<close>, an interpretation of \<open>waking_poller\<close>.
    \<open>Demo_Mains\<close>: what the three \<open>main\<close> functions start, \<open>class thing\<close>, the options of the echo server, and the event
    loop on each poller, as whole programs.
  \<^item> \<open>Thread_Points\<close>: every coroutine is at a point that its code can reach, and dead only at an end of it.  \<open>Replay\<close>:
    the operations on \<open>Sys_Calls\<close> are causal (the locale \<open>waking_state\<close>, and \<open>waking_buffer\<close> through a buffer), so that a thread can be run from wait to
    wait by replaying it.  \<open>Server_Program\<close>: the two together, a server thread and its sessions on the scheduler, each
    on its own list of answers.  \<open>Echo_Program\<close>, \<open>Smtp_Program\<close>: the echo server and the SMTP server as
    instances of it, from \<open>main\<close> on.  \<open>Tls_Threads\<close>, \<open>Tls_Program\<close>: the same for the echo server over each of the TLS classes: progress,
    causality and the descriptor of a session, and the two programs.
  \<^item> \<open>Client_Args\<close>: the arguments of the echo client, up to the message and the address.  \<open>Event_Poller\<close>: the second
    \<open>class poller\<close> of \<open>src/event_poller.h\<close>, against the one of \<open>src/coro++.h\<close>.

  \<^bold>\<open>What is shown.\<close>  The copying of stacks is invisible, from the assembly up to the event loop with each
  poller; the scheduler keeps its invariant, runs each round to its end and moves exactly the events that are due; a
  turn of one coroutine touches no other; the programs never resume a coroutine that has ended, and
  the servers, run as a whole, the echo server over s2n included, serve each connection as they should; a queue loses no element and no wake-up under any schedule.  A read or
  write through files, buffers and TLS transfers exactly the bytes of the stream in order, however the kernel cuts it.
  An echo session answers as its specification says and ends, and a client that talks to one gets its message back; an SMTP session answers as a specification without
  sockets says.  The theorems of kind \<open>error\<close> state where the code does something else than it means to.

  \<^bold>\<open>Fuel.\<close>  \<open>run_pending r n\<close> and \<open>event_loop l r n\<close> bound the rounds and the actions between two switches, as
  threads may run for ever; \<open>round_completes\<close> gives a bound that is enough for a round, and a run that ends is
  not changed by more fuel (\<open>Event_Loop\<close>).  The loops of \<open>coro_buffer\<close> and \<open>read_exact\<close> take fuel because some
  of them do not end; \<open>read_exact_hangs_at_eof\<close> and \<open>smtp_spins_at_eof\<close> say when no fuel is enough, and the
  other theorems give an amount that is (one more than the answers the kernel still has).  All other loops are
  recursive functions with a measure.

  \<^bold>\<open>What is relied on.\<close>  The kernel answers as documented: \<open>read\<close> and \<open>write\<close> transfer at most what they are asked
  to, and at most \<open>0x7ffff000\<close> bytes; \<open>poll\<close> and \<open>select\<close> return the number of ready entries.  Nothing else is
  assumed of it, nor of the clock, unless a theorem says so.  Integers are words where the code wraps around, and
  \<open>int\<close> with the range in the hypotheses elsewhere.

  \<^bold>\<open>Not modelled.\<close>  \<open>src/demo/certkey.h\<close>, which holds two string constants; what the \<open>main\<close> functions print; constructors and accessors that only store and return a
  member; the initialisation of the TLS libraries in \<open>echo_server\<close>, whose result it ignores; text
  written to \<open>std::cerr\<close>; the build files and the scripts under
  \<open>src/util\<close>.  The threads of the two servers are composed with the scheduler; the clients are not, as they
  share a counter: they are studied on \<open>Sys_Calls\<close>, and their \<open>main\<close> with the code of the threads as a
  parameter.  The descriptors of different threads are not related to each other: the kernel answers each thread
  on its own.
\<close>

end
